(* ===== verification/Prelude.thy ===== *)
theory Prelude
  imports Main "HOL-Library.Word"
begin

text \<open>
  Shared vocabulary of the development: the machine integers of the Go code, the ranges of the
  PostgreSQL integer types, and the generic facts on sums, lists and row updates that every
  component uses. Three collections of facts carry the proofs:

  \<^item> \<open>row_simps\<close>: how the list of rows of a table changes under an update;
  \<^item> \<open>sql_defs\<close>: the definitions of the single SQL statements;
  \<^item> \<open>run_simps\<close>: the equations that execute a Go function against a database session.
\<close>

named_theorems row_simps "rewriting of table rows under updates"
named_theorems sql_defs "definitions of the SQL statements"
named_theorems run_simps "execution of Go functions"

section \<open>Machine integers\<close>

text \<open>Go's \<open>int64\<close>; \<open>sint\<close> is its value. Arithmetic on it wraps around.\<close>

type_synonym int64 = "64 word"

definition bigint :: "int \<Rightarrow> bool" where
  "bigint i \<longleftrightarrow> - (2 ^ 63) \<le> i \<and> i < 2 ^ 63"

definition int4 :: "int \<Rightarrow> bool" where
  "int4 i \<longleftrightarrow> - (2 ^ 31) \<le> i \<and> i < 2 ^ 31"

lemma bigint_sint [simp]: "bigint (sint (x :: int64))"
  using sint_ge [of x] sint_lt [of x] by (simp add: bigint_def)

lemma sint_of_bigint: "bigint i \<Longrightarrow> sint (word_of_int i :: int64) = i"
  by (simp add: bigint_def sint_sbintrunc' signed_take_bit_int_eq_self)

lemma sint_minus_pos: "0 < sint (x :: int64) \<Longrightarrow> sint (- x) = - sint x"
proof -
  assume pos: "0 < sint x"
  have lt: "sint x < 2 ^ 63" using sint_lt [of x] by simp
  have "- x = word_of_int (- sint x)" by simp
  moreover have "bigint (- sint x)" using pos lt by (simp add: bigint_def)
  ultimately show ?thesis by (metis sint_of_bigint)
qed

section \<open>Sums\<close>

lemma isl_cases_Inr: "\<not> isl x \<Longrightarrow> x = Inr (projr x)"
  by (cases x) auto

text \<open>The sum of a column over the rows that satisfy a condition (\<open>SUM(...) ... WHERE\<close>).\<close>

definition sum_where :: "('r \<Rightarrow> bool) \<Rightarrow> ('r \<Rightarrow> int) \<Rightarrow> 'r list \<Rightarrow> int" where
  "sum_where P f rs = sum_list (map f (filter P rs))"

lemma sum_where_simps [simp, row_simps]:
  "sum_where P f [] = 0"
  "sum_where P f (r # rs) = (if P r then f r + sum_where P f rs else sum_where P f rs)"
  "sum_where P f (rs @ rs') = sum_where P f rs + sum_where P f rs'"
  by (simp_all add: sum_where_def)

lemma sum_where_True: "sum_where (\<lambda>_. True) f rs = sum_list (map f rs)"
  by (simp add: sum_where_def)

section \<open>Updating the rows of a table\<close>

text \<open>
  \<open>UPDATE t SET ... WHERE P\<close>: every row that satisfies the condition is replaced by its new
  version; the first row whose new version is refused makes the statement fail as a whole. The
  number is the count of rows affected.
\<close>

fun update_rows :: "('r \<Rightarrow> bool) \<Rightarrow> ('r \<Rightarrow> 'e + 'r) \<Rightarrow> 'r list \<Rightarrow> 'e + (nat \<times> 'r list)" where
  "update_rows P f [] = Inr (0, [])"
| "update_rows P f (r # rs) =
     (case (if P r then f r else Inr r) of
        Inl e \<Rightarrow> Inl e
      | Inr r' \<Rightarrow>
         (case update_rows P f rs of
            Inl e \<Rightarrow> Inl e
          | Inr (n, rs') \<Rightarrow> Inr (if P r then Suc n else n, r' # rs')))"

lemma update_rows_Inl:
  "update_rows P f rs = Inl e \<Longrightarrow> \<exists>r \<in> set rs. P r \<and> f r = Inl e"
  by (induction rs) (auto split: sum.splits if_splits)

lemma update_rows_Inr:
  "update_rows P f rs = Inr (n, rs') \<Longrightarrow>
     (\<forall>r \<in> set rs. P r \<longrightarrow> f r = Inr (projr (f r))) \<and> n = length (filter P rs) \<and>
     rs' = map (\<lambda>r. if P r then projr (f r) else r) rs"
  by (induction rs arbitrary: n rs') (auto split: sum.splits if_splits)

lemma update_rows_total:
  "(\<And>r. r \<in> set rs \<Longrightarrow> P r \<Longrightarrow> f r = Inr (g r)) \<Longrightarrow>
     update_rows P f rs = Inr (length (filter P rs), map (\<lambda>r. if P r then g r else r) rs)"
  by (induction rs) auto

lemma update_rows_none [row_simps]:
  "(\<And>r. r \<in> set rs \<Longrightarrow> \<not> P r) \<Longrightarrow> update_rows P f rs = Inr (0, rs)"
  by (induction rs) auto

lemma filter_unique:
  "distinct (map g rs) \<Longrightarrow> r \<in> set rs \<Longrightarrow> filter (\<lambda>x. g x = g r) rs = [r]"
proof (induction rs)
  case Nil
  then show ?case by simp
next
  case (Cons x rs)
  show ?case
  proof (cases "x = r")
    case True
    with Cons.prems have "filter (\<lambda>y. g y = g r) rs = []"
      by (auto simp: filter_empty_conv image_iff)
    with True show ?thesis by simp
  next
    case False
    with Cons show ?thesis by auto
  qed
qed

lemma filter_unique_and:
  assumes "distinct (map g rs)" and "r \<in> set rs" and "\<And>x. P x \<Longrightarrow> g x = g r" and "P r"
  shows "filter P rs = [r]"
proof -
  have "filter P rs = filter P (filter (\<lambda>x. g x = g r) rs)"
    using assms(3) by (auto simp: filter_filter intro!: filter_cong)
  then show ?thesis using filter_unique [OF assms(1,2)] assms(4) by simp
qed

lemma find_append:
  "find P (xs @ ys) = (case find P xs of None \<Rightarrow> find P ys | Some x \<Rightarrow> Some x)"
  by (induction xs) auto

end
