(* ===== verification/Schema.thy ===== *)
theory Schema
  imports Prelude
begin

text \<open>
  The database schema of \<open>migrations/\<close>: one record per table row, the database as the lists of
  rows of its five tables, and the declared constraints as executable predicates. Rows keep the
  column types: \<open>BIGINT\<close> and \<open>INT\<close> columns are integers whose range the statements check,
  \<open>TIMESTAMPTZ\<close> columns count microseconds, \<open>UUID\<close> and \<open>TEXT\<close> columns are strings of UTF-8
  bytes, \<open>JSONB\<close> columns hold a JSON value (PostgreSQL keeps the value, not the bytes it was
  written as). Identity sequences are not part of the tables: PostgreSQL does not roll them back.
\<close>

section \<open>Column types\<close>

type_synonym timestamp = int
type_synonym uuid = string

text \<open>
  JSON values. \<open>JTime\<close> is the JSON string with the RFC 3339 text of a time, kept as the time;
  an object keeps its members in the order they are written.
\<close>

datatype json =
    JNull
  | JBool bool
  | JInt int
  | JStr string
  | JTime timestamp
  | JArr "json list"
  | JObj "(string \<times> json) list"

text \<open>
  \<open>CHAR(3)\<close>: a value is padded with blanks to three characters. Characters are counted in UTF-8:
  continuation bytes do not start a character. A longer value is accepted only if what exceeds
  the length is blank.
\<close>

definition utf8_len :: "string \<Rightarrow> nat" where
  "utf8_len s = length (filter (\<lambda>c. \<not> (128 \<le> (of_char c :: nat) \<and> (of_char c :: nat) < 192)) s)"

definition char3 :: "string \<Rightarrow> string option" where
  "char3 s =
     (let t = (if utf8_len s > 3 then rev (dropWhile (\<lambda>c. c = CHR '' '') (rev s)) else s)
      in if utf8_len t > 3 then None else Some (t @ replicate (3 - utf8_len t) (CHR '' '')))"

lemma utf8_len_append [simp]: "utf8_len (s @ t) = utf8_len s + utf8_len t"
  by (simp add: utf8_len_def)

lemma utf8_len_blanks [simp]: "utf8_len (replicate n (CHR '' '')) = n"
  by (simp add: utf8_len_def)

lemma char3_stored: "char3 s = Some c \<Longrightarrow> utf8_len c = 3"
  by (auto simp: char3_def Let_def split: if_splits)

lemma char3_id: "utf8_len c = 3 \<Longrightarrow> char3 c = Some c"
  by (simp add: char3_def)

lemma char3_idem: "char3 s = Some c \<Longrightarrow> char3 c = Some c"
  by (blast dest: char3_stored intro: char3_id)

section \<open>Rows\<close>

record account_row =
  acc_id :: int
  acc_name :: string
  acc_currency :: string
  acc_balance :: int
  acc_version :: int
  acc_created :: timestamp
  acc_webhook :: "string option"

datatype transfer_status = Posted | Failed

record transfer_row =
  tr_id :: uuid
  tr_key :: string
  tr_status :: transfer_status
  tr_amount :: int
  tr_currency :: string
  tr_from :: int
  tr_to :: int
  tr_created :: timestamp

record posting_row =
  po_id :: int
  po_transfer :: uuid
  po_account :: int
  po_amount :: int
  po_created :: timestamp

datatype key_status = InProgress | Done

record key_row =
  ik_key :: string
  ik_hash :: string
  ik_status :: key_status
  ik_code :: "int option"
  ik_body :: "json option"
  ik_created :: timestamp
  ik_claimed :: timestamp

datatype outbox_status = Pending | InFlight | Delivered | DeadLetter

record outbox_row =
  ob_id :: uuid
  ob_type :: string
  ob_payload :: json
  ob_target :: "string option"
  ob_status :: outbox_status
  ob_attempts :: int
  ob_next :: "timestamp option"
  ob_reason :: "string option"
  ob_created :: timestamp
  ob_delivered :: "timestamp option"

record db =
  accounts :: "account_row list"
  transfers :: "transfer_row list"
  postings :: "posting_row list"
  idem_keys :: "key_row list"
  outbox :: "outbox_row list"

definition empty_db :: db where
  "empty_db = \<lparr>accounts = [], transfers = [], postings = [], idem_keys = [], outbox = []\<rparr>"

text \<open>The text of the status columns, as the queries return it.\<close>

primrec transfer_status_text :: "transfer_status \<Rightarrow> string" where
  "transfer_status_text Posted = ''posted''"
| "transfer_status_text Failed = ''failed''"

primrec key_status_text :: "key_status \<Rightarrow> string" where
  "key_status_text InProgress = ''in_progress''"
| "key_status_text Done = ''done''"

primrec outbox_status_text :: "outbox_status \<Rightarrow> string" where
  "outbox_status_text Pending = ''pending''"
| "outbox_status_text InFlight = ''in_flight''"
| "outbox_status_text Delivered = ''delivered''"
| "outbox_status_text DeadLetter = ''dead_letter''"

section \<open>Constraints\<close>

text \<open>The types and \<open>CHECK\<close> constraints of each table, row by row.\<close>

definition account_row_ok :: "account_row \<Rightarrow> bool" where
  "account_row_ok a \<longleftrightarrow>
     0 \<le> acc_balance a \<and> bigint (acc_balance a) \<and> bigint (acc_version a) \<and>
     char3 (acc_currency a) = Some (acc_currency a)"

definition transfer_row_ok :: "transfer_row \<Rightarrow> bool" where
  "transfer_row_ok t \<longleftrightarrow> 0 < tr_amount t \<and> tr_from t \<noteq> tr_to t"

definition key_row_ok :: "key_row \<Rightarrow> bool" where
  "key_row_ok k \<longleftrightarrow> ik_status k = InProgress \<or> ik_code k \<noteq> None"

definition has_account :: "int \<Rightarrow> db \<Rightarrow> bool" where
  "has_account i d \<longleftrightarrow> i \<in> acc_id ` set (accounts d)"

text \<open>All declared constraints: primary keys, unique columns, checks and foreign keys.\<close>

definition constraints_ok :: "db \<Rightarrow> bool" where
  "constraints_ok d \<longleftrightarrow>
     distinct (map acc_id (accounts d)) \<and>
     (\<forall>a \<in> set (accounts d). account_row_ok a) \<and>
     distinct (map tr_id (transfers d)) \<and>
     distinct (map tr_key (transfers d)) \<and>
     (\<forall>t \<in> set (transfers d). transfer_row_ok t \<and> has_account (tr_from t) d \<and> has_account (tr_to t) d) \<and>
     distinct (map po_id (postings d)) \<and>
     (\<forall>p \<in> set (postings d). po_transfer p \<in> tr_id ` set (transfers d) \<and> has_account (po_account p) d) \<and>
     distinct (map ik_key (idem_keys d)) \<and>
     (\<forall>k \<in> set (idem_keys d). key_row_ok k) \<and>
     distinct (map ob_id (outbox d))"

lemma constraints_ok_empty: "constraints_ok empty_db"
  by (simp add: constraints_ok_def empty_db_def)

section \<open>Looking up rows by primary key\<close>

definition find_account :: "int \<Rightarrow> db \<Rightarrow> account_row option" where
  "find_account i d = find (\<lambda>a. acc_id a = i) (accounts d)"

definition find_key :: "string \<Rightarrow> db \<Rightarrow> key_row option" where
  "find_key k d = find (\<lambda>r. ik_key r = k) (idem_keys d)"

definition find_event :: "uuid \<Rightarrow> db \<Rightarrow> outbox_row option" where
  "find_event i d = find (\<lambda>r. ob_id r = i) (outbox d)"

lemma find_account_Some: "find_account i d = Some a \<Longrightarrow> a \<in> set (accounts d) \<and> acc_id a = i"
  by (auto simp: find_account_def find_Some_iff)

lemma find_account_None: "find_account i d = None \<longleftrightarrow> \<not> has_account i d"
  by (auto simp: find_account_def has_account_def find_None_iff)

lemma has_account_find: "has_account i d \<longleftrightarrow> (\<exists>a. find_account i d = Some a)"
  using find_account_None [of i d] by auto

lemma find_key_Some: "find_key k d = Some r \<Longrightarrow> r \<in> set (idem_keys d) \<and> ik_key r = k"
  by (auto simp: find_key_def find_Some_iff)

lemma find_key_None: "find_key k d = None \<longleftrightarrow> k \<notin> ik_key ` set (idem_keys d)"
  by (auto simp: find_key_def find_None_iff)

lemma find_event_Some: "find_event i d = Some r \<Longrightarrow> r \<in> set (outbox d) \<and> ob_id r = i"
  by (auto simp: find_event_def find_Some_iff)

lemma filter_find_distinct:
  assumes "distinct (map g rs)"
  shows "filter (\<lambda>r. g r = k) rs = (case find (\<lambda>r. g r = k) rs of None \<Rightarrow> [] | Some r \<Rightarrow> [r])"
proof (cases "find (\<lambda>r. g r = k) rs")
  case None
  then have "\<forall>r \<in> set rs. g r \<noteq> k" by (auto simp: find_None_iff)
  with None show ?thesis by (simp add: filter_empty_conv)
next
  case (Some r)
  then have "r \<in> set rs" and "g r = k" by (auto simp: find_Some_iff)
  with Some filter_unique [OF assms] show ?thesis by auto
qed

end
