(* ===== verification/Driver.thy ===== *)
theory Driver
  imports Schema
begin

text \<open>
  The boundary between the Go code and everything it calls. A Go function that talks to the
  database, the clock, the UUID generator or the merchant's HTTP server is a value of type
  \<open>'a prog\<close>: a tree whose nodes are the calls it makes, each with the continuation that takes
  the reply. The tree says nothing of what is replied, so the driver (pgx), PostgreSQL and the
  merchants stay parameters: theorems either quantify over every reply, or run the tree against a
  database session (theory Session). Every SQL text of the source is one constructor of
  \<open>stmt\<close>; theory Sql gives its effect on the tables.
\<close>

section \<open>Errors\<close>

text \<open>
  Go errors: the sentinels of the packages \<open>ledger\<close>, \<open>idempotency\<close> and \<open>store\<close>, those of
  pgx, a PostgreSQL error with its SQLSTATE code, other driver errors, an \<open>errors.New\<close> made in
  place, and \<open>fmt.Errorf("...: %w", err)\<close>. A Go result of type \<open>error\<close> is an
  \<open>err option\<close>, \<open>None\<close> being \<open>nil\<close>.
\<close>

datatype err =
    ErrInsufficientFunds | ErrAccountNotFound | ErrCurrencyMismatch
  | ErrInvalidAmount | ErrSameAccount | ErrInvalidCurrency
  | ErrDuplicateRequest | ErrInProgress
  | ErrNotFound
  | ErrNoRows | ErrScan | ErrTxClosed | ErrTxCommitRollback
  | PgError string
  | DriverErr string
  | NewErr string
  | Wrapped string err

text \<open>\<open>errors.Is\<close> and \<open>errors.As\<close> with a \<open>*pgconn.PgError\<close> follow the wrapped errors.\<close>

fun errors_is :: "err \<Rightarrow> err \<Rightarrow> bool" where
  "errors_is (Wrapped m e) t = (Wrapped m e = t \<or> errors_is e t)"
| "errors_is e t = (e = t)"

fun errors_as_pg :: "err \<Rightarrow> string option" where
  "errors_as_pg (PgError c) = Some c"
| "errors_as_pg (Wrapped m e) = errors_as_pg e"
| "errors_as_pg e = None"

section \<open>Column values and statements\<close>

datatype sqlval =
    VNull
  | VInt int
  | VBool bool
  | VText string
  | VTime timestamp
  | VJson json

text \<open>The SQL texts of the source, with their parameters in the order of the text.\<close>

datatype stmt =
    \<comment> \<open>\<open>internal/ledger\<close>\<close>
    DebitIfFunds int64 int64              \<comment> \<open>amount, id\<close>
  | AccountExists int64
  | SelectBalanceForUpdate int64
  | DebitById int64 int64                 \<comment> \<open>amount, id\<close>
  | LockPair int64 int64
  | SelectBalanceVersion int64
  | DebitIfVersion int64 int64 int64      \<comment> \<open>amount, id, version\<close>
  | CreditById int64 int64                \<comment> \<open>amount, id\<close>
  | SelectCurrencies int64 int64
  | InsertTransfer uuid string int64 string int64 int64  \<comment> \<open>id, key, amount, currency, from, to\<close>
  | InsertPostings uuid int64 int64 int64 int64          \<comment> \<open>transfer, account, amount, account, amount\<close>
    \<comment> \<open>\<open>internal/idempotency\<close>\<close>
  | InsertKey string string               \<comment> \<open>key, hash\<close>
  | SelectKey string
  | StealKey string string int            \<comment> \<open>hash, key, threshold\<close>
  | CompleteKey int json string           \<comment> \<open>code, body, key\<close>
    \<comment> \<open>\<open>internal/store\<close>\<close>
  | InsertAccount string string "string option"
  | SelectAccount int64
  | UpdateWebhook string int64
  | SelectWebhook int64
  | SelectPostings int64 "int64 option" int   \<comment> \<open>account, cursor, limit\<close>
  | InsertOutbox string json "string option"
  | ClaimEvents int int                   \<comment> \<open>limit, threshold\<close>
  | DeliverEvent uuid
  | KillEvent uuid string
  | FailEvent uuid string int             \<comment> \<open>id, reason, maxRetries\<close>
  | CountByStatus
    \<comment> \<open>\<open>internal/recon\<close>\<close>
  | SumPostings
  | SelectDrift
  | CountNegative
    \<comment> \<open>\<open>cmd/api\<close>\<close>
  | Ping
    \<comment> \<open>\<open>cmd/loadtest\<close>\<close>
  | SetBalance int64 int64                \<comment> \<open>balance, id\<close>
  | SelectSeedDrift "int64 list" int64    \<comment> \<open>ids, seed balance\<close>
  | CountNegativeOf "int64 list"
    \<comment> \<open>\<open>cmd/chaostest\<close>\<close>
  | DeleteOutbox
  | CountUnsettled

section \<open>Programs\<close>

text \<open>Whether a statement is sent inside the open transaction or on the pool, as its own one.\<close>

datatype conn = InTx | Pool

record http_request =
  rq_url :: string
  rq_body :: json
  rq_event_id :: uuid
  rq_event_type :: string

datatype 'a prog =
    Ret 'a
  | BeginTx "err option \<Rightarrow> 'a prog"
  | CommitTx "err option \<Rightarrow> 'a prog"
  | RollbackTx "'a prog"
  | Exec conn stmt "err + nat \<Rightarrow> 'a prog"
  | Query conn stmt "err + sqlval list list \<Rightarrow> 'a prog"
  | NewUUID "uuid \<Rightarrow> 'a prog"
  | TimeNow "timestamp \<Rightarrow> 'a prog"
  | NewRequest string "string option \<Rightarrow> 'a prog"
  | DoRequest http_request "string + nat \<Rightarrow> 'a prog"
  | Sleep int "'a prog"

text \<open>Calling a function and going on with its result.\<close>

primrec bindp :: "'a prog \<Rightarrow> ('a \<Rightarrow> 'b prog) \<Rightarrow> 'b prog" where
  "bindp (Ret a) f = f a"
| "bindp (BeginTx k) f = BeginTx (\<lambda>r. bindp (k r) f)"
| "bindp (CommitTx k) f = CommitTx (\<lambda>r. bindp (k r) f)"
| "bindp (RollbackTx p) f = RollbackTx (bindp p f)"
| "bindp (Exec c s k) f = Exec c s (\<lambda>r. bindp (k r) f)"
| "bindp (Query c s k) f = Query c s (\<lambda>r. bindp (k r) f)"
| "bindp (NewUUID k) f = NewUUID (\<lambda>r. bindp (k r) f)"
| "bindp (TimeNow k) f = TimeNow (\<lambda>r. bindp (k r) f)"
| "bindp (NewRequest u k) f = NewRequest u (\<lambda>r. bindp (k r) f)"
| "bindp (DoRequest q k) f = DoRequest q (\<lambda>r. bindp (k r) f)"
| "bindp (Sleep t p) f = Sleep t (bindp p f)"

lemma bindp_Ret [simp]: "bindp p Ret = p"
  by (induction p) auto

lemma bindp_assoc: "bindp (bindp p f) g = bindp p (\<lambda>x. bindp (f x) g)"
  by (induction p) auto

text \<open>
  The Go idiom \<open>x, err := f(...); if err != nil { return err }\<close>, and the primitive calls as
  programs. A function that returns \<open>(T, error)\<close> is a program over \<open>err + T\<close>; one that returns
  only \<open>error\<close> is a program over \<open>err + unit\<close>.
\<close>

definition tryp :: "(err + 'a) prog \<Rightarrow> ('a \<Rightarrow> (err + 'b) prog) \<Rightarrow> (err + 'b) prog" where
  "tryp p f = bindp p (\<lambda>r. case r of Inl e \<Rightarrow> Ret (Inl e) | Inr a \<Rightarrow> f a)"

abbreviation fail_with :: "err \<Rightarrow> (err + 'a) prog" where "fail_with e \<equiv> Ret (Inl e)"
abbreviation return :: "'a \<Rightarrow> (err + 'a) prog" where "return a \<equiv> Ret (Inr a)"

definition exec :: "conn \<Rightarrow> stmt \<Rightarrow> (err + nat) prog" where
  "exec c s = Exec c s Ret"

definition query :: "conn \<Rightarrow> stmt \<Rightarrow> (err + sqlval list list) prog" where
  "query c s = Query c s Ret"

definition uuid_New :: "uuid prog" where
  "uuid_New = NewUUID Ret"

definition time_Now :: "timestamp prog" where
  "time_Now = TimeNow Ret"

text \<open>
  \<open>QueryRow(...).Scan(...)\<close>: the first row, \<open>ErrNoRows\<close> if there is none, and an error if the
  columns do not fit the variables. An \<open>int64\<close> variable takes integers of its range only.
\<close>

definition query_row :: "err + sqlval list list \<Rightarrow> err + sqlval list" where
  "query_row r = (case r of Inl e \<Rightarrow> Inl e | Inr [] \<Rightarrow> Inl ErrNoRows | Inr (row # _) \<Rightarrow> Inr row)"

definition int64_of :: "int \<Rightarrow> err + int64" where
  "int64_of i = (if bigint i then Inr (word_of_int i) else Inl ErrScan)"

text \<open>One column into one variable; a pointer variable takes \<open>NULL\<close>.\<close>

fun cell_int :: "sqlval \<Rightarrow> err + int64" where
  "cell_int (VInt i) = int64_of i"
| "cell_int _ = Inl ErrScan"

fun cell_bool :: "sqlval \<Rightarrow> err + bool" where
  "cell_bool (VBool b) = Inr b"
| "cell_bool _ = Inl ErrScan"

fun cell_text :: "sqlval \<Rightarrow> err + string" where
  "cell_text (VText s) = Inr s"
| "cell_text _ = Inl ErrScan"

fun cell_time :: "sqlval \<Rightarrow> err + timestamp" where
  "cell_time (VTime t) = Inr t"
| "cell_time _ = Inl ErrScan"

fun cell_json :: "sqlval \<Rightarrow> err + json" where
  "cell_json (VJson j) = Inr j"
| "cell_json _ = Inl ErrScan"

fun cell_text_opt :: "sqlval \<Rightarrow> err + string option" where
  "cell_text_opt (VText s) = Inr (Some s)"
| "cell_text_opt VNull = Inr None"
| "cell_text_opt _ = Inl ErrScan"

fun cell_json_opt :: "sqlval \<Rightarrow> err + json option" where
  "cell_json_opt (VJson j) = Inr (Some j)"
| "cell_json_opt VNull = Inr None"
| "cell_json_opt _ = Inl ErrScan"

text \<open>An \<open>INT\<close> column always fits a Go \<open>int\<close>.\<close>

fun cell_int4_opt :: "sqlval \<Rightarrow> err + int option" where
  "cell_int4_opt (VInt i) = Inr (Some i)"
| "cell_int4_opt VNull = Inr None"
| "cell_int4_opt _ = Inl ErrScan"

text \<open>A row into its variables: the number of columns must fit.\<close>

definition scan_cols :: "(sqlval list \<Rightarrow> (err + 'b)) \<Rightarrow> err + sqlval list \<Rightarrow> err + 'b" where
  "scan_cols f r = (case r of Inl e \<Rightarrow> Inl e | Inr row \<Rightarrow> f row)"

lemma scan_cols_simps [simp]:
  "scan_cols f (Inl e) = Inl e" "scan_cols f (Inr row) = f row"
  by (simp_all add: scan_cols_def)

definition scan_int :: "err + sqlval list \<Rightarrow> err + int64" where
  "scan_int = scan_cols (\<lambda>row. case row of [i] \<Rightarrow> cell_int i | _ \<Rightarrow> Inl ErrScan)"

definition scan_int_int :: "err + sqlval list \<Rightarrow> err + int64 \<times> int64" where
  "scan_int_int = scan_cols (\<lambda>row. case row of
     [i, j] \<Rightarrow> (case (cell_int i, cell_int j) of (Inr x, Inr y) \<Rightarrow> Inr (x, y) | _ \<Rightarrow> Inl ErrScan)
   | _ \<Rightarrow> Inl ErrScan)"

definition scan_bool :: "err + sqlval list \<Rightarrow> err + bool" where
  "scan_bool = scan_cols (\<lambda>row. case row of [b] \<Rightarrow> cell_bool b | _ \<Rightarrow> Inl ErrScan)"

definition scan_text_text :: "err + sqlval list \<Rightarrow> err + string \<times> string" where
  "scan_text_text = scan_cols (\<lambda>row. case row of
     [a, b] \<Rightarrow> (case (cell_text a, cell_text b) of (Inr x, Inr y) \<Rightarrow> Inr (x, y) | _ \<Rightarrow> Inl ErrScan)
   | _ \<Rightarrow> Inl ErrScan)"

definition scan_text_opt :: "err + sqlval list \<Rightarrow> err + string option" where
  "scan_text_opt = scan_cols (\<lambda>row. case row of [a] \<Rightarrow> cell_text_opt a | _ \<Rightarrow> Inl ErrScan)"

lemmas scan_defs [simp] = scan_int_def scan_int_int_def scan_bool_def scan_text_text_def
  scan_text_opt_def int64_of_def

lemma query_row_simps [simp]:
  "query_row (Inl e) = Inl e"
  "query_row (Inr []) = Inl ErrNoRows"
  "query_row (Inr (row # rows)) = Inr row"
  by (simp_all add: query_row_def)

text \<open>\<open>for rows.Next() { rows.Scan(...) }\<close>: the first row that does not fit ends the loop.\<close>

fun scan_rows :: "(err + sqlval list \<Rightarrow> err + 'b) \<Rightarrow> sqlval list list \<Rightarrow> err + 'b list" where
  "scan_rows f [] = Inr []"
| "scan_rows f (r # rs) =
     (case f (Inr r) of
        Inl e \<Rightarrow> Inl e
      | Inr x \<Rightarrow> (case scan_rows f rs of Inl e \<Rightarrow> Inl e | Inr xs \<Rightarrow> Inr (x # xs)))"

lemma scan_rows_map:
  "(\<And>r. r \<in> set rs \<Longrightarrow> f (Inr (enc r)) = Inr (dec r)) \<Longrightarrow> scan_rows f (map enc rs) = Inr (map dec rs)"
  by (induction rs) auto

end
