(* ===== verification/Sql.thy ===== *)
theory Sql
  imports Driver
begin

text \<open>
  What each SQL text of the source does to the tables, by the SQL standard's meaning of the text
  and the declared constraints of \<open>migrations/\<close>. A statement either is refused with a SQLSTATE
  code and changes nothing, or gives the number of rows affected, the rows returned and the new
  tables. What PostgreSQL picks by itself is an argument: the transaction time, the value of
  \<open>gen_random_uuid()\<close>, the next value of an identity sequence, the draw of \<open>random()\<close> and the
  outbox rows that other sessions hold locked.
\<close>

record env =
  e_now :: timestamp
  e_uuid :: uuid
  e_id :: int
  e_jitter :: int
  e_locked :: "uuid list"

type_synonym sql_result = "err + nat \<times> sqlval list list \<times> db"

text \<open>SQLSTATE codes.\<close>

abbreviation numeric_out_of_range :: err where "numeric_out_of_range \<equiv> PgError ''22003''"
abbreviation datetime_overflow :: err where "datetime_overflow \<equiv> PgError ''22008''"
abbreviation string_truncation :: err where "string_truncation \<equiv> PgError ''22001''"
abbreviation invalid_limit :: err where "invalid_limit \<equiv> PgError ''2201W''"
abbreviation foreign_key_violation :: err where "foreign_key_violation \<equiv> PgError ''23503''"
abbreviation unique_violation :: err where "unique_violation \<equiv> PgError ''23505''"
abbreviation check_violation :: err where "check_violation \<equiv> PgError ''23514''"

section \<open>Statements on accounts\<close>

text \<open>\<open>SET balance = b\<close>: the range of \<open>BIGINT\<close>, then \<open>CHECK (balance >= 0)\<close>.\<close>

definition set_balance :: "int \<Rightarrow> account_row \<Rightarrow> err + account_row" where
  "set_balance b a =
     (if \<not> bigint b then Inl numeric_out_of_range
      else if b < 0 then Inl check_violation
      else Inr (a\<lparr>acc_balance := b\<rparr>))"

definition update_accounts ::
  "(account_row \<Rightarrow> bool) \<Rightarrow> (account_row \<Rightarrow> err + account_row) \<Rightarrow> db \<Rightarrow> sql_result" where
  "update_accounts P f d =
     (case update_rows P f (accounts d) of
        Inl e \<Rightarrow> Inl e
      | Inr (n, as) \<Rightarrow> Inr (n, [], d\<lparr>accounts := as\<rparr>))"

definition sql_debit_if_funds :: "int64 \<Rightarrow> int64 \<Rightarrow> db \<Rightarrow> sql_result" where
  "sql_debit_if_funds amt i =
     update_accounts (\<lambda>a. acc_id a = sint i \<and> sint amt \<le> acc_balance a)
       (\<lambda>a. set_balance (acc_balance a - sint amt) a)"

definition sql_account_exists :: "int64 \<Rightarrow> db \<Rightarrow> sql_result" where
  "sql_account_exists i d = Inr (1, [[VBool (has_account (sint i) d)]], d)"

definition sql_select_balance_for_update :: "int64 \<Rightarrow> db \<Rightarrow> sql_result" where
  "sql_select_balance_for_update i d =
     (let rows = filter (\<lambda>a. acc_id a = sint i) (accounts d)
      in Inr (length rows, map (\<lambda>a. [VInt (acc_balance a)]) rows, d))"

definition sql_debit_by_id :: "int64 \<Rightarrow> int64 \<Rightarrow> db \<Rightarrow> sql_result" where
  "sql_debit_by_id amt i =
     update_accounts (\<lambda>a. acc_id a = sint i) (\<lambda>a. set_balance (acc_balance a - sint amt) a)"

definition sql_lock_pair :: "int64 \<Rightarrow> int64 \<Rightarrow> db \<Rightarrow> sql_result" where
  "sql_lock_pair lo hi d =
     (let rows = sort_key acc_id (filter (\<lambda>a. acc_id a = sint lo \<or> acc_id a = sint hi) (accounts d))
      in Inr (length rows, map (\<lambda>a. [VInt (acc_id a)]) rows, d))"

definition sql_select_balance_version :: "int64 \<Rightarrow> db \<Rightarrow> sql_result" where
  "sql_select_balance_version i d =
     (let rows = filter (\<lambda>a. acc_id a = sint i) (accounts d)
      in Inr (length rows, map (\<lambda>a. [VInt (acc_balance a), VInt (acc_version a)]) rows, d))"

definition sql_debit_if_version :: "int64 \<Rightarrow> int64 \<Rightarrow> int64 \<Rightarrow> db \<Rightarrow> sql_result" where
  "sql_debit_if_version amt i v =
     update_accounts (\<lambda>a. acc_id a = sint i \<and> acc_version a = sint v)
       (\<lambda>a. if \<not> bigint (acc_version a + 1) then Inl numeric_out_of_range
            else set_balance (acc_balance a - sint amt) (a\<lparr>acc_version := acc_version a + 1\<rparr>))"

definition sql_credit_by_id :: "int64 \<Rightarrow> int64 \<Rightarrow> db \<Rightarrow> sql_result" where
  "sql_credit_by_id amt i =
     update_accounts (\<lambda>a. acc_id a = sint i) (\<lambda>a. set_balance (acc_balance a + sint amt) a)"

text \<open>The join of two copies of \<open>accounts\<close>, one row per pair of matching accounts.\<close>

definition sql_select_currencies :: "int64 \<Rightarrow> int64 \<Rightarrow> db \<Rightarrow> sql_result" where
  "sql_select_currencies f t d =
     (let rows = [[VText (acc_currency a), VText (acc_currency b)].
                    a \<leftarrow> filter (\<lambda>a. acc_id a = sint f) (accounts d),
                    b \<leftarrow> filter (\<lambda>b. acc_id b = sint t) (accounts d)]
      in Inr (length rows, rows, d))"

definition sql_insert_account ::
  "env \<Rightarrow> string \<Rightarrow> string \<Rightarrow> string option \<Rightarrow> db \<Rightarrow> sql_result" where
  "sql_insert_account v name cur url d =
     (case char3 cur of
        None \<Rightarrow> Inl string_truncation
      | Some c \<Rightarrow>
          if has_account (e_id v) d then Inl unique_violation
          else
            (let a = \<lparr>acc_id = e_id v, acc_name = name, acc_currency = c, acc_balance = 0,
                      acc_version = 0, acc_created = e_now v, acc_webhook = url\<rparr>
             in Inr (1, [[VInt (acc_id a), VText name, VText c, VInt 0, VTime (e_now v)]],
                     d\<lparr>accounts := accounts d @ [a]\<rparr>)))"

definition sql_select_account :: "int64 \<Rightarrow> db \<Rightarrow> sql_result" where
  "sql_select_account i d =
     (let rows = filter (\<lambda>a. acc_id a = sint i) (accounts d)
      in Inr (length rows,
              map (\<lambda>a. [VInt (acc_id a), VText (acc_name a), VText (acc_currency a),
                        VInt (acc_balance a), VTime (acc_created a)]) rows, d))"

definition sql_update_webhook :: "string \<Rightarrow> int64 \<Rightarrow> db \<Rightarrow> sql_result" where
  "sql_update_webhook url i =
     update_accounts (\<lambda>a. acc_id a = sint i) (\<lambda>a. Inr (a\<lparr>acc_webhook := Some url\<rparr>))"

definition opt_text :: "string option \<Rightarrow> sqlval" where
  "opt_text s = (case s of None \<Rightarrow> VNull | Some t \<Rightarrow> VText t)"

definition sql_select_webhook :: "int64 \<Rightarrow> db \<Rightarrow> sql_result" where
  "sql_select_webhook i d =
     (let rows = filter (\<lambda>a. acc_id a = sint i) (accounts d)
      in Inr (length rows, map (\<lambda>a. [opt_text (acc_webhook a)]) rows, d))"

definition sql_set_balance :: "int64 \<Rightarrow> int64 \<Rightarrow> db \<Rightarrow> sql_result" where
  "sql_set_balance b i = update_accounts (\<lambda>a. acc_id a = sint i) (set_balance (sint b))"

section \<open>Statements on transfers and postings\<close>

text \<open>
  The checks of an inserted row come in PostgreSQL's order: the column types, the \<open>CHECK\<close>
  constraints, the unique indexes, then the foreign keys.
\<close>

definition sql_insert_transfer ::
  "env \<Rightarrow> uuid \<Rightarrow> string \<Rightarrow> int64 \<Rightarrow> string \<Rightarrow> int64 \<Rightarrow> int64 \<Rightarrow> db \<Rightarrow> sql_result" where
  "sql_insert_transfer v tid key amt cur f t d =
     (case char3 cur of
        None \<Rightarrow> Inl string_truncation
      | Some c \<Rightarrow>
          (let r = \<lparr>tr_id = tid, tr_key = key, tr_status = Posted, tr_amount = sint amt,
                    tr_currency = c, tr_from = sint f, tr_to = sint t, tr_created = e_now v\<rparr>
           in if \<not> transfer_row_ok r then Inl check_violation
              else if tid \<in> tr_id ` set (transfers d) \<or> key \<in> tr_key ` set (transfers d)
                then Inl unique_violation
              else if \<not> has_account (sint f) d \<or> \<not> has_account (sint t) d
                then Inl foreign_key_violation
              else Inr (1, [[VText tid, VText key, VText (transfer_status_text Posted),
                             VInt (sint amt), VText c, VInt (sint f), VInt (sint t),
                             VTime (e_now v)]],
                        d\<lparr>transfers := transfers d @ [r]\<rparr>)))"

definition sql_insert_postings ::
  "env \<Rightarrow> uuid \<Rightarrow> int64 \<Rightarrow> int64 \<Rightarrow> int64 \<Rightarrow> int64 \<Rightarrow> db \<Rightarrow> sql_result" where
  "sql_insert_postings v tid i1 amt1 i2 amt2 d =
     (let p1 = \<lparr>po_id = e_id v, po_transfer = tid, po_account = sint i1, po_amount = sint amt1,
                po_created = e_now v\<rparr>;
          p2 = \<lparr>po_id = e_id v + 1, po_transfer = tid, po_account = sint i2, po_amount = sint amt2,
                po_created = e_now v\<rparr>
      in if po_id p1 \<in> po_id ` set (postings d) \<or> po_id p2 \<in> po_id ` set (postings d)
           then Inl unique_violation
         else if tid \<notin> tr_id ` set (transfers d) \<or> \<not> has_account (sint i1) d \<or>
                 \<not> has_account (sint i2) d
           then Inl foreign_key_violation
         else Inr (2, [], d\<lparr>postings := postings d @ [p1, p2]\<rparr>))"

text \<open>\<open>WHERE account_id = $1 [AND id < $2] ORDER BY id DESC LIMIT $3\<close>\<close>

definition sql_select_postings :: "int64 \<Rightarrow> int64 option \<Rightarrow> int \<Rightarrow> db \<Rightarrow> sql_result" where
  "sql_select_postings i after lim d =
     (if lim < 0 then Inl invalid_limit
      else
        (let rows = take (nat lim) (rev (sort_key po_id (filter (\<lambda>p. po_account p = sint i \<and>
                      (case after of None \<Rightarrow> True | Some a \<Rightarrow> po_id p < sint a)) (postings d))))
         in Inr (length rows,
                 map (\<lambda>p. [VInt (po_id p), VText (po_transfer p), VInt (po_amount p),
                           VTime (po_created p)]) rows, d)))"

section \<open>Statements on idempotency keys\<close>

definition sql_insert_key :: "env \<Rightarrow> string \<Rightarrow> string \<Rightarrow> db \<Rightarrow> sql_result" where
  "sql_insert_key v key h d =
     (if key \<in> ik_key ` set (idem_keys d) then Inr (0, [], d)
      else Inr (1, [], d\<lparr>idem_keys := idem_keys d @
             [\<lparr>ik_key = key, ik_hash = h, ik_status = InProgress, ik_code = None, ik_body = None,
               ik_created = e_now v, ik_claimed = e_now v\<rparr>]\<rparr>))"

definition sql_select_key :: "string \<Rightarrow> db \<Rightarrow> sql_result" where
  "sql_select_key key d =
     (let rows = filter (\<lambda>r. ik_key r = key) (idem_keys d)
      in Inr (length rows,
              map (\<lambda>r. [VText (ik_hash r), VText (key_status_text (ik_status r)),
                        (case ik_code r of None \<Rightarrow> VNull | Some c \<Rightarrow> VInt c),
                        (case ik_body r of None \<Rightarrow> VNull | Some b \<Rightarrow> VJson b),
                        VTime (ik_claimed r)]) rows, d))"

definition update_keys ::
  "(key_row \<Rightarrow> bool) \<Rightarrow> (key_row \<Rightarrow> err + key_row) \<Rightarrow> db \<Rightarrow> sql_result" where
  "update_keys P f d =
     (case update_rows P f (idem_keys d) of
        Inl e \<Rightarrow> Inl e
      | Inr (n, ks) \<Rightarrow> Inr (n, [], d\<lparr>idem_keys := ks\<rparr>))"

definition sql_steal_key :: "env \<Rightarrow> string \<Rightarrow> string \<Rightarrow> int \<Rightarrow> db \<Rightarrow> sql_result" where
  "sql_steal_key v h key threshold =
     update_keys (\<lambda>r. ik_key r = key \<and> ik_status r = InProgress \<and> ik_claimed r < e_now v - threshold)
       (\<lambda>r. Inr (r\<lparr>ik_status := InProgress, ik_hash := h, ik_claimed := e_now v\<rparr>))"

definition sql_complete_key :: "int \<Rightarrow> json \<Rightarrow> string \<Rightarrow> db \<Rightarrow> sql_result" where
  "sql_complete_key code body key d =
     (if \<not> int4 code then Inl numeric_out_of_range
      else update_keys (\<lambda>r. ik_key r = key)
             (\<lambda>r. Inr (r\<lparr>ik_status := Done, ik_code := Some code, ik_body := Some body\<rparr>)) d)"

section \<open>Statements on the outbox\<close>

definition update_outbox ::
  "(outbox_row \<Rightarrow> bool) \<Rightarrow> (outbox_row \<Rightarrow> err + outbox_row) \<Rightarrow> db \<Rightarrow> sql_result" where
  "update_outbox P f d =
     (case update_rows P f (outbox d) of
        Inl e \<Rightarrow> Inl e
      | Inr (n, os) \<Rightarrow> Inr (n, [], d\<lparr>outbox := os\<rparr>))"

definition sql_insert_outbox ::
  "env \<Rightarrow> string \<Rightarrow> json \<Rightarrow> string option \<Rightarrow> db \<Rightarrow> sql_result" where
  "sql_insert_outbox v ty payload url d =
     (if e_uuid v \<in> ob_id ` set (outbox d) then Inl unique_violation
      else Inr (1, [], d\<lparr>outbox := outbox d @
             [\<lparr>ob_id = e_uuid v, ob_type = ty, ob_payload = payload, ob_target = url,
               ob_status = Pending, ob_attempts = 0, ob_next = None, ob_reason = None,
               ob_created = e_now v, ob_delivered = None\<rparr>]\<rparr>))"

text \<open>The \<open>WHERE\<close> clause of the claim: due rows that are pending, or in flight and abandoned.\<close>

definition deliverable :: "timestamp \<Rightarrow> outbox_row \<Rightarrow> bool" where
  "deliverable now r \<longleftrightarrow>
     (ob_status r = Pending \<and> (case ob_next r of None \<Rightarrow> True | Some t \<Rightarrow> t \<le> now)) \<or>
     (ob_status r = InFlight \<and> (case ob_next r of None \<Rightarrow> False | Some t \<Rightarrow> t \<le> now))"

text \<open>
  The rows to claim: \<open>ORDER BY created_at LIMIT $1 FOR UPDATE SKIP LOCKED\<close>. \<open>RETURNING\<close> yields
  the updated rows in no specified order; the model takes the order of the table.
\<close>

definition claimable :: "env \<Rightarrow> nat \<Rightarrow> outbox_row list \<Rightarrow> uuid list" where
  "claimable v lim os =
     take lim (map ob_id (sort_key ob_created
       (filter (\<lambda>r. deliverable (e_now v) r \<and> ob_id r \<notin> set (e_locked v)) os)))"

definition outbox_row_vals :: "outbox_row \<Rightarrow> sqlval list" where
  "outbox_row_vals r = [VText (ob_id r), VText (ob_type r), VJson (ob_payload r),
     opt_text (ob_target r), VText (outbox_status_text (ob_status r))]"

definition claim_row :: "env \<Rightarrow> int \<Rightarrow> outbox_row \<Rightarrow> outbox_row" where
  "claim_row v threshold r = r\<lparr>ob_status := InFlight, ob_next := Some (e_now v + threshold)\<rparr>"

definition sql_claim_events :: "env \<Rightarrow> int \<Rightarrow> int \<Rightarrow> db \<Rightarrow> sql_result" where
  "sql_claim_events v lim threshold d =
     (if lim < 0 then Inl invalid_limit
      else
        (let ids = claimable v (nat lim) (outbox d);
             rows = filter (\<lambda>r. ob_id r \<in> set ids) (outbox d)
         in Inr (length rows, map (\<lambda>r. outbox_row_vals (claim_row v threshold r)) rows,
                 d\<lparr>outbox := map (\<lambda>r. if ob_id r \<in> set ids then claim_row v threshold r else r)
                               (outbox d)\<rparr>)))"

definition sql_deliver_event :: "env \<Rightarrow> uuid \<Rightarrow> db \<Rightarrow> sql_result" where
  "sql_deliver_event v i =
     update_outbox (\<lambda>r. ob_id r = i)
       (\<lambda>r. Inr (r\<lparr>ob_status := Delivered, ob_delivered := Some (e_now v), ob_next := None\<rparr>))"

definition sql_kill_event :: "uuid \<Rightarrow> string \<Rightarrow> db \<Rightarrow> sql_result" where
  "sql_kill_event i reason =
     update_outbox (\<lambda>r. ob_id r = i)
       (\<lambda>r. if \<not> int4 (ob_attempts r + 1) then Inl numeric_out_of_range
            else Inr (r\<lparr>ob_status := DeadLetter, ob_reason := Some reason, ob_next := None,
                        ob_attempts := ob_attempts r + 1\<rparr>))"

text \<open>
  \<open>now() + interval '5 seconds' * power(2, attempt_count + 1) + random() * interval '5 seconds'\<close>,
  in microseconds; \<open>e_jitter\<close> is the last summand.
\<close>

definition backoff :: "env \<Rightarrow> int \<Rightarrow> timestamp" where
  "backoff v attempts = e_now v + 5000000 * 2 ^ nat attempts + e_jitter v"

definition sql_fail_event :: "env \<Rightarrow> uuid \<Rightarrow> string \<Rightarrow> int \<Rightarrow> db \<Rightarrow> sql_result" where
  "sql_fail_event v i reason max_retries =
     update_outbox (\<lambda>r. ob_id r = i)
       (\<lambda>r. let n = ob_attempts r + 1
            in if \<not> int4 n then Inl numeric_out_of_range
               else if max_retries \<le> n then
                 Inr (r\<lparr>ob_attempts := n, ob_reason := Some reason, ob_status := DeadLetter,
                        ob_next := None\<rparr>)
               else if \<not> bigint (backoff v n) then Inl datetime_overflow
               else Inr (r\<lparr>ob_attempts := n, ob_reason := Some reason, ob_status := Pending,
                           ob_next := Some (backoff v n)\<rparr>))"

text \<open>\<open>GROUP BY status\<close>: one row per status that occurs.\<close>

definition count_status :: "outbox_status \<Rightarrow> db \<Rightarrow> nat" where
  "count_status s d = length (filter (\<lambda>r. ob_status r = s) (outbox d))"

definition sql_count_by_status :: "db \<Rightarrow> sql_result" where
  "sql_count_by_status d =
     (let rows = [[VText (outbox_status_text s), VInt (int (count_status s d))].
                    s \<leftarrow> [Pending, InFlight, Delivered, DeadLetter], count_status s d > 0]
      in Inr (length rows, rows, d))"

section \<open>Statements of the reconciliation\<close>

text \<open>\<open>SUM\<close> of a \<open>BIGINT\<close> column is a \<open>NUMERIC\<close>: it does not overflow.\<close>

definition journal :: "db \<Rightarrow> int \<Rightarrow> int" where
  "journal d i = sum_where (\<lambda>p. po_account p = i) po_amount (postings d)"

definition sql_sum_postings :: "db \<Rightarrow> sql_result" where
  "sql_sum_postings d = Inr (1, [[VInt (sum_list (map po_amount (postings d)))]], d)"

definition sql_select_drift :: "db \<Rightarrow> sql_result" where
  "sql_select_drift d =
     (let rows = filter (\<lambda>a. acc_balance a \<noteq> journal d (acc_id a)) (accounts d)
      in Inr (length rows,
              map (\<lambda>a. [VInt (acc_id a), VInt (acc_balance a), VInt (journal d (acc_id a))]) rows, d))"

definition sql_count_negative :: "db \<Rightarrow> sql_result" where
  "sql_count_negative d =
     Inr (1, [[VInt (int (length (filter (\<lambda>a. acc_balance a < 0) (accounts d))))]], d)"

section \<open>Statements of the API's health check and of the test programs\<close>

text \<open>\<open>Ping\<close> sends an empty statement.\<close>

definition sql_ping :: "db \<Rightarrow> sql_result" where
  "sql_ping d = Inr (0, [], d)"

definition sql_select_seed_drift :: "int64 list \<Rightarrow> int64 \<Rightarrow> db \<Rightarrow> sql_result" where
  "sql_select_seed_drift ids seed d =
     (let rows = filter (\<lambda>a. acc_id a \<in> sint ` set ids \<and>
                    acc_balance a - journal d (acc_id a) \<noteq> sint seed) (accounts d)
      in Inr (length rows,
              map (\<lambda>a. [VInt (acc_id a), VInt (acc_balance a), VInt (journal d (acc_id a))]) rows, d))"

definition sql_count_negative_of :: "int64 list \<Rightarrow> db \<Rightarrow> sql_result" where
  "sql_count_negative_of ids d =
     Inr (1, [[VInt (int (length (filter (\<lambda>a. acc_id a \<in> sint ` set ids \<and> acc_balance a < 0)
                            (accounts d))))]], d)"

definition sql_delete_outbox :: "db \<Rightarrow> sql_result" where
  "sql_delete_outbox d = Inr (length (outbox d), [], d\<lparr>outbox := []\<rparr>)"

definition sql_count_unsettled :: "db \<Rightarrow> sql_result" where
  "sql_count_unsettled d =
     Inr (1, [[VInt (int (length (filter (\<lambda>r. ob_status r = Pending \<or> ob_status r = InFlight) (outbox d))))]], d)"

section \<open>Dispatch\<close>

primrec exec_stmt :: "env \<Rightarrow> stmt \<Rightarrow> db \<Rightarrow> sql_result" where
  "exec_stmt v (DebitIfFunds amt i) = sql_debit_if_funds amt i"
| "exec_stmt v (AccountExists i) = sql_account_exists i"
| "exec_stmt v (SelectBalanceForUpdate i) = sql_select_balance_for_update i"
| "exec_stmt v (DebitById amt i) = sql_debit_by_id amt i"
| "exec_stmt v (LockPair lo hi) = sql_lock_pair lo hi"
| "exec_stmt v (SelectBalanceVersion i) = sql_select_balance_version i"
| "exec_stmt v (DebitIfVersion amt i ver) = sql_debit_if_version amt i ver"
| "exec_stmt v (CreditById amt i) = sql_credit_by_id amt i"
| "exec_stmt v (SelectCurrencies f t) = sql_select_currencies f t"
| "exec_stmt v (InsertTransfer tid key amt cur f t) = sql_insert_transfer v tid key amt cur f t"
| "exec_stmt v (InsertPostings tid i1 a1 i2 a2) = sql_insert_postings v tid i1 a1 i2 a2"
| "exec_stmt v (InsertKey key h) = sql_insert_key v key h"
| "exec_stmt v (SelectKey key) = sql_select_key key"
| "exec_stmt v (StealKey h key threshold) = sql_steal_key v h key threshold"
| "exec_stmt v (CompleteKey code body key) = sql_complete_key code body key"
| "exec_stmt v (InsertAccount name cur url) = sql_insert_account v name cur url"
| "exec_stmt v (SelectAccount i) = sql_select_account i"
| "exec_stmt v (UpdateWebhook url i) = sql_update_webhook url i"
| "exec_stmt v (SelectWebhook i) = sql_select_webhook i"
| "exec_stmt v (SelectPostings i after lim) = sql_select_postings i after lim"
| "exec_stmt v (InsertOutbox ty payload url) = sql_insert_outbox v ty payload url"
| "exec_stmt v (ClaimEvents lim threshold) = sql_claim_events v lim threshold"
| "exec_stmt v (DeliverEvent i) = sql_deliver_event v i"
| "exec_stmt v (KillEvent i reason) = sql_kill_event i reason"
| "exec_stmt v (FailEvent i reason n) = sql_fail_event v i reason n"
| "exec_stmt v CountByStatus = sql_count_by_status"
| "exec_stmt v SumPostings = sql_sum_postings"
| "exec_stmt v SelectDrift = sql_select_drift"
| "exec_stmt v CountNegative = sql_count_negative"
| "exec_stmt v Ping = sql_ping"
| "exec_stmt v (SetBalance b i) = sql_set_balance b i"
| "exec_stmt v (SelectSeedDrift ids seed) = sql_select_seed_drift ids seed"
| "exec_stmt v (CountNegativeOf ids) = sql_count_negative_of ids"
| "exec_stmt v DeleteOutbox = sql_delete_outbox"
| "exec_stmt v CountUnsettled = sql_count_unsettled"

end
