(* ===== verification/Session.thy ===== *)
theory Session
  imports Sql
begin

text \<open>
  Running a Go function against a database session. The world holds the committed tables, the
  open transaction (its view of the tables, its \<open>now()\<close>, whether an error has aborted it), the
  identity sequences, the number of calls made so far and the HTTP requests sent. Everything that
  is not decided by the code or the tables comes from an \<open>environ\<close>, indexed by the number of the
  call: which calls fail and with what error, whether a call whose reply was lost took effect all
  the same, the clock, fresh UUIDs, the answers of the merchants. Theorems quantify over it.
\<close>

text \<open>The errors a failing call comes back with: the server's, or the driver's own.\<close>

datatype fault = PgFault string | DriverFault string

primrec fault_err :: "fault \<Rightarrow> err" where
  "fault_err (PgFault c) = PgError c"
| "fault_err (DriverFault m) = DriverErr m"

record environ =
  o_fault :: "nat \<Rightarrow> fault option"
  o_lost :: "nat \<Rightarrow> bool"
  o_clock :: "nat \<Rightarrow> timestamp"
  o_uuid :: "nat \<Rightarrow> uuid"
  o_jitter :: "nat \<Rightarrow> int"
  o_locked :: "nat \<Rightarrow> uuid list"
  o_skip :: "nat \<Rightarrow> nat"
  o_bad_url :: "string \<Rightarrow> string option"
  o_http :: "nat \<Rightarrow> string + nat"

text \<open>
  A call whose connection breaks may have been executed or not; a server that answers with an error
  has not executed it.
\<close>

definition reply_lost :: "environ \<Rightarrow> nat \<Rightarrow> bool" where
  "reply_lost orc n \<longleftrightarrow>
     o_lost orc n \<and> (case o_fault orc n of Some (DriverFault m) \<Rightarrow> True | _ \<Rightarrow> False)"

record txn =
  view :: db
  tx_now :: timestamp
  aborted :: bool

record world =
  tables :: db
  txn :: "txn option"
  acc_seq :: int
  post_seq :: int
  calls :: nat
  requests :: "(http_request \<times> (string + nat)) list"

section \<open>Single calls\<close>

definition tick :: "world \<Rightarrow> world" where
  "tick w = w\<lparr>calls := Suc (calls w)\<rparr>"

definition stmt_env :: "environ \<Rightarrow> timestamp \<Rightarrow> stmt \<Rightarrow> world \<Rightarrow> env" where
  "stmt_env orc now s w =
     \<lparr>e_now = now, e_uuid = o_uuid orc (calls w),
      e_id = (case s of InsertAccount _ _ _ \<Rightarrow> acc_seq w
              | _ \<Rightarrow> post_seq w + int (o_skip orc (calls w))),
      e_jitter = o_jitter orc (calls w), e_locked = o_locked orc (calls w)\<rparr>"

text \<open>
  Identity values are drawn from a sequence, which no rollback puts back; \<open>o_skip\<close> tells how many
  posting ids other sessions have drawn in the meantime.
\<close>

definition draw_ids :: "environ \<Rightarrow> stmt \<Rightarrow> world \<Rightarrow> world" where
  "draw_ids orc s w =
     (case s of
        InsertAccount _ _ _ \<Rightarrow> w\<lparr>acc_seq := acc_seq w + 1\<rparr>
      | InsertPostings _ _ _ _ _ \<Rightarrow> w\<lparr>post_seq := post_seq w + int (o_skip orc (calls w)) + 2\<rparr>
      | _ \<Rightarrow> w)"

text \<open>
  A statement in the open transaction sees the transaction's view and changes only it. An error
  aborts the transaction: until it ends, every statement is refused with \<open>25P02\<close>.
\<close>

definition call_tx :: "environ \<Rightarrow> stmt \<Rightarrow> world \<Rightarrow> (err + nat \<times> sqlval list list) \<times> world" where
  "call_tx orc s w =
     (case txn w of
        None \<Rightarrow> (Inl ErrTxClosed, tick w)
      | Some t \<Rightarrow>
          if aborted t then (Inl (PgError ''25P02''), tick w)
          else
            (case o_fault orc (calls w) of
               Some e \<Rightarrow> (Inl (fault_err e), tick (w\<lparr>txn := Some (t\<lparr>aborted := True\<rparr>)\<rparr>))
             | None \<Rightarrow>
                 (case exec_stmt (stmt_env orc (tx_now t) s w) s (view t) of
                    Inl e \<Rightarrow> (Inl e, tick (draw_ids orc s (w\<lparr>txn := Some (t\<lparr>aborted := True\<rparr>)\<rparr>)))
                  | Inr (n, rows, d) \<Rightarrow>
                      (Inr (n, rows), tick (draw_ids orc s (w\<lparr>txn := Some (t\<lparr>view := d\<rparr>)\<rparr>))))))"

text \<open>
  A statement on the pool is a transaction of its own. If the connection is lost, the statement
  may have been executed or not.
\<close>

definition call_pool :: "environ \<Rightarrow> stmt \<Rightarrow> world \<Rightarrow> (err + nat \<times> sqlval list list) \<times> world" where
  "call_pool orc s w =
     (case exec_stmt (stmt_env orc (o_clock orc (calls w)) s w) s (tables w) of
        Inl e \<Rightarrow> (Inl (case o_fault orc (calls w) of None \<Rightarrow> e | Some f \<Rightarrow> fault_err f), tick (draw_ids orc s w))
      | Inr (n, rows, d) \<Rightarrow>
          (case o_fault orc (calls w) of
             None \<Rightarrow> (Inr (n, rows), tick (draw_ids orc s (w\<lparr>tables := d\<rparr>)))
           | Some e \<Rightarrow>
               (Inl (fault_err e), tick (draw_ids orc s (if reply_lost orc (calls w) then w\<lparr>tables := d\<rparr> else w)))))"

definition call :: "environ \<Rightarrow> conn \<Rightarrow> stmt \<Rightarrow> world \<Rightarrow> (err + nat \<times> sqlval list list) \<times> world" where
  "call orc c s w = (case c of InTx \<Rightarrow> call_tx orc s w | Pool \<Rightarrow> call_pool orc s w)"

definition begin_tx :: "environ \<Rightarrow> world \<Rightarrow> err option \<times> world" where
  "begin_tx orc w =
     (case o_fault orc (calls w) of
        Some e \<Rightarrow> (Some (fault_err e), tick w)
      | None \<Rightarrow>
          (None, tick (w\<lparr>txn := Some \<lparr>view = tables w, tx_now = o_clock orc (calls w),
                                     aborted = False\<rparr>\<rparr>)))"

text \<open>\<open>COMMIT\<close> publishes the view. Its reply can be lost after the commit has happened.\<close>

definition commit_tx :: "environ \<Rightarrow> world \<Rightarrow> err option \<times> world" where
  "commit_tx orc w =
     (case txn w of
        None \<Rightarrow> (Some ErrTxClosed, tick w)
      | Some t \<Rightarrow>
          if aborted t then (Some ErrTxCommitRollback, tick (w\<lparr>txn := None\<rparr>))
          else
            (case o_fault orc (calls w) of
               None \<Rightarrow> (None, tick (w\<lparr>tables := view t, txn := None\<rparr>))
             | Some e \<Rightarrow>
                 (Some (fault_err e), tick (if reply_lost orc (calls w) then w\<lparr>tables := view t, txn := None\<rparr>
                                else w\<lparr>txn := None\<rparr>))))"

definition rollback_tx :: "world \<Rightarrow> world" where
  "rollback_tx w = tick (w\<lparr>txn := None\<rparr>)"

section \<open>Running a program\<close>

primrec run :: "environ \<Rightarrow> 'a prog \<Rightarrow> world \<Rightarrow> 'a \<times> world" where
  "run orc (Ret a) w = (a, w)"
| "run orc (BeginTx k) w = (case begin_tx orc w of (r, w') \<Rightarrow> run orc (k r) w')"
| "run orc (CommitTx k) w = (case commit_tx orc w of (r, w') \<Rightarrow> run orc (k r) w')"
| "run orc (RollbackTx p) w = run orc p (rollback_tx w)"
| "run orc (Exec c s k) w =
     (case call orc c s w of (r, w') \<Rightarrow> run orc (k (map_sum id fst r)) w')"
| "run orc (Query c s k) w =
     (case call orc c s w of (r, w') \<Rightarrow> run orc (k (map_sum id snd r)) w')"
| "run orc (NewUUID k) w = run orc (k (o_uuid orc (calls w))) (tick w)"
| "run orc (TimeNow k) w = run orc (k (o_clock orc (calls w))) (tick w)"
| "run orc (NewRequest u k) w = run orc (k (o_bad_url orc u)) (tick w)"
| "run orc (DoRequest q k) w =
     run orc (k (o_http orc (calls w)))
       (tick (w\<lparr>requests := requests w @ [(q, o_http orc (calls w))]\<rparr>))"
| "run orc (Sleep d p) w = run orc p (tick w)"

lemma run_bindp: "run orc (bindp p f) w = (case run orc p w of (a, w') \<Rightarrow> run orc (f a) w')"
  by (induction p arbitrary: w) (auto split: prod.splits)

lemma run_tryp:
  "run orc (tryp p f) w =
     (case run orc p w of (Inl e, w') \<Rightarrow> (Inl e, w') | (Inr a, w') \<Rightarrow> run orc (f a) w')"
  by (auto simp: tryp_def run_bindp split: prod.splits sum.splits)

section \<open>Errors of a call\<close>

text \<open>A statement fails with an error of the server or of the driver, never with a Go sentinel.\<close>

definition wire_err :: "err \<Rightarrow> bool" where
  "wire_err e \<longleftrightarrow> e = ErrTxClosed \<or> e \<in> range PgError \<or> e \<in> range DriverErr"

lemma wire_err_cases:
  assumes "wire_err e"
  obtains "e = ErrTxClosed" | c where "e = PgError c" | m where "e = DriverErr m"
  using assms by (auto simp: wire_err_def)

lemma wire_err_intros [simp]:
  "wire_err ErrTxClosed" "wire_err (PgError c)" "wire_err (DriverErr m)" "wire_err (fault_err f)"
  by (simp_all add: wire_err_def) (cases f; simp)

lemma wire_err_not_no_rows [simp]: "wire_err e \<Longrightarrow> \<not> errors_is e ErrNoRows"
  by (auto elim: wire_err_cases)

lemma update_rows_wire:
  "update_rows P f rs = Inl e \<Longrightarrow> (\<And>r e. f r = Inl e \<Longrightarrow> wire_err e) \<Longrightarrow> wire_err e"
  by (drule update_rows_Inl) auto

lemmas update_stmt_defs = update_accounts_def update_keys_def update_outbox_def set_balance_def
  sql_debit_if_funds_def sql_debit_by_id_def sql_debit_if_version_def sql_credit_by_id_def
  sql_update_webhook_def sql_set_balance_def sql_steal_key_def sql_complete_key_def
  sql_deliver_event_def sql_kill_event_def sql_fail_event_def

lemmas other_stmt_defs = sql_account_exists_def sql_select_balance_for_update_def
  sql_lock_pair_def sql_select_balance_version_def sql_select_currencies_def
  sql_insert_account_def sql_select_account_def sql_select_webhook_def sql_insert_transfer_def
  sql_insert_postings_def sql_select_postings_def sql_insert_key_def sql_select_key_def
  sql_insert_outbox_def sql_claim_events_def sql_count_by_status_def sql_sum_postings_def
  sql_select_drift_def sql_count_negative_def sql_ping_def sql_select_seed_drift_def
  sql_count_negative_of_def sql_delete_outbox_def sql_count_unsettled_def

lemma exec_stmt_wire: "exec_stmt v s d = Inl e \<Longrightarrow> wire_err e"
  by (cases s)
    (auto simp: update_stmt_defs other_stmt_defs Let_def
      split: sum.splits if_splits option.splits elim!: update_rows_wire)

lemma call_wire: "call orc c s w = (Inl e, w') \<Longrightarrow> wire_err e"
  by (auto simp: call_def call_tx_def call_pool_def dest!: exec_stmt_wire
      split: conn.splits option.splits if_splits sum.splits prod.splits)

lemma exec_wire: "run orc (exec c s) w = (Inl e, w') \<Longrightarrow> wire_err e"
proof -
  assume r: "run orc (exec c s) w = (Inl e, w')"
  obtain q w1 where q: "call orc c s w = (q, w1)" by fastforce
  with r show ?thesis by (cases q) (auto simp: exec_def dest: call_wire)
qed

lemma query_wire: "run orc (query c s) w = (Inl e, w') \<Longrightarrow> wire_err e"
proof -
  assume r: "run orc (query c s) w = (Inl e, w')"
  obtain q w1 where q: "call orc c s w = (q, w1)" by fastforce
  with r show ?thesis by (cases q) (auto simp: query_def dest: call_wire)
qed

section \<open>Programs confined to the open transaction\<close>

text \<open>
  A confined program neither opens nor ends a transaction, sends no statement on the pool and
  makes no HTTP request: until its caller commits, none of its effects is visible.
\<close>

primrec confined :: "'a prog \<Rightarrow> bool" where
  "confined (Ret a) = True"
| "confined (BeginTx k) = False"
| "confined (CommitTx k) = False"
| "confined (RollbackTx p) = False"
| "confined (Exec c s k) = (c = InTx \<and> (\<forall>r. confined (k r)))"
| "confined (Query c s k) = (c = InTx \<and> (\<forall>r. confined (k r)))"
| "confined (NewUUID k) = (\<forall>r. confined (k r))"
| "confined (TimeNow k) = (\<forall>r. confined (k r))"
| "confined (NewRequest u k) = (\<forall>r. confined (k r))"
| "confined (DoRequest q k) = False"
| "confined (Sleep d p) = confined p"

lemma confined_bindp: "confined p \<Longrightarrow> (\<And>a. confined (f a)) \<Longrightarrow> confined (bindp p f)"
  by (induction p) auto

lemma confined_tryp: "confined p \<Longrightarrow> (\<And>a. confined (f a)) \<Longrightarrow> confined (tryp p f)"
  unfolding tryp_def by (rule confined_bindp) (auto split: sum.splits)

lemma confined_prims [simp]:
  "confined (exec InTx s)" "confined (query InTx s)" "confined uuid_New" "confined time_Now"
  by (simp_all add: exec_def query_def uuid_New_def time_Now_def)

text \<open>What a confined program can change: the view, the sequence of postings, the call counter.\<close>

definition txn_frame :: "txn option \<Rightarrow> txn option \<Rightarrow> bool" where
  "txn_frame o1 o2 \<longleftrightarrow>
     rel_option (\<lambda>t t'. tx_now t' = tx_now t \<and> (aborted t \<longrightarrow> aborted t')) o1 o2"

lemma txn_frame_refl [simp]: "txn_frame o1 o1"
  by (cases o1) (simp_all add: txn_frame_def)

lemma txn_frame_trans: "txn_frame o1 o2 \<Longrightarrow> txn_frame o2 o3 \<Longrightarrow> txn_frame o1 o3"
  by (cases o1; cases o2; cases o3) (simp_all add: txn_frame_def)

definition tx_frame :: "world \<Rightarrow> world \<Rightarrow> bool" where
  "tx_frame w w' \<longleftrightarrow>
     tables w' = tables w \<and> requests w' = requests w \<and> calls w \<le> calls w' \<and>
     txn_frame (txn w) (txn w')"

lemma tx_frame_refl [simp]: "tx_frame w w"
  by (simp add: tx_frame_def)

lemma tx_frame_trans:
  assumes "tx_frame w w'" and "tx_frame w' w''"
  shows "tx_frame w w''"
proof -
  have "txn_frame (txn w) (txn w'')"
    using assms unfolding tx_frame_def by (blast intro: txn_frame_trans)
  moreover have "calls w \<le> calls w''"
    using assms unfolding tx_frame_def by (metis order_trans)
  moreover have "tables w'' = tables w" and "requests w'' = requests w"
    using assms unfolding tx_frame_def by metis+
  ultimately show ?thesis unfolding tx_frame_def by blast
qed

lemma tx_frame_tick: "tx_frame (tick w) w' \<Longrightarrow> tx_frame w w'"
  by (rule tx_frame_trans [rotated]) (auto simp: tx_frame_def tick_def)

lemma draw_ids_simps [simp]:
  "tables (draw_ids orc s w) = tables w" "txn (draw_ids orc s w) = txn w"
  "calls (draw_ids orc s w) = calls w" "requests (draw_ids orc s w) = requests w"
  by (cases s; simp add: draw_ids_def)+

lemma tick_simps [simp]:
  "tables (tick w) = tables w" "txn (tick w) = txn w" "calls (tick w) = Suc (calls w)"
  "requests (tick w) = requests w" "acc_seq (tick w) = acc_seq w" "post_seq (tick w) = post_seq w"
  by (simp_all add: tick_def)

lemma call_tx_frame: "call_tx orc s w = (r, w') \<Longrightarrow> tx_frame w w'"
  unfolding call_tx_def
  by (auto simp: tx_frame_def txn_frame_def split: option.splits if_splits sum.splits prod.splits)

lemma confined_frame: "confined p \<Longrightarrow> run orc p w = (a, w') \<Longrightarrow> tx_frame w w'"
proof (induction p arbitrary: w)
  case (Exec c s k)
  obtain r w1 where r: "call_tx orc s w = (r, w1)" by (cases "call_tx orc s w") auto
  with Exec.prems have "run orc (k (map_sum id fst r)) w1 = (a, w')" by (simp add: call_def)
  with Exec have "tx_frame w1 w'" by auto
  with r show ?case by (blast intro: tx_frame_trans call_tx_frame)
next
  case (Query c s k)
  obtain r w1 where r: "call_tx orc s w = (r, w1)" by (cases "call_tx orc s w") auto
  with Query.prems have "run orc (k (map_sum id snd r)) w1 = (a, w')" by (simp add: call_def)
  with Query have "tx_frame w1 w'" by auto
  with r show ?case by (blast intro: tx_frame_trans call_tx_frame)
next
  case (NewUUID k)
  then have "tx_frame (tick w) w'" by auto
  then show ?case by (rule tx_frame_tick)
next
  case (TimeNow k)
  then have "tx_frame (tick w) w'" by auto
  then show ?case by (rule tx_frame_tick)
next
  case (NewRequest u k)
  then have "tx_frame (tick w) w'" by auto
  then show ?case by (rule tx_frame_tick)
next
  case (Sleep d p)
  then have "tx_frame (tick w) w'" by auto
  then show ?case by (rule tx_frame_tick)
qed auto

end
