(* ===== verification/TxLogic.thy ===== *)
theory TxLogic
  imports Session
begin

text \<open>
  A small program logic for functions that run inside an open transaction. \<open>wp \<sigma> p now d P\<close> says:
  whatever an environment does that draws its UUIDs, sequence values and times from \<open>\<sigma>\<close>, running \<open>p\<close> in an open transaction with time \<open>now\<close> and view
  \<open>d\<close> either fails because a call was made to fail, or ends with an error \<open>e\<close> such that
  \<open>P (Inl e)\<close>, or ends with a result \<open>a\<close> and a view \<open>d'\<close> such that \<open>P (Inr (a, d'))\<close>. The
  rules follow the structure of the Go code: a statement, the idiom \<open>if err != nil\<close>, a call whose
  error is translated, a fresh UUID, a return.
\<close>

definition open_tx :: "world \<Rightarrow> txn \<Rightarrow> bool" where
  "open_tx w t \<longleftrightarrow> txn w = Some t \<and> \<not> aborted t"

definition some_fault :: "environ \<Rightarrow> world \<Rightarrow> world \<Rightarrow> bool" where
  "some_fault orc w w' \<longleftrightarrow> (\<exists>n. calls w \<le> n \<and> n < calls w' \<and> o_fault orc n \<noteq> None)"

definition no_faults :: "environ \<Rightarrow> bool" where
  "no_faults orc \<longleftrightarrow> (\<forall>n. o_fault orc n = None)"

lemma no_faults_some_fault: "no_faults orc \<Longrightarrow> \<not> some_fault orc w w'"
  by (simp add: no_faults_def some_fault_def)

section \<open>Counters never go back\<close>

definition later :: "world \<Rightarrow> world \<Rightarrow> bool" where
  "later w w' \<longleftrightarrow> calls w \<le> calls w' \<and> post_seq w \<le> post_seq w'"

lemma later_trans: "later w w1 \<Longrightarrow> later w1 w' \<Longrightarrow> later w w'"
  unfolding later_def by (meson order_trans)

lemma draw_ids_post_seq: "post_seq w \<le> post_seq (draw_ids orc s w)"
  by (cases s; simp add: draw_ids_def)

lemma call_later: "call orc c s w = (r, w') \<Longrightarrow> later w w'"
  unfolding later_def
  by (auto simp: call_def call_tx_def call_pool_def intro!: order_trans [OF _ draw_ids_post_seq]
      split: conn.splits option.splits if_splits sum.splits prod.splits)

lemma tx_calls_later:
  "begin_tx orc w = (r, w') \<Longrightarrow> later w w'" "commit_tx orc w = (r, w') \<Longrightarrow> later w w'"
  "later w (rollback_tx w)" "later w (tick w)"
  by (auto simp: later_def begin_tx_def commit_tx_def rollback_tx_def split: option.splits if_splits)

lemma later_tick: "later (tick w) w' \<Longrightarrow> later w w'"
  by (simp add: later_def)

lemma run_later: "run orc p w = (a, w') \<Longrightarrow> later w w'"
proof (induction p arbitrary: w)
  case (BeginTx k)
  obtain r w1 where r: "begin_tx orc w = (r, w1)" by fastforce
  with BeginTx have "later w1 w'" by auto
  with tx_calls_later(1) [OF r] show ?case by (rule later_trans)
next
  case (CommitTx k)
  obtain r w1 where r: "commit_tx orc w = (r, w1)" by fastforce
  with CommitTx have "later w1 w'" by auto
  with tx_calls_later(2) [OF r] show ?case by (rule later_trans)
next
  case (RollbackTx p)
  then have "later (rollback_tx w) w'" by simp
  with tx_calls_later(3) show ?case by (rule later_trans)
next
  case (Exec c s k)
  obtain r w1 where r: "call orc c s w = (r, w1)" by fastforce
  with Exec have "later w1 w'" by auto
  with call_later [OF r] show ?case by (rule later_trans)
next
  case (Query c s k)
  obtain r w1 where r: "call orc c s w = (r, w1)" by fastforce
  with Query have "later w1 w'" by auto
  with call_later [OF r] show ?case by (rule later_trans)
next
  case (NewUUID k)
  then have "later (tick w) w'" by (auto simp del: tick_simps)
  then show ?case by (rule later_tick)
next
  case (TimeNow k)
  then have "later (tick w) w'" by (auto simp del: tick_simps)
  then show ?case by (rule later_tick)
next
  case (NewRequest u k)
  then have "later (tick w) w'" by (auto simp del: tick_simps)
  then show ?case by (rule later_tick)
next
  case (DoRequest q k)
  then have "later (tick (w\<lparr>requests := requests w @ [(q, o_http orc (calls w))]\<rparr>)) w'"
    by (auto simp del: tick_simps)
  then show ?case by (simp add: later_def)
next
  case (Sleep d p)
  then have "later (tick w) w'" by (auto simp del: tick_simps)
  then show ?case by (rule later_tick)
qed (simp add: later_def)

lemma run_calls_mono: "run orc p w = (a, w') \<Longrightarrow> calls w \<le> calls w'"
  by (drule run_later) (simp add: later_def)

section \<open>Fresh values\<close>

text \<open>Where an environment takes its UUIDs, posting ids and times from.\<close>

record sources =
  uuids_of :: "uuid set"
  ids_from :: int
  times_of :: "timestamp set"

definition fits :: "sources \<Rightarrow> environ \<Rightarrow> world \<Rightarrow> bool" where
  "fits \<sigma> orc w \<longleftrightarrow>
     range (o_uuid orc) \<subseteq> uuids_of \<sigma> \<and> ids_from \<sigma> \<le> post_seq w \<and> range (o_clock orc) \<subseteq> times_of \<sigma>"

lemma fits_later: "fits \<sigma> orc w \<Longrightarrow> later w w' \<Longrightarrow> fits \<sigma> orc w'"
  by (auto simp: fits_def later_def)

definition env_fits :: "sources \<Rightarrow> stmt \<Rightarrow> env \<Rightarrow> bool" where
  "env_fits \<sigma> s v \<longleftrightarrow> e_uuid v \<in> uuids_of \<sigma> \<and>
     ((\<forall>name cur url. s \<noteq> InsertAccount name cur url) \<longrightarrow> ids_from \<sigma> \<le> e_id v)"

lemma stmt_env_fits: "fits \<sigma> orc w \<Longrightarrow> env_fits \<sigma> s (stmt_env orc now s w)"
  by (cases s; auto simp: fits_def env_fits_def stmt_env_def)

definition sources_of :: "environ \<Rightarrow> world \<Rightarrow> sources" where
  "sources_of orc w =
     \<lparr>uuids_of = range (o_uuid orc), ids_from = post_seq w, times_of = range (o_clock orc)\<rparr>"

lemma fits_sources_of: "fits (sources_of orc w) orc w"
  by (simp add: fits_def sources_of_def)

definition tx_outcome ::
  "environ \<Rightarrow> world \<Rightarrow> txn \<Rightarrow> err + 'a \<Rightarrow> world \<Rightarrow> (err + 'a \<times> db \<Rightarrow> bool) \<Rightarrow> bool" where
  "tx_outcome orc w t r w' P \<longleftrightarrow>
     (case r of
        Inl e \<Rightarrow> some_fault orc w w' \<or> P (Inl e)
      | Inr a \<Rightarrow> (\<exists>d. open_tx w' (t\<lparr>view := d\<rparr>) \<and> P (Inr (a, d))))"

lemma tx_outcome_Inr:
  "open_tx w' (t\<lparr>view := d\<rparr>) \<Longrightarrow> P (Inr (a, d)) \<Longrightarrow> tx_outcome orc w t (Inr a) w' P"
  unfolding tx_outcome_def sum.case by blast

definition wp ::
  "sources \<Rightarrow> (err + 'a) prog \<Rightarrow> timestamp \<Rightarrow> db \<Rightarrow> (err + 'a \<times> db \<Rightarrow> bool) \<Rightarrow> bool" where
  "wp \<sigma> p now d P \<longleftrightarrow>
     (\<forall>orc w t r w'. open_tx w t \<longrightarrow> fits \<sigma> orc w \<longrightarrow> tx_now t = now \<longrightarrow> view t = d \<longrightarrow> run orc p w = (r, w') \<longrightarrow>
        tx_outcome orc w t r w' P)"

lemma wpI:
  "(\<And>orc w t r w'. open_tx w t \<Longrightarrow> fits \<sigma> orc w \<Longrightarrow> tx_now t = now \<Longrightarrow> view t = d \<Longrightarrow> run orc p w = (r, w') \<Longrightarrow>
      tx_outcome orc w t r w' P) \<Longrightarrow> wp \<sigma> p now d P"
  by (auto simp: wp_def)

lemma wpD:
  "wp \<sigma> p (tx_now t) (view t) P \<Longrightarrow> open_tx w t \<Longrightarrow> fits \<sigma> orc w \<Longrightarrow> run orc p w = (r, w') \<Longrightarrow>
     tx_outcome orc w t r w' P"
  by (auto simp: wp_def)

lemma wp_Inr:
  "wp \<sigma> p (tx_now t) (view t) P \<Longrightarrow> open_tx w t \<Longrightarrow> fits \<sigma> orc w \<Longrightarrow> run orc p w = (Inr a, w') \<Longrightarrow>
     \<exists>d. open_tx w' (t\<lparr>view := d\<rparr>) \<and> P (Inr (a, d))"
  by (drule (3) wpD) (simp add: tx_outcome_def)

lemma wp_Inl:
  "wp \<sigma> p (tx_now t) (view t) P \<Longrightarrow> open_tx w t \<Longrightarrow> fits \<sigma> orc w \<Longrightarrow> run orc p w = (Inl e, w') \<Longrightarrow>
     some_fault orc w w' \<or> P (Inl e)"
  by (drule (3) wpD) (simp add: tx_outcome_def)

lemma wp_mono:
  assumes "wp \<sigma> p now d P" and "\<And>x. P x \<Longrightarrow> P' x"
  shows "wp \<sigma> p now d P'"
proof (rule wpI)
  fix orc w t r w'
  assume "open_tx w t" and "fits \<sigma> orc w" and "tx_now t = now" and "view t = d" and "run orc p w = (r, w')"
  then have "tx_outcome orc w t r w' P" using assms(1) by (auto intro: wpD)
  then show "tx_outcome orc w t r w' P'"
    using assms(2) by (auto simp: tx_outcome_def split: sum.splits)
qed

lemma wp_eq: "wp \<sigma> p now d (\<lambda>x. x = s) \<Longrightarrow> P s \<Longrightarrow> wp \<sigma> p now d P"
  by (erule wp_mono) simp

lemma some_fault_left:
  "some_fault orc w w1 \<Longrightarrow> calls w1 \<le> calls w' \<Longrightarrow> some_fault orc w w'"
  unfolding some_fault_def by (meson less_le_trans)

lemma some_fault_right:
  "some_fault orc w1 w' \<Longrightarrow> calls w \<le> calls w1 \<Longrightarrow> some_fault orc w w'"
  unfolding some_fault_def by (meson order_trans)

section \<open>Rules\<close>

lemma wp_Ret: "P (map_sum id (\<lambda>a. (a, d)) r) \<Longrightarrow> wp \<sigma> (Ret r) now d P"
proof (rule wpI)
  fix orc w t r' w'
  assume P: "P (map_sum id (\<lambda>a. (a, d)) r)"
    and "open_tx w t" and "fits \<sigma> orc w" and d: "view t = d" and "run orc (Ret r) w = (r', w')"
  then have o: "open_tx w' (t\<lparr>view := view t\<rparr>)" and r: "r' = r" by auto
  show "tx_outcome orc w t r' w' P"
  proof (cases r)
    case (Inl e)
    with P r show ?thesis by (simp add: tx_outcome_def)
  next
    case (Inr a)
    with P d have "P (Inr (a, view t))" by simp
    with o show ?thesis unfolding r Inr by (rule tx_outcome_Inr)
  qed
qed

text \<open>The outcome of one statement, with what \<open>g\<close> keeps of its count and rows.\<close>

definition stmt_outcome :: "env \<Rightarrow> stmt \<Rightarrow> db \<Rightarrow> (nat \<times> sqlval list list \<Rightarrow> 'a) \<Rightarrow> err + 'a \<times> db" where
  "stmt_outcome v s d g = map_sum id (\<lambda>(n, rows, d'). (g (n, rows), d')) (exec_stmt v s d)"

lemma call_tx_outcome:
  assumes o: "open_tx w t" and fit: "fits \<sigma> orc w" and c: "call_tx orc s w = (r, w')"
    and P: "\<And>v. e_now v = tx_now t \<Longrightarrow> env_fits \<sigma> s v \<Longrightarrow> P (stmt_outcome v s (view t) g)"
  shows "tx_outcome orc w t (map_sum id g r) w' P"
proof -
  have tx: "txn w = Some t" and ok: "\<not> aborted t" using o by (auto simp: open_tx_def)
  show ?thesis
  proof (cases "o_fault orc (calls w)")
    case (Some e)
    with c tx ok show ?thesis
      by (auto simp: call_tx_def tx_outcome_def some_fault_def intro!: exI [where x = "calls w"])
  next
    case None
    define v where "v = stmt_env orc (tx_now t) s w"
    have Pv: "P (stmt_outcome v s (view t) g)" by (rule P) (simp_all add: v_def stmt_env_def stmt_env_fits [OF fit, unfolded stmt_env_def])
    show ?thesis
    proof (cases "exec_stmt v s (view t)")
      case (Inl e)
      with c tx ok None have "r = Inl e" by (simp add: call_tx_def v_def)
      with Inl Pv show ?thesis by (simp add: tx_outcome_def stmt_outcome_def)
    next
      case (Inr q)
      obtain n rows d where q: "q = (n, rows, d)" by (cases q)
      with Inr c tx ok None
      have r: "r = Inr (n, rows)" and "txn w' = Some (t\<lparr>view := d\<rparr>)"
        by (auto simp: call_tx_def v_def)
      with ok have o': "open_tx w' (t\<lparr>view := d\<rparr>)" by (auto simp: open_tx_def)
      from Pv Inr q have "P (Inr (g (n, rows), d))" by (simp add: stmt_outcome_def)
      with o' show ?thesis unfolding r by (auto intro: tx_outcome_Inr)
    qed
  qed
qed

lemma wp_exec:
  assumes "\<And>v. e_now v = now \<Longrightarrow> env_fits \<sigma> s v \<Longrightarrow> P (stmt_outcome v s d fst)"
  shows "wp \<sigma> (exec InTx s) now d P"
proof (rule wpI)
  fix orc w t r w'
  assume o: "open_tx w t" and fit: "fits \<sigma> orc w" and t: "tx_now t = now" "view t = d"
    and "run orc (exec InTx s) w = (r, w')"
  then obtain q where q: "call_tx orc s w = (q, w')" and r: "r = map_sum id fst q"
    by (auto simp: exec_def call_def split: prod.splits)
  show "tx_outcome orc w t r w' P"
    unfolding r by (rule call_tx_outcome [OF o fit q]) (use assms t in simp)
qed

lemma wp_query:
  assumes "\<And>v. e_now v = now \<Longrightarrow> env_fits \<sigma> s v \<Longrightarrow> P (stmt_outcome v s d snd)"
  shows "wp \<sigma> (query InTx s) now d P"
proof (rule wpI)
  fix orc w t r w'
  assume o: "open_tx w t" and fit: "fits \<sigma> orc w" and t: "tx_now t = now" "view t = d"
    and "run orc (query InTx s) w = (r, w')"
  then obtain q where q: "call_tx orc s w = (q, w')" and r: "r = map_sum id snd q"
    by (auto simp: query_def call_def split: prod.splits)
  show "tx_outcome orc w t r w' P"
    unfolding r by (rule call_tx_outcome [OF o fit q]) (use assms t in simp)
qed

text \<open>Sequencing: an error of the first part is translated by \<open>g\<close> and returned.\<close>

lemma wp_bindp:
  assumes p: "wp \<sigma> p now d (\<lambda>x. case x of Inl e \<Rightarrow> P (Inl (g e))
                                     | Inr (a, d') \<Rightarrow> wp \<sigma> (f (Inr a)) now d' P)"
    and E: "\<And>orc w e w'. run orc p w = (Inl e, w') \<Longrightarrow> E e"
    and fe: "\<And>e. E e \<Longrightarrow> f (Inl e) = Ret (Inl (g e))"
  shows "wp \<sigma> (bindp p f) now d P"
proof (rule wpI)
  fix orc w t r w'
  assume o: "open_tx w t" and fit: "fits \<sigma> orc w" and t: "tx_now t = now" "view t = d"
    and b: "run orc (bindp p f) w = (r, w')"
  obtain r1 w1 where r1: "run orc p w = (r1, w1)" by fastforce
  with b have r: "run orc (f r1) w1 = (r, w')" by (simp add: run_bindp)
  note calls = run_calls_mono [OF r1] run_calls_mono [OF r]
  note fit1 = fits_later [OF fit run_later [OF r1]]
  note p' = p [folded t]
  show "tx_outcome orc w t r w' P"
  proof (cases r1)
    case (Inl e)
    with r1 E have "E e" by blast
    with r Inl fe have "r = Inl (g e)" and "w' = w1" by auto
    with wp_Inl [OF p' o fit] r1 Inl show ?thesis by (auto simp: tx_outcome_def)
  next
    case (Inr a)
    with r1 have "run orc p w = (Inr a, w1)" by simp
    from wp_Inr [OF p' o fit this] obtain d1 where d1: "open_tx w1 (t\<lparr>view := d1\<rparr>)"
      and f: "wp \<sigma> (f (Inr a)) (tx_now t) d1 P" by (auto simp: t)
    have "tx_outcome orc w1 (t\<lparr>view := d1\<rparr>) r w' P"
      by (rule wpD [OF _ d1 fit1]) (use f r Inr in simp_all)
    with calls show ?thesis
      by (auto simp: tx_outcome_def split: sum.splits dest: some_fault_right)
  qed
qed

lemma wp_tryp:
  assumes "wp \<sigma> p now d (\<lambda>x. case x of Inl e \<Rightarrow> P (Inl e) | Inr (a, d') \<Rightarrow> wp \<sigma> (f a) now d' P)"
  shows "wp \<sigma> (tryp p f) now d P"
  unfolding tryp_def
  by (rule wp_bindp [where g = id and E = "\<lambda>_. True"]) (use assms in \<open>simp_all cong: sum.case_cong\<close>)

lemma wp_bindp_exec:
  assumes "\<And>v. e_now v = now \<Longrightarrow> env_fits \<sigma> s v \<Longrightarrow>
      (case stmt_outcome v s d fst of
         Inl e \<Rightarrow> P (Inl (g e)) | Inr (n, d') \<Rightarrow> wp \<sigma> (f (Inr n)) now d' P)"
    and "\<And>e. wire_err e \<Longrightarrow> f (Inl e) = Ret (Inl (g e))"
  shows "wp \<sigma> (bindp (exec InTx s) f) now d P"
  by (rule wp_bindp [where g = g and E = wire_err], rule wp_exec) (use assms exec_wire in auto)

lemma wp_bindp_query:
  assumes "\<And>v. e_now v = now \<Longrightarrow> env_fits \<sigma> s v \<Longrightarrow>
      (case stmt_outcome v s d snd of
         Inl e \<Rightarrow> P (Inl (g e)) | Inr (rows, d') \<Rightarrow> wp \<sigma> (f (Inr rows)) now d' P)"
    and "\<And>e. wire_err e \<Longrightarrow> f (Inl e) = Ret (Inl (g e))"
  shows "wp \<sigma> (bindp (query InTx s) f) now d P"
  by (rule wp_bindp [where g = g and E = wire_err], rule wp_query) (use assms query_wire in auto)

lemma wp_uuid:
  assumes "\<And>u. u \<in> uuids_of \<sigma> \<Longrightarrow> wp \<sigma> (f u) now d P"
  shows "wp \<sigma> (bindp uuid_New f) now d P"
proof (rule wpI)
  fix orc w t r w'
  assume o: "open_tx w t" and fit: "fits \<sigma> orc w" and t: "tx_now t = now" "view t = d"
    and "run orc (bindp uuid_New f) w = (r, w')"
  then have r: "run orc (f (o_uuid orc (calls w))) (tick w) = (r, w')" by (simp add: uuid_New_def)
  moreover have "open_tx (tick w) t" using o by (simp add: open_tx_def)
  moreover have "fits \<sigma> orc (tick w)" by (rule fits_later [OF fit tx_calls_later(4)])
  ultimately have "tx_outcome orc (tick w) t r w' P"
    using assms [of "o_uuid orc (calls w)", folded t] t fit
    by (intro wpD) (auto simp: fits_def)
  then show "tx_outcome orc w t r w' P"
    by (auto simp: tx_outcome_def split: sum.splits dest: some_fault_right [where w = w])
qed

lemma wp_time:
  assumes "\<And>u. wp \<sigma> (f u) now d P"
  shows "wp \<sigma> (bindp time_Now f) now d P"
proof (rule wpI)
  fix orc w t r w'
  assume o: "open_tx w t" and fit: "fits \<sigma> orc w" and t: "tx_now t = now" "view t = d"
    and "run orc (bindp time_Now f) w = (r, w')"
  then have r: "run orc (f (o_clock orc (calls w))) (tick w) = (r, w')" by (simp add: time_Now_def)
  moreover have "open_tx (tick w) t" using o by (simp add: open_tx_def)
  moreover have "fits \<sigma> orc (tick w)" by (rule fits_later [OF fit tx_calls_later(4)])
  ultimately have "tx_outcome orc (tick w) t r w' P"
    using assms [of "o_clock orc (calls w)"] t by (auto intro: wpD)
  then show "tx_outcome orc w t r w' P"
    by (auto simp: tx_outcome_def split: sum.splits dest: some_fault_right [where w = w])
qed

end
