(* ===== verification/Store.thy ===== *)
theory Store
  imports TxLogic
begin

text \<open>
  \<open>internal/store\<close>: the queries on accounts and on the outbox, one definition per Go function.
  Functions that take a \<open>pgx.Tx\<close> send their statement in the open transaction, those that take
  the pool send it on the pool.
\<close>

section \<open>\<open>accounts.go\<close>\<close>

record posting =
  P_ID :: int64
  P_TransferID :: string
  P_Amount :: int64
  P_CreatedAt :: timestamp

record account =
  A_ID :: int64
  A_Name :: string
  A_Currency :: string
  A_Balance :: int64
  A_CreatedAt :: timestamp

definition scan_posting :: "err + sqlval list \<Rightarrow> err + posting" where
  "scan_posting = scan_cols (\<lambda>row. case row of
     [i, t, a, c] \<Rightarrow>
       (case (cell_int i, cell_text t, cell_int a, cell_time c) of
          (Inr i', Inr t', Inr a', Inr c') \<Rightarrow>
            Inr \<lparr>P_ID = i', P_TransferID = t', P_Amount = a', P_CreatedAt = c'\<rparr>
        | _ \<Rightarrow> Inl ErrScan)
   | _ \<Rightarrow> Inl ErrScan)"

definition GetPostings :: "int64 \<Rightarrow> int64 \<Rightarrow> int \<Rightarrow> (err + posting list) prog" where
  "GetPostings accountID afterID limit =
     tryp (query Pool (SelectPostings accountID
             (if 0 < sint afterID then Some afterID else None) limit))
       (\<lambda>rows. Ret (scan_rows scan_posting rows))"

definition scan_account :: "err + sqlval list \<Rightarrow> err + account" where
  "scan_account = scan_cols (\<lambda>row. case row of
     [i, n, c, b, t] \<Rightarrow>
       (case (cell_int i, cell_text n, cell_text c, cell_int b, cell_time t) of
          (Inr i', Inr n', Inr c', Inr b', Inr t') \<Rightarrow>
            Inr \<lparr>A_ID = i', A_Name = n', A_Currency = c', A_Balance = b', A_CreatedAt = t'\<rparr>
        | _ \<Rightarrow> Inl ErrScan)
   | _ \<Rightarrow> Inl ErrScan)"

definition CreateAccount :: "string \<Rightarrow> string \<Rightarrow> string option \<Rightarrow> (err + account) prog" where
  "CreateAccount name cur webhookURL =
     bindp (query Pool (InsertAccount name cur webhookURL))
       (\<lambda>r. Ret (scan_account (query_row r)))"

definition GetAccount :: "int64 \<Rightarrow> (err + account) prog" where
  "GetAccount i =
     bindp (query Pool (SelectAccount i))
       (\<lambda>r. case scan_account (query_row r) of
              Inl e \<Rightarrow> fail_with (if errors_is e ErrNoRows then ErrNotFound else e)
            | Inr a \<Rightarrow> return a)"

definition SetWebhookURL :: "int64 \<Rightarrow> string \<Rightarrow> (err + unit) prog" where
  "SetWebhookURL accountID url =
     tryp (exec Pool (UpdateWebhook url accountID)) (\<lambda>_. return ())"

definition GetWebhookURLInTx :: "int64 \<Rightarrow> (err + string option) prog" where
  "GetWebhookURLInTx accountID =
     bindp (query InTx (SelectWebhook accountID))
       (\<lambda>r. case scan_text_opt (query_row r) of
              Inl e \<Rightarrow> if errors_is e ErrNoRows then return None else fail_with e
            | Inr url \<Rightarrow> return url)"

section \<open>\<open>outbox.go\<close>\<close>

text \<open>30 seconds.\<close>

definition staleInFlightThreshold :: int where
  "staleInFlightThreshold = 30000000"

record outbox_event =
  E_ID :: uuid
  E_EventType :: string
  E_Payload :: json
  E_TargetURL :: "string option"
  E_Status :: string

definition InsertOutboxEventInTx :: "string \<Rightarrow> json \<Rightarrow> string option \<Rightarrow> (err + unit) prog" where
  "InsertOutboxEventInTx eventType payload targetURL =
     tryp (exec InTx (InsertOutbox eventType payload targetURL)) (\<lambda>_. return ())"

definition scan_event :: "err + sqlval list \<Rightarrow> err + outbox_event" where
  "scan_event = scan_cols (\<lambda>row. case row of
     [i, ty, p, u, st] \<Rightarrow>
       (case (cell_text i, cell_text ty, cell_json p, cell_text_opt u, cell_text st) of
          (Inr i', Inr ty', Inr p', Inr u', Inr st') \<Rightarrow>
            Inr \<lparr>E_ID = i', E_EventType = ty', E_Payload = p', E_TargetURL = u', E_Status = st'\<rparr>
        | _ \<Rightarrow> Inl ErrScan)
   | _ \<Rightarrow> Inl ErrScan)"

lemmas store_scan_defs [simp] = scan_posting_def scan_account_def scan_event_def

definition ClaimPendingEvents :: "int \<Rightarrow> (err + outbox_event list) prog" where
  "ClaimPendingEvents limit =
     tryp (query Pool (ClaimEvents limit staleInFlightThreshold))
       (\<lambda>rows. Ret (scan_rows scan_event rows))"

definition MarkDelivered :: "uuid \<Rightarrow> (err + unit) prog" where
  "MarkDelivered i = tryp (exec Pool (DeliverEvent i)) (\<lambda>_. return ())"

definition MarkDeadLetter :: "uuid \<Rightarrow> string \<Rightarrow> (err + unit) prog" where
  "MarkDeadLetter i reason = tryp (exec Pool (KillEvent i reason)) (\<lambda>_. return ())"

definition MarkFailed :: "uuid \<Rightarrow> string \<Rightarrow> int \<Rightarrow> (err + unit) prog" where
  "MarkFailed i reason maxRetries =
     tryp (exec Pool (FailEvent i reason maxRetries)) (\<lambda>_. return ())"

record outbox_metrics =
  M_Pending :: int
  M_InFlight :: int
  M_Delivered :: int
  M_DeadLetter :: int

text \<open>The \<open>rows.Next()\<close> loop: a later row of the same status would overwrite the count.\<close>

definition set_metric :: "string \<Rightarrow> int \<Rightarrow> outbox_metrics \<Rightarrow> outbox_metrics" where
  "set_metric status n m =
     (if status = ''pending'' then m\<lparr>M_Pending := n\<rparr>
      else if status = ''in_flight'' then m\<lparr>M_InFlight := n\<rparr>
      else if status = ''delivered'' then m\<lparr>M_Delivered := n\<rparr>
      else if status = ''dead_letter'' then m\<lparr>M_DeadLetter := n\<rparr>
      else m)"

definition scan_text_int :: "err + sqlval list \<Rightarrow> err + string \<times> int64" where
  "scan_text_int = scan_cols (\<lambda>row. case row of
     [s, n] \<Rightarrow> (case (cell_text s, cell_int n) of (Inr x, Inr y) \<Rightarrow> Inr (x, y) | _ \<Rightarrow> Inl ErrScan)
   | _ \<Rightarrow> Inl ErrScan)"

fun metrics_loop :: "sqlval list list \<Rightarrow> outbox_metrics \<Rightarrow> err + outbox_metrics" where
  "metrics_loop [] m = Inr m"
| "metrics_loop (row # rows) m =
     (case scan_text_int (Inr row) of
        Inl e \<Rightarrow> Inl e
      | Inr (status, n) \<Rightarrow> metrics_loop rows (set_metric status (sint n) m))"

definition GetOutboxMetrics :: "(err + outbox_metrics) prog" where
  "GetOutboxMetrics =
     tryp (query Pool CountByStatus)
       (\<lambda>rows. Ret (metrics_loop rows
          \<lparr>M_Pending = 0, M_InFlight = 0, M_Delivered = 0, M_DeadLetter = 0\<rparr>))"

section \<open>Behaviour inside a transaction\<close>

lemma confined_store [simp]:
  "confined (GetWebhookURLInTx i)" "confined (InsertOutboxEventInTx ty p u)"
  unfolding GetWebhookURLInTx_def InsertOutboxEventInTx_def
  by (auto intro!: confined_bindp confined_tryp split: sum.splits)

definition webhook_of :: "int \<Rightarrow> db \<Rightarrow> string option" where
  "webhook_of i d = (case find_account i d of None \<Rightarrow> None | Some a \<Rightarrow> acc_webhook a)"

text \<open>Primary keys are unique.\<close>

definition pk_ok :: "db \<Rightarrow> bool" where
  "pk_ok d \<longleftrightarrow> distinct (map acc_id (accounts d)) \<and> distinct (map ik_key (idem_keys d)) \<and>
     distinct (map ob_id (outbox d))"

lemma constraints_pk: "constraints_ok d \<Longrightarrow> pk_ok d"
  by (simp add: constraints_ok_def pk_ok_def)

lemma accounts_with_id:
  "pk_ok d \<Longrightarrow> filter (\<lambda>a. acc_id a = i) (accounts d) =
     (case find_account i d of None \<Rightarrow> [] | Some a \<Rightarrow> [a])"
  unfolding find_account_def by (rule filter_find_distinct) (simp add: pk_ok_def)

lemma keys_with_id:
  "pk_ok d \<Longrightarrow> filter (\<lambda>r. ik_key r = k) (idem_keys d) =
     (case find_key k d of None \<Rightarrow> [] | Some r \<Rightarrow> [r])"
  unfolding find_key_def by (rule filter_find_distinct) (simp add: pk_ok_def)

lemma wp_GetWebhookURLInTx:
  assumes "pk_ok d"
  shows "wp \<sigma> (GetWebhookURLInTx i) now d (\<lambda>x. x = Inr (webhook_of (sint i) d, d))"
  unfolding GetWebhookURLInTx_def
proof (rule wp_bindp_query [where g = "\<lambda>e. e"])
  fix v
  show "case stmt_outcome v (SelectWebhook i) d snd of
          Inl e \<Rightarrow> Inl e = Inr (webhook_of (sint i) d, d)
        | Inr (rows, d') \<Rightarrow> wp \<sigma> (case scan_text_opt (query_row (Inr rows)) of
              Inl e \<Rightarrow> if errors_is e ErrNoRows then return None else fail_with e
            | Inr url \<Rightarrow> return url) now d' (\<lambda>x. x = Inr (webhook_of (sint i) d, d))"
    by (auto simp: stmt_outcome_def sql_select_webhook_def accounts_with_id [OF assms] Let_def
        webhook_of_def opt_text_def intro!: wp_Ret split: option.splits)
qed auto

end
