(* ===== verification/Idempotency.thy ===== *)
theory Idempotency
  imports Store
begin

text \<open>
  \<open>internal/idempotency\<close>: claiming a key inside the transfer's transaction, replaying a stored
  response, completing a key. \<open>HashRequest\<close> works on bytes and is not needed here: the hash of the
  request comes with it.
\<close>

text \<open>30 seconds.\<close>

definition staleClaimThreshold :: int where
  "staleClaimThreshold = 30000000"

record stored_response =
  SR_Code :: int
  SR_Body :: "json option"

definition Complete :: "string \<Rightarrow> int \<Rightarrow> json \<Rightarrow> (err + unit) prog" where
  "Complete key code body =
     tryp (exec InTx (CompleteKey code body key)) (\<lambda>_. return ())"

definition scan_key ::
  "err + sqlval list \<Rightarrow> err + string \<times> string \<times> int option \<times> json option \<times> timestamp" where
  "scan_key = scan_cols (\<lambda>row. case row of
     [h, st, code, body, claimed] \<Rightarrow>
       (case (cell_text h, cell_text st, cell_int4_opt code, cell_json_opt body, cell_time claimed) of
          (Inr h', Inr st', Inr code', Inr body', Inr claimed') \<Rightarrow>
            Inr (h', st', code', body', claimed')
        | _ \<Rightarrow> Inl ErrScan)
   | _ \<Rightarrow> Inl ErrScan)"

text \<open>The second half of \<open>ClaimInTx\<close>: the row already existed, read it to determine what to do.\<close>

definition claim_existing :: "string \<Rightarrow> string \<Rightarrow> (err + bool \<times> stored_response option) prog" where
  "claim_existing key requestHash =
     tryp (bindp (query InTx (SelectKey key)) (\<lambda>q. Ret (scan_key (query_row q))))
       (\<lambda>(existingHash, status, respCode, respBody, claimedAt).
         if existingHash \<noteq> requestHash then fail_with ErrDuplicateRequest
         else if status = ''in_progress'' then
           bindp time_Now (\<lambda>now.
             if staleClaimThreshold < now - claimedAt then
               tryp (exec InTx (StealKey requestHash key staleClaimThreshold))
                 (\<lambda>stolen. if stolen = 1 then return (True, None) else fail_with ErrInProgress)
             else fail_with ErrInProgress)
         else
           (case respCode of
              None \<Rightarrow> fail_with (NewErr
                ''idempotency key is done but response_code is NULL: data corruption'')
            | Some c \<Rightarrow> return (False, Some \<lparr>SR_Code = c, SR_Body = respBody\<rparr>)))"

definition ClaimInTx :: "string \<Rightarrow> string \<Rightarrow> (err + bool \<times> stored_response option) prog" where
  "ClaimInTx key requestHash =
     bindp (exec InTx (InsertKey key requestHash)) (\<lambda>r. case r of
       Inl e \<Rightarrow> fail_with (case errors_as_pg e of
                            Some _ \<Rightarrow> Wrapped ''idempotency insert'' e
                          | None \<Rightarrow> e)
     | Inr n \<Rightarrow> if n = 1 then return (True, None) else claim_existing key requestHash)"

lemma confined_idempotency [simp]:
  "confined (Complete key code body)" "confined (ClaimInTx key h)"
  unfolding Complete_def ClaimInTx_def claim_existing_def
  by (auto intro!: confined_bindp confined_tryp split: sum.splits option.splits)

section \<open>What a claim and a completion do to the keys\<close>

definition new_key :: "string \<Rightarrow> string \<Rightarrow> timestamp \<Rightarrow> key_row" where
  "new_key key h now =
     \<lparr>ik_key = key, ik_hash = h, ik_status = InProgress, ik_code = None, ik_body = None,
      ik_created = now, ik_claimed = now\<rparr>"

definition steal_key :: "string \<Rightarrow> string \<Rightarrow> timestamp \<Rightarrow> db \<Rightarrow> db" where
  "steal_key key h now d = d\<lparr>idem_keys :=
     map (\<lambda>r. if ik_key r = key then r\<lparr>ik_status := InProgress, ik_hash := h, ik_claimed := now\<rparr>
              else r) (idem_keys d)\<rparr>"

definition finish_key :: "string \<Rightarrow> int \<Rightarrow> json \<Rightarrow> db \<Rightarrow> db" where
  "finish_key key code body d = d\<lparr>idem_keys :=
     map (\<lambda>r. if ik_key r = key then r\<lparr>ik_status := Done, ik_code := Some code, ik_body := Some body\<rparr>
              else r) (idem_keys d)\<rparr>"

text \<open>
  The contract of a claim: a new key is inserted and won; a key with another hash is refused; a key
  in progress is refused, unless its claim is stale and is taken over; a done key is replayed.
\<close>

definition claim_post ::
  "string \<Rightarrow> string \<Rightarrow> timestamp \<Rightarrow> db \<Rightarrow> err + (bool \<times> stored_response option) \<times> db \<Rightarrow> bool" where
  "claim_post key h now d x \<longleftrightarrow>
     (case find_key key d of
        None \<Rightarrow> x = Inr ((True, None), d\<lparr>idem_keys := idem_keys d @ [new_key key h now]\<rparr>)
      | Some r \<Rightarrow>
          if ik_hash r \<noteq> h then x = Inl ErrDuplicateRequest
          else if ik_status r = InProgress then
            x = Inl ErrInProgress \<or>
            (ik_claimed r < now - staleClaimThreshold \<and> x = Inr ((True, None), steal_key key h now d))
          else
            (case ik_code r of
               None \<Rightarrow> (\<exists>m. x = Inl (NewErr m))
             | Some c \<Rightarrow> x = Inr ((False, Some \<lparr>SR_Code = c, SR_Body = ik_body r\<rparr>), d)))"

lemma key_status_text_eq [simp]:
  "key_status_text s = ''in_progress'' \<longleftrightarrow> s = InProgress"
  by (cases s) auto

lemma insert_key_outcome:
  "stmt_outcome v (InsertKey key h) d fst =
     (case find_key key d of
        None \<Rightarrow> Inr (1, d\<lparr>idem_keys := idem_keys d @ [new_key key h (e_now v)]\<rparr>)
      | Some r \<Rightarrow> Inr (0, d))"
  by (auto simp: stmt_outcome_def sql_insert_key_def new_key_def find_key_None split: option.splits
      dest: find_key_Some)

lemma select_key_outcome:
  assumes "pk_ok d" and "find_key key d = Some r"
  shows "stmt_outcome v (SelectKey key) d snd =
     Inr ([[VText (ik_hash r), VText (key_status_text (ik_status r)),
            (case ik_code r of None \<Rightarrow> VNull | Some c \<Rightarrow> VInt c),
            (case ik_body r of None \<Rightarrow> VNull | Some b \<Rightarrow> VJson b), VTime (ik_claimed r)]], d)"
  using assms by (simp add: stmt_outcome_def sql_select_key_def keys_with_id)

lemma update_keys_by_id:
  assumes "pk_ok d" and "find_key key d = Some r"
  shows "update_keys (\<lambda>r. ik_key r = key \<and> Q r) (\<lambda>r. Inr (f r)) d =
    (if Q r then Inr (1, [], d\<lparr>idem_keys := map (\<lambda>r. if ik_key r = key then f r else r) (idem_keys d)\<rparr>)
     else Inr (0, [], d))"
proof -
  let ?P = "\<lambda>r. ik_key r = key \<and> Q r"
  have u: "update_rows ?P (\<lambda>r. Inr (f r)) (idem_keys d) =
      (Inr (length (filter ?P (idem_keys d)), map (\<lambda>r. if ?P r then f r else r) (idem_keys d)) :: err + _)"
    by (rule update_rows_total) simp
  have only: "x = r" if "x \<in> set (idem_keys d)" and "ik_key x = key" for x
  proof -
    have "x \<in> set (filter (\<lambda>r. ik_key r = key) (idem_keys d))" using that by simp
    then show ?thesis using keys_with_id [OF assms(1), of key] assms(2) by simp
  qed
  have f: "filter ?P (idem_keys d) = (if Q r then [r] else [])"
  proof -
    have "filter ?P (idem_keys d) = filter Q (filter (\<lambda>r. ik_key r = key) (idem_keys d))"
      by (simp add: conj_commute)
    then show ?thesis using keys_with_id [OF assms(1), of key] assms(2) by simp
  qed
  have m: "map (\<lambda>r. if ?P r then f r else r) (idem_keys d) =
      (if Q r then map (\<lambda>r. if ik_key r = key then f r else r) (idem_keys d) else idem_keys d)"
    using only by (auto intro!: map_idI cong: map_cong)
  show ?thesis unfolding update_keys_def u using f m by auto
qed

lemma steal_key_outcome:
  assumes "pk_ok d" and "find_key key d = Some r" and "ik_status r = InProgress"
  shows "stmt_outcome v (StealKey h key threshold) d fst =
    (if ik_claimed r < e_now v - threshold then Inr (1, steal_key key h (e_now v) d) else Inr (0, d))"
  using update_keys_by_id [OF assms(1,2), of
      "\<lambda>r. ik_status r = InProgress \<and> ik_claimed r < e_now v - threshold"
      "\<lambda>r. r\<lparr>ik_status := InProgress, ik_hash := h, ik_claimed := e_now v\<rparr>"] assms(3)
  by (simp add: stmt_outcome_def sql_steal_key_def steal_key_def)

lemma wp_claim_existing:
  assumes pk: "pk_ok d" and r: "find_key key d = Some r"
  shows "wp \<sigma> (claim_existing key h) now d (claim_post key h now d)"
  unfolding claim_existing_def
  by (rule wp_tryp, rule wp_bindp_query [where g = "\<lambda>e. e"])
    (auto simp: scan_key_def select_key_outcome [OF pk r] steal_key_outcome [OF pk r] claim_post_def r
      intro!: wp_Ret wp_time wp_tryp wp_exec split: option.splits)

lemma wp_ClaimInTx:
  assumes pk: "pk_ok d"
  shows "wp \<sigma> (ClaimInTx key h) now d (claim_post key h now d)"
  unfolding ClaimInTx_def
  by (rule wp_bindp_exec)
    (auto simp: insert_key_outcome claim_post_def intro!: wp_Ret
      wp_claim_existing [OF pk, unfolded claim_post_def, THEN wp_mono] split: option.splits)

lemma wp_Complete:
  assumes "int4 code"
  shows "wp \<sigma> (Complete key code body) now d (\<lambda>x. x = Inr ((), finish_key key code body d))"
  unfolding Complete_def
proof (rule wp_tryp, rule wp_exec)
  fix v
  have "update_rows (\<lambda>r. ik_key r = key)
      (\<lambda>r. Inr (r\<lparr>ik_status := Done, ik_code := Some code, ik_body := Some body\<rparr>)) (idem_keys d) =
    (Inr (length (filter (\<lambda>r. ik_key r = key) (idem_keys d)), idem_keys (finish_key key code body d)) :: err + _)"
    unfolding finish_key_def by (simp add: update_rows_total)
  then show "case stmt_outcome v (CompleteKey code body key) d fst of
          Inl e \<Rightarrow> Inl e = Inr ((), finish_key key code body d)
        | Inr (n, d') \<Rightarrow> wp \<sigma> (return ()) now d' (\<lambda>x. x = Inr ((), finish_key key code body d))"
    using assms
    by (auto simp: stmt_outcome_def sql_complete_key_def update_keys_def finish_key_def intro!: wp_Ret)
qed

end
