(* ===== verification/Debit.thy ===== *)
theory Debit
  imports Idempotency
begin

text \<open>
  The strategy hook of \<open>internal/ledger/strategies.go\<close>: the two functions of type \<open>debitFn\<close> and
  the contract the ledger relies on, as the locale \<open>debit_strategy\<close>. Both strategies meet the
  same contract, so they are interchangeable in a transaction that has the accounts to itself.
\<close>

definition isRetriableConflict :: "err \<Rightarrow> bool" where
  "isRetriableConflict e =
     (case errors_as_pg e of
        Some c \<Rightarrow> c = ''40P01'' \<or> c = ''40001''
      | None \<Rightarrow> False)"

section \<open>The two strategies\<close>

definition debitConditionalUpdate :: "int64 \<Rightarrow> int64 \<Rightarrow> (err + unit) prog" where
  "debitConditionalUpdate fromAccount amount =
     tryp (exec InTx (DebitIfFunds amount fromAccount)) (\<lambda>n.
       if n = 0 then
         tryp (bindp (query InTx (AccountExists fromAccount)) (\<lambda>q. Ret (scan_bool (query_row q))))
           (\<lambda>exists. if \<not> exists then fail_with ErrAccountNotFound
                    else fail_with ErrInsufficientFunds)
       else return ())"

definition debitSelectForUpdate :: "int64 \<Rightarrow> int64 \<Rightarrow> (err + unit) prog" where
  "debitSelectForUpdate fromAccount amount =
     bindp (query InTx (SelectBalanceForUpdate fromAccount)) (\<lambda>q.
       case scan_int (query_row q) of
         Inl e \<Rightarrow> if errors_is e ErrNoRows then fail_with ErrAccountNotFound else fail_with e
       | Inr balance \<Rightarrow>
           if sint balance < sint amount then fail_with ErrInsufficientFunds
           else tryp (exec InTx (DebitById amount fromAccount)) (\<lambda>_. return ()))"

section \<open>Reference semantics\<close>

text \<open>Every account row satisfies its constraints, and primary keys are unique.\<close>

definition rows_ok :: "db \<Rightarrow> bool" where
  "rows_ok d \<longleftrightarrow> pk_ok d \<and> (\<forall>a \<in> set (accounts d). account_row_ok a)"

lemma constraints_rows: "constraints_ok d \<Longrightarrow> rows_ok d"
  by (simp add: rows_ok_def constraints_pk) (simp add: constraints_ok_def)

lemma rows_ok_pk [intro]: "rows_ok d \<Longrightarrow> pk_ok d"
  by (simp add: rows_ok_def)

lemma rows_ok_find: "rows_ok d \<Longrightarrow> find_account i d = Some a \<Longrightarrow> account_row_ok a"
  by (auto simp: rows_ok_def dest: find_account_Some)

text \<open>Replacing the row of an account.\<close>

definition put_account :: "account_row \<Rightarrow> db \<Rightarrow> db" where
  "put_account a d =
     d\<lparr>accounts := map (\<lambda>b. if acc_id b = acc_id a then a else b) (accounts d)\<rparr>"

definition change_balance :: "int \<Rightarrow> account_row \<Rightarrow> db \<Rightarrow> err + unit \<times> db" where
  "change_balance b a d =
     (case set_balance b a of Inl e \<Rightarrow> Inl e | Inr a' \<Rightarrow> Inr ((), put_account a' d))"

definition debit_spec :: "int64 \<Rightarrow> int64 \<Rightarrow> db \<Rightarrow> err + unit \<times> db" where
  "debit_spec amt i d =
     (case find_account (sint i) d of
        None \<Rightarrow> Inl ErrAccountNotFound
      | Some a \<Rightarrow>
          if acc_balance a < sint amt then Inl ErrInsufficientFunds
          else change_balance (acc_balance a - sint amt) a d)"

definition credit_spec :: "int64 \<Rightarrow> int64 \<Rightarrow> db \<Rightarrow> err + unit \<times> db" where
  "credit_spec amt i d =
     (case find_account (sint i) d of
        None \<Rightarrow> Inl ErrAccountNotFound
      | Some a \<Rightarrow> change_balance (acc_balance a + sint amt) a d)"

lemma update_accounts_by_id:
  assumes pk: "pk_ok d" and a: "find_account i d = Some a"
    and id: "\<And>b b'. f b = Inr b' \<Longrightarrow> acc_id b' = acc_id b"
  shows "update_accounts (\<lambda>b. acc_id b = i \<and> Q b) f d =
    (if Q a then (case f a of Inl e \<Rightarrow> Inl e | Inr a' \<Rightarrow> Inr (1, [], put_account a' d))
     else Inr (0, [], d))"
proof -
  have mem: "a \<in> set (accounts d)" and ida: "acc_id a = i" using find_account_Some [OF a] by auto
  have only: "b = a" if "b \<in> set (accounts d)" and "acc_id b = i" for b
    using that accounts_with_id [OF pk, of i] a
    by (metis (mono_tags, lifting) filter_set Set.filter_eq mem_Collect_eq option.simps(5) empty_iff set_ConsD set_empty2)
  show ?thesis
  proof (cases "Q a")
    case False
    then have "update_rows (\<lambda>b. acc_id b = i \<and> Q b) f (accounts d) = Inr (0, accounts d)"
      using only by (intro update_rows_none) auto
    with False show ?thesis by (simp add: update_accounts_def)
  next
    case True
    have P: "(\<lambda>b. acc_id b = i \<and> Q b) b = (b = a)" if "b \<in> set (accounts d)" for b
      using only that True ida by auto
    show ?thesis
    proof (cases "f a")
      case (Inl e)
      have "\<exists>e'. update_rows (\<lambda>b. acc_id b = i \<and> Q b) f (accounts d) = Inl e'"
        using update_rows_Inr [of "\<lambda>b. acc_id b = i \<and> Q b" f "accounts d"] mem True ida Inl
        by (cases "update_rows (\<lambda>b. acc_id b = i \<and> Q b) f (accounts d)") (auto, metis Inl_Inr_False)
      then obtain e' where e': "update_rows (\<lambda>b. acc_id b = i \<and> Q b) f (accounts d) = Inl e'" ..
      from update_rows_Inl [OF this] P Inl have "e' = e" by auto
      with e' True Inl show ?thesis by (simp add: update_accounts_def)
    next
      case (Inr a')
      have "update_rows (\<lambda>b. acc_id b = i \<and> Q b) f (accounts d) =
          Inr (length (filter (\<lambda>b. acc_id b = i \<and> Q b) (accounts d)),
               map (\<lambda>b. if acc_id b = i \<and> Q b then a' else b) (accounts d))"
        by (rule update_rows_total) (use only Inr in auto)
      moreover have "filter (\<lambda>b. acc_id b = i \<and> Q b) (accounts d) = [a]"
        using True pk mem ida by (intro filter_unique_and [where g = acc_id]) (auto simp: pk_ok_def)
      moreover have "map (\<lambda>b. if acc_id b = i \<and> Q b then a' else b) (accounts d) =
          map (\<lambda>b. if acc_id b = acc_id a' then a' else b) (accounts d)"
        using only True ida id [OF Inr] by (intro map_cong) auto
      ultimately show ?thesis using True Inr by (simp add: update_accounts_def put_account_def)
    qed
  qed
qed

lemma update_accounts_missing:
  "find_account i d = None \<Longrightarrow> update_accounts (\<lambda>b. acc_id b = i \<and> Q b) f d = Inr (0, [], d)"
  unfolding update_accounts_def
  by (subst update_rows_none) (auto simp: find_account_None has_account_def)

section \<open>The contract and its two providers\<close>

text \<open>
  What \<open>execTxWithDebit\<close> relies on: the debit stays inside the transaction, and it does what
  \<open>debit_spec\<close> says, errors included.
\<close>

locale debit_strategy =
  fixes debit :: "int64 \<Rightarrow> int64 \<Rightarrow> (err + unit) prog"
  assumes confined_debit: "confined (debit i amt)"
    and wp_debit: "rows_ok d \<Longrightarrow> wp \<sigma> (debit i amt) now d (\<lambda>x. x = debit_spec amt i d)"

lemma set_balance_id: "set_balance b a = Inr a' \<Longrightarrow> acc_id a' = acc_id a"
  by (auto simp: set_balance_def split: if_splits)

lemma debit_if_funds_outcome:
  assumes "rows_ok d"
  shows "stmt_outcome v (DebitIfFunds amt i) d fst =
    (case find_account (sint i) d of
       None \<Rightarrow> Inr (0, d)
     | Some a \<Rightarrow>
         if acc_balance a < sint amt then Inr (0, d)
         else map_sum id (\<lambda>(u, d'). (1, d')) (change_balance (acc_balance a - sint amt) a d))"
proof (cases "find_account (sint i) d")
  case None
  then show ?thesis
    by (simp add: stmt_outcome_def sql_debit_if_funds_def update_accounts_missing)
next
  case (Some a)
  have "update_accounts (\<lambda>b. acc_id b = sint i \<and> sint amt \<le> acc_balance b)
      (\<lambda>b. set_balance (acc_balance b - sint amt) b) d =
    (if sint amt \<le> acc_balance a
     then (case set_balance (acc_balance a - sint amt) a of
             Inl e \<Rightarrow> Inl e | Inr a' \<Rightarrow> Inr (1, [], put_account a' d))
     else Inr (0, [], d))"
    by (rule update_accounts_by_id [OF _ Some]) (use assms in \<open>auto dest: set_balance_id\<close>)
  with Some show ?thesis
    by (auto simp: stmt_outcome_def sql_debit_if_funds_def change_balance_def split: sum.splits)
qed

lemma update_balance_outcome:
  assumes "rows_ok d"
    and "\<And>b b'. g b = Inr b' \<Longrightarrow> acc_id b' = acc_id b"
  shows "update_accounts (\<lambda>b. acc_id b = i) g d =
    (case find_account i d of
       None \<Rightarrow> Inr (0, [], d)
     | Some a \<Rightarrow> (case g a of Inl e \<Rightarrow> Inl e | Inr a' \<Rightarrow> Inr (1, [], put_account a' d)))"
proof (cases "find_account i d")
  case None
  then show ?thesis using update_accounts_missing [of i d "\<lambda>_. True" g] by simp
next
  case (Some a)
  with update_accounts_by_id [of d i a g "\<lambda>_. True"] assms show ?thesis by (auto simp: rows_ok_pk)
qed

lemma debit_by_id_outcome:
  assumes "rows_ok d"
  shows "stmt_outcome v (DebitById amt i) d fst =
    (case find_account (sint i) d of
       None \<Rightarrow> Inr (0, d)
     | Some a \<Rightarrow> map_sum id (\<lambda>(u, d'). (1, d')) (change_balance (acc_balance a - sint amt) a d))"
  using update_balance_outcome [OF assms, of "\<lambda>b. set_balance (acc_balance b - sint amt) b" "sint i"]
  by (auto simp: stmt_outcome_def sql_debit_by_id_def change_balance_def set_balance_id
      split: option.splits sum.splits)

lemma credit_by_id_outcome:
  assumes "rows_ok d"
  shows "stmt_outcome v (CreditById amt i) d fst =
    (case find_account (sint i) d of
       None \<Rightarrow> Inr (0, d)
     | Some a \<Rightarrow> map_sum id (\<lambda>(u, d'). (1, d')) (change_balance (acc_balance a + sint amt) a d))"
  using update_balance_outcome [OF assms, of "\<lambda>b. set_balance (acc_balance b + sint amt) b" "sint i"]
  by (auto simp: stmt_outcome_def sql_credit_by_id_def change_balance_def set_balance_id
      split: option.splits sum.splits)

lemma select_balance_outcome:
  assumes "rows_ok d"
  shows "stmt_outcome v (SelectBalanceForUpdate i) d snd =
    (case find_account (sint i) d of
       None \<Rightarrow> Inr ([], d) | Some a \<Rightarrow> Inr ([[VInt (acc_balance a)]], d))"
  using accounts_with_id [of d "sint i"] assms
  by (auto simp: stmt_outcome_def sql_select_balance_for_update_def rows_ok_pk split: option.splits)

lemma account_exists_outcome:
  "stmt_outcome v (AccountExists i) d snd = Inr ([[VBool (find_account (sint i) d \<noteq> None)]], d)"
  using find_account_None [of "sint i" d]
  by (auto simp: stmt_outcome_def sql_account_exists_def)

interpretation conditional_update: debit_strategy debitConditionalUpdate
proof unfold_locales
  show "confined (debitConditionalUpdate i amt)" for i amt
    unfolding debitConditionalUpdate_def
    by (auto intro!: confined_tryp confined_bindp)
next
  fix \<sigma> d now and i amt :: int64
  assume ok: "rows_ok d"
  show "wp \<sigma> (debitConditionalUpdate i amt) now d (\<lambda>x. x = debit_spec amt i d)"
    unfolding debitConditionalUpdate_def
    by (rule wp_tryp, rule wp_exec)
      (auto simp: debit_if_funds_outcome [OF ok] account_exists_outcome debit_spec_def
        change_balance_def intro!: wp_Ret wp_tryp wp_bindp_query [where g = "\<lambda>e. e"]
        split: option.splits sum.splits)
qed

interpretation select_for_update: debit_strategy debitSelectForUpdate
proof unfold_locales
  show "confined (debitSelectForUpdate i amt)" for i amt
    unfolding debitSelectForUpdate_def
    by (auto intro!: confined_tryp confined_bindp split: sum.splits)
next
  fix \<sigma> d now and i amt :: int64
  assume ok: "rows_ok d"
  have big: "bigint (acc_balance a)" if "find_account (sint i) d = Some a" for a
    using rows_ok_find [OF ok that] by (simp add: account_row_ok_def)
  show "wp \<sigma> (debitSelectForUpdate i amt) now d (\<lambda>x. x = debit_spec amt i d)"
    unfolding debitSelectForUpdate_def
    by (rule wp_bindp_query [where g = "\<lambda>e. e"])
      (auto simp: select_balance_outcome [OF ok] debit_by_id_outcome [OF ok] debit_spec_def big
        int64_of_def sint_of_bigint change_balance_def intro!: wp_Ret wp_tryp wp_exec
        split: option.splits sum.splits)
qed

end
