(* ===== verification/Ledger.thy ===== *)
theory Ledger
  imports Debit
begin

text \<open>
  \<open>internal/ledger/transfer.go\<close>: the request and the transfer, the transaction body shared by the
  strategies (\<open>execTxWithDebit\<close>, \<open>insertTransferAndPostings\<close>), and \<open>Execute\<close> with its retry
  loop. The straight-line function \<open>exec_spec\<close> is the reference: it says in one place what the
  body does to the tables and in which order its errors take precedence; \<open>wp_execTxWithDebit\<close>
  shows that the body implements it for every strategy that meets the contract \<open>debit_strategy\<close>.
\<close>

section \<open>Data\<close>

record transfer_request =
  FromAccount :: int64
  ToAccount :: int64
  Amount :: int64
  Currency :: string
  IdempotencyKey :: string
  RequestHash :: string

record transfer =
  T_ID :: uuid
  T_IdempotencyKey :: string
  T_Status :: string
  T_Amount :: int64
  T_Currency :: string
  T_FromAccount :: int64
  T_ToAccount :: int64
  T_CreatedAt :: timestamp

text \<open>\<open>Transfer{}\<close>, the zero value; a zero time is January 1 of year 1.\<close>

definition zero_transfer :: transfer where
  "zero_transfer = \<lparr>T_ID = ''00000000-0000-0000-0000-000000000000'', T_IdempotencyKey = [],
     T_Status = [], T_Amount = 0, T_Currency = [], T_FromAccount = 0, T_ToAccount = 0,
     T_CreatedAt = -62135596800000000\<rparr>"

definition maxDeadlockRetries :: nat where
  "maxDeadlockRetries = 5"

text \<open>
  \<open>json.Marshal\<close> of a transfer: the tagged fields in order. Times outside the years 0 to 9999 have
  no RFC 3339 text (timestamps count microseconds from 1970).
\<close>

definition rfc3339_ok :: "timestamp \<Rightarrow> bool" where
  "rfc3339_ok t \<longleftrightarrow> -62167219200000000 \<le> t \<and> t < 253402300800000000"

definition transfer_json :: "transfer \<Rightarrow> json" where
  "transfer_json t = JObj
     [(''id'', JStr (T_ID t)), (''idempotency_key'', JStr (T_IdempotencyKey t)),
      (''status'', JStr (T_Status t)), (''amount'', JInt (sint (T_Amount t))),
      (''currency'', JStr (T_Currency t)), (''from_account'', JInt (sint (T_FromAccount t))),
      (''to_account'', JInt (sint (T_ToAccount t))), (''created_at'', JTime (T_CreatedAt t))]"

definition json_Marshal :: "transfer \<Rightarrow> err + json" where
  "json_Marshal t =
     (if rfc3339_ok (T_CreatedAt t) then Inr (transfer_json t)
      else Inl (NewErr ''Time.MarshalJSON: year outside of range [0,9999]''))"

section \<open>The transaction body\<close>

definition scan_transfer :: "err + sqlval list \<Rightarrow> err + transfer" where
  "scan_transfer = scan_cols (\<lambda>row. case row of
     [i, k, s, a, c, f, t, now] \<Rightarrow>
       (case (cell_text i, cell_text k, cell_text s, cell_int a, cell_text c, cell_int f, cell_int t,
              cell_time now) of
          (Inr i', Inr k', Inr s', Inr a', Inr c', Inr f', Inr t', Inr now') \<Rightarrow>
            Inr \<lparr>T_ID = i', T_IdempotencyKey = k', T_Status = s', T_Amount = a', T_Currency = c',
                 T_FromAccount = f', T_ToAccount = t', T_CreatedAt = now'\<rparr>
        | _ \<Rightarrow> Inl ErrScan)
   | _ \<Rightarrow> Inl ErrScan)"

text \<open>The part of \<open>insertTransferAndPostings\<close> after the transfer row is written.\<close>

definition write_postings_and_event :: "transfer_request \<Rightarrow> transfer \<Rightarrow> (err + transfer) prog" where
  "write_postings_and_event req t =
     tryp (exec InTx (InsertPostings (T_ID t) (FromAccount req) (- Amount req)
                        (ToAccount req) (Amount req)))
       (\<lambda>_. tryp (GetWebhookURLInTx (ToAccount req)) (\<lambda>webhookURL.
          case json_Marshal t of
            Inl e \<Rightarrow> fail_with (Wrapped ''marshal outbox payload'' e)
          | Inr payload \<Rightarrow>
              tryp (InsertOutboxEventInTx ''transfer.created'' payload webhookURL)
                (\<lambda>_. return t)))"

definition insertTransferAndPostings :: "transfer_request \<Rightarrow> (err + transfer) prog" where
  "insertTransferAndPostings req =
     bindp (if IdempotencyKey req = [] then uuid_New else Ret (IdempotencyKey req))
       (\<lambda>idempotencyKey. bindp uuid_New (\<lambda>transferID.
          bindp (query InTx (InsertTransfer transferID idempotencyKey (Amount req) (Currency req)
                   (FromAccount req) (ToAccount req)))
            (\<lambda>q. case scan_transfer (query_row q) of
                   Inl e \<Rightarrow>
                     if errors_as_pg e = Some ''23503'' then fail_with ErrAccountNotFound
                     else fail_with e
                 | Inr t \<Rightarrow> write_postings_and_event req t)))"

definition execTxWithDebit ::
  "transfer_request \<Rightarrow> (int64 \<Rightarrow> int64 \<Rightarrow> (err + unit) prog) \<Rightarrow> (err + transfer) prog" where
  "execTxWithDebit req debit =
     bindp (query InTx (SelectCurrencies (FromAccount req) (ToAccount req))) (\<lambda>q.
       case scan_text_text (query_row q) of
         Inl e \<Rightarrow> if errors_is e ErrNoRows then fail_with ErrAccountNotFound else fail_with e
       | Inr (fromCurr, toCurr) \<Rightarrow>
           if fromCurr \<noteq> Currency req \<or> toCurr \<noteq> Currency req then fail_with ErrCurrencyMismatch
           else
             tryp (debit (FromAccount req) (Amount req)) (\<lambda>_.
               tryp (exec InTx (CreditById (Amount req) (ToAccount req))) (\<lambda>n.
                 if n = 0 then fail_with ErrAccountNotFound
                 else insertTransferAndPostings req)))"

definition execTx :: "transfer_request \<Rightarrow> (err + transfer) prog" where
  "execTx req = execTxWithDebit req debitConditionalUpdate"

section \<open>Execute\<close>

text \<open>The key is recorded as done, with status 201 and the transfer as the body.\<close>

definition complete_key_for :: "transfer_request \<Rightarrow> transfer \<Rightarrow> (err + unit) prog" where
  "complete_key_for req result =
     (if IdempotencyKey req = [] then return ()
      else
        (case json_Marshal result of
           Inl e \<Rightarrow> fail_with (Wrapped ''marshal transfer result'' e)
         | Inr body \<Rightarrow> Complete (IdempotencyKey req) 201 body))"

definition claim_key_for :: "transfer_request \<Rightarrow> (err + bool \<times> stored_response option) prog" where
  "claim_key_for req =
     (if IdempotencyKey req = [] then return (True, None)
      else ClaimInTx (IdempotencyKey req) (RequestHash req))"

text \<open>The body of \<open>executeOnce\<close> between \<open>pool.Begin\<close> and the deferred \<open>tx.Rollback\<close>.\<close>

definition executeOnce_body ::
  "transfer_request \<Rightarrow> (err + transfer \<times> stored_response option) prog" where
  "executeOnce_body req =
     tryp (claim_key_for req) (\<lambda>(won, stored).
       if \<not> won then RollbackTx (return (zero_transfer, stored))
       else
         tryp (execTx req) (\<lambda>result.
           tryp (complete_key_for req result) (\<lambda>_.
             CommitTx (\<lambda>c. case c of
                Some e \<Rightarrow> fail_with e
              | None \<Rightarrow> return (result, None)))))"

definition executeOnce ::
  "transfer_request \<Rightarrow> (err + transfer \<times> stored_response option) prog" where
  "executeOnce req =
     BeginTx (\<lambda>b. case b of
        Some e \<Rightarrow> fail_with e
      | None \<Rightarrow> bindp (executeOnce_body req) (\<lambda>r. RollbackTx (Ret r)))"

text \<open>The retry loop: the argument counts the attempts left.\<close>

primrec execute_loop ::
  "nat \<Rightarrow> transfer_request \<Rightarrow> (err + transfer \<times> stored_response option) prog" where
  "execute_loop 0 req = fail_with (NewErr ''too many deadlock retries on transfer'')"
| "execute_loop (Suc n) req =
     bindp (executeOnce req) (\<lambda>r. case r of
        Inl e \<Rightarrow> if isRetriableConflict e then execute_loop n req else fail_with e
      | Inr x \<Rightarrow> return x)"

definition Execute :: "transfer_request \<Rightarrow> (err + transfer \<times> stored_response option) prog" where
  "Execute req =
     (if sint (Amount req) \<le> 0 then fail_with ErrInvalidAmount
      else if FromAccount req = ToAccount req then fail_with ErrSameAccount
      else if length (Currency req) \<noteq> 3 then fail_with ErrInvalidCurrency
      else execute_loop maxDeadlockRetries req)"

section \<open>Reference semantics of the body\<close>

definition new_transfer ::
  "uuid \<Rightarrow> string \<Rightarrow> string \<Rightarrow> transfer_request \<Rightarrow> timestamp \<Rightarrow> transfer" where
  "new_transfer tid key c req now =
     \<lparr>T_ID = tid, T_IdempotencyKey = key, T_Status = ''posted'', T_Amount = Amount req,
      T_Currency = c, T_FromAccount = FromAccount req, T_ToAccount = ToAccount req,
      T_CreatedAt = now\<rparr>"

definition transfer_row_of :: "transfer \<Rightarrow> transfer_row" where
  "transfer_row_of t =
     \<lparr>tr_id = T_ID t, tr_key = T_IdempotencyKey t, tr_status = Posted, tr_amount = sint (T_Amount t),
      tr_currency = T_Currency t, tr_from = sint (T_FromAccount t), tr_to = sint (T_ToAccount t),
      tr_created = T_CreatedAt t\<rparr>"

definition debit_posting :: "int \<Rightarrow> transfer \<Rightarrow> posting_row" where
  "debit_posting pid t =
     \<lparr>po_id = pid, po_transfer = T_ID t, po_account = sint (T_FromAccount t),
      po_amount = - sint (T_Amount t), po_created = T_CreatedAt t\<rparr>"

definition credit_posting :: "int \<Rightarrow> transfer \<Rightarrow> posting_row" where
  "credit_posting pid t =
     \<lparr>po_id = pid + 1, po_transfer = T_ID t, po_account = sint (T_ToAccount t),
      po_amount = sint (T_Amount t), po_created = T_CreatedAt t\<rparr>"

definition transfer_event :: "uuid \<Rightarrow> transfer \<Rightarrow> string option \<Rightarrow> outbox_row" where
  "transfer_event ev t url =
     \<lparr>ob_id = ev, ob_type = ''transfer.created'', ob_payload = transfer_json t, ob_target = url,
      ob_status = Pending, ob_attempts = 0, ob_next = None, ob_reason = None,
      ob_created = T_CreatedAt t, ob_delivered = None\<rparr>"

text \<open>What a posted transfer adds to the tables, beside the two balances.\<close>

definition record_transfer :: "int \<Rightarrow> uuid \<Rightarrow> transfer \<Rightarrow> db \<Rightarrow> db" where
  "record_transfer pid ev t d =
     d\<lparr>transfers := transfers d @ [transfer_row_of t],
       postings := postings d @ [debit_posting pid t, credit_posting pid t],
       outbox := outbox d @ [transfer_event ev t (webhook_of (sint (T_ToAccount t)) d)]\<rparr>"

definition marshal_error :: err where
  "marshal_error =
     Wrapped ''marshal outbox payload'' (NewErr ''Time.MarshalJSON: year outside of range [0,9999]'')"

definition insert_spec ::
  "uuid \<Rightarrow> string \<Rightarrow> int \<Rightarrow> uuid \<Rightarrow> transfer_request \<Rightarrow> timestamp \<Rightarrow> db \<Rightarrow> err + transfer \<times> db" where
  "insert_spec tid key pid ev req now d =
     (case char3 (Currency req) of
        None \<Rightarrow> Inl string_truncation
      | Some c \<Rightarrow>
          (let t = new_transfer tid key c req now
           in if sint (Amount req) \<le> 0 \<or> FromAccount req = ToAccount req then Inl check_violation
              else if tid \<in> tr_id ` set (transfers d) \<or> key \<in> tr_key ` set (transfers d)
                then Inl unique_violation
              else if find_account (sint (FromAccount req)) d = None \<or>
                      find_account (sint (ToAccount req)) d = None
                then Inl ErrAccountNotFound
              else if pid \<in> po_id ` set (postings d) \<or> pid + 1 \<in> po_id ` set (postings d)
                then Inl unique_violation
              else if \<not> rfc3339_ok now then Inl marshal_error
              else if ev \<in> ob_id ` set (outbox d) then Inl unique_violation
              else Inr (t, record_transfer pid ev t d)))"

definition exec_spec ::
  "uuid \<Rightarrow> string \<Rightarrow> int \<Rightarrow> uuid \<Rightarrow> transfer_request \<Rightarrow> timestamp \<Rightarrow> db \<Rightarrow> err + transfer \<times> db" where
  "exec_spec tid key pid ev req now d =
     (case (find_account (sint (FromAccount req)) d, find_account (sint (ToAccount req)) d) of
        (Some a, Some b) \<Rightarrow>
          if acc_currency a \<noteq> Currency req \<or> acc_currency b \<noteq> Currency req
            then Inl ErrCurrencyMismatch
          else
            (case debit_spec (Amount req) (FromAccount req) d of
               Inl e \<Rightarrow> Inl e
             | Inr (_, d1) \<Rightarrow>
                 (case credit_spec (Amount req) (ToAccount req) d1 of
                    Inl e \<Rightarrow> Inl e
                  | Inr (_, d2) \<Rightarrow> insert_spec tid key pid ev req now d2))
      | _ \<Rightarrow> Inl ErrAccountNotFound)"

end
