(* ===== verification/LedgerSpec.thy ===== *)
theory LedgerSpec
  imports Ledger
begin

text \<open>
  The body of a transfer implements its reference semantics (\<open>exec_spec\<close>), for every debit
  strategy that meets the contract; and what a transfer that succeeds does to balances, journal
  and outbox.
\<close>

section \<open>Single statements of the body\<close>

lemma select_currencies_outcome:
  assumes "pk_ok d"
  shows "stmt_outcome v (SelectCurrencies f t) d snd =
    (case (find_account (sint f) d, find_account (sint t) d) of
       (Some a, Some b) \<Rightarrow> Inr ([[VText (acc_currency a), VText (acc_currency b)]], d)
     | _ \<Rightarrow> Inr ([], d))"
  by (auto simp: stmt_outcome_def sql_select_currencies_def accounts_with_id [OF assms]
      split: option.splits)

lemma sint_eq_iff: "sint (x :: int64) = sint y \<longleftrightarrow> x = y"
  by (auto intro: signed_word_eqI)

lemma insert_transfer_outcome:
  "stmt_outcome v (InsertTransfer tid key amt cur f t) d snd =
    (case char3 cur of
       None \<Rightarrow> Inl string_truncation
     | Some c \<Rightarrow>
         if sint amt \<le> 0 \<or> f = t then Inl check_violation
         else if tid \<in> tr_id ` set (transfers d) \<or> key \<in> tr_key ` set (transfers d)
           then Inl unique_violation
         else if find_account (sint f) d = None \<or> find_account (sint t) d = None
           then Inl foreign_key_violation
         else Inr ([[VText tid, VText key, VText ''posted'', VInt (sint amt), VText c, VInt (sint f),
                     VInt (sint t), VTime (e_now v)]],
                   d\<lparr>transfers := transfers d @
                     [\<lparr>tr_id = tid, tr_key = key, tr_status = Posted, tr_amount = sint amt,
                       tr_currency = c, tr_from = sint f, tr_to = sint t, tr_created = e_now v\<rparr>]\<rparr>))"
  by (auto simp: stmt_outcome_def sql_insert_transfer_def transfer_row_ok_def Let_def sint_eq_iff
      find_account_None split: option.splits)

lemma webhook_of_frame [simp]:
  "webhook_of i (transfers_update f d) = webhook_of i d"
  "webhook_of i (postings_update g d) = webhook_of i d"
  "webhook_of i (outbox_update h d) = webhook_of i d"
  "webhook_of i (idem_keys_update k d) = webhook_of i d"
  by (simp_all add: webhook_of_def find_account_def)

lemma find_account_frame [simp]:
  "find_account i (transfers_update f d) = find_account i d"
  "find_account i (postings_update g d) = find_account i d"
  "find_account i (outbox_update h d) = find_account i d"
  "find_account i (idem_keys_update k d) = find_account i d"
  by (simp_all add: find_account_def)

lemma rows_ok_frame [simp]:
  "rows_ok (transfers_update f d) = rows_ok d"
  "rows_ok (postings_update g d) = rows_ok d"
  by (simp_all add: rows_ok_def pk_ok_def)

lemma pk_ok_frame [simp]:
  "pk_ok (transfers_update f d) = pk_ok d"
  "pk_ok (postings_update g d) = pk_ok d"
  by (simp_all add: pk_ok_def)

section \<open>Postings and event\<close>

definition tail_spec :: "int \<Rightarrow> uuid \<Rightarrow> transfer_request \<Rightarrow> transfer \<Rightarrow> db \<Rightarrow> err + transfer \<times> db" where
  "tail_spec pid ev req t d =
     (if pid \<in> po_id ` set (postings d) \<or> pid + 1 \<in> po_id ` set (postings d)
        then Inl unique_violation
      else if \<not> rfc3339_ok (T_CreatedAt t) then Inl marshal_error
      else if ev \<in> ob_id ` set (outbox d) then Inl unique_violation
      else Inr (t, d\<lparr>postings := postings d @ [debit_posting pid t, credit_posting pid t],
                     outbox := outbox d @
                       [transfer_event ev t (webhook_of (sint (T_ToAccount t)) d)]\<rparr>))"

lemma insert_postings_outcome:
  assumes "0 < sint amt" and "find_account (sint f) d \<noteq> None" and "find_account (sint t) d \<noteq> None"
    and "tid \<in> tr_id ` set (transfers d)"
  shows "stmt_outcome v (InsertPostings tid f (- amt) t amt) d fst =
    (if e_id v \<in> po_id ` set (postings d) \<or> e_id v + 1 \<in> po_id ` set (postings d)
       then Inl unique_violation
     else Inr (2, d\<lparr>postings := postings d @
       [\<lparr>po_id = e_id v, po_transfer = tid, po_account = sint f, po_amount = - sint amt,
         po_created = e_now v\<rparr>,
        \<lparr>po_id = e_id v + 1, po_transfer = tid, po_account = sint t, po_amount = sint amt,
         po_created = e_now v\<rparr>]\<rparr>))"
  using assms
  by (auto simp: stmt_outcome_def sql_insert_postings_def Let_def has_account_find sint_minus_pos)

lemma insert_outbox_outcome:
  "stmt_outcome v (InsertOutbox ty p u) d fst =
    (if e_uuid v \<in> ob_id ` set (outbox d) then Inl unique_violation
     else Inr (1, d\<lparr>outbox := outbox d @
       [\<lparr>ob_id = e_uuid v, ob_type = ty, ob_payload = p, ob_target = u, ob_status = Pending,
         ob_attempts = 0, ob_next = None, ob_reason = None, ob_created = e_now v,
         ob_delivered = None\<rparr>]\<rparr>))"
  by (simp add: stmt_outcome_def sql_insert_outbox_def)

text \<open>The posting id and the event id that were drawn.\<close>

definition ids_drawn :: "sources \<Rightarrow> int \<Rightarrow> uuid \<Rightarrow> bool" where
  "ids_drawn \<sigma> pid ev \<longleftrightarrow> ids_from \<sigma> \<le> pid \<and> ev \<in> uuids_of \<sigma>"

lemma wp_tail:
  assumes pk: "pk_ok d" and pos: "0 < sint (Amount req)"
    and f: "find_account (sint (FromAccount req)) d \<noteq> None"
    and t: "find_account (sint (ToAccount req)) d \<noteq> None"
    and tid: "tid \<in> tr_id ` set (transfers d)"
    and tr: "tr = new_transfer tid key c req now"
  shows "wp \<sigma> (write_postings_and_event req tr) now d (\<lambda>x. \<exists>pid ev. ids_drawn \<sigma> pid ev \<and> x = tail_spec pid ev req tr d)"
proof -
  have T: "T_ID tr = tid" "T_CreatedAt tr = now" "T_FromAccount tr = FromAccount req"
    "T_ToAccount tr = ToAccount req" "T_Amount tr = Amount req"
    by (simp_all add: tr new_transfer_def)
  show ?thesis
    unfolding write_postings_and_event_def T
  proof (rule wp_tryp, rule wp_exec, goal_cases)
    case (1 v)
    let ?d1 = "d\<lparr>postings := postings d @ [debit_posting (e_id v) tr, credit_posting (e_id v) tr]\<rparr>"
    let ?Q = "\<lambda>x. \<exists>pid ev. ids_drawn \<sigma> pid ev \<and> x = tail_spec pid ev req tr d"
    have drawn: "ids_from \<sigma> \<le> e_id v" "e_uuid v \<in> uuids_of \<sigma>" using 1 by (auto simp: env_fits_def)
    note out = insert_postings_outcome [OF pos f t tid, of v]
    have d1: "d\<lparr>postings := postings d @
       [\<lparr>po_id = e_id v, po_transfer = tid, po_account = sint (FromAccount req),
         po_amount = - sint (Amount req), po_created = e_now v\<rparr>,
        \<lparr>po_id = e_id v + 1, po_transfer = tid, po_account = sint (ToAccount req),
         po_amount = sint (Amount req), po_created = e_now v\<rparr>]\<rparr> = ?d1"
      by (simp add: debit_posting_def credit_posting_def T 1)
    have event: "wp \<sigma> (tryp (GetWebhookURLInTx (ToAccount req)) (\<lambda>webhookURL.
          case json_Marshal tr of
            Inl e \<Rightarrow> fail_with (Wrapped ''marshal outbox payload'' e)
          | Inr payload \<Rightarrow>
              tryp (InsertOutboxEventInTx ''transfer.created'' payload webhookURL)
                (\<lambda>_. return tr))) now ?d1 ?Q"
      if fresh: "e_id v \<notin> po_id ` set (postings d)" "e_id v + 1 \<notin> po_id ` set (postings d)"
    proof (rule wp_tryp, rule wp_eq [OF wp_GetWebhookURLInTx], use pk in simp, simp, cases "rfc3339_ok now")
      case False
      then show "wp \<sigma> (case json_Marshal tr of
            Inl e \<Rightarrow> fail_with (Wrapped ''marshal outbox payload'' e)
          | Inr payload \<Rightarrow>
              tryp (InsertOutboxEventInTx ''transfer.created'' payload
                      (webhook_of (sint (ToAccount req)) d))
                (\<lambda>_. return tr)) now ?d1 ?Q"
        using fresh drawn
        by (auto simp: json_Marshal_def T marshal_error_def tail_spec_def ids_drawn_def intro!: wp_Ret
            exI [where x = "e_id v"])
    next
      case True
      then have m: "json_Marshal tr = Inr (transfer_json tr)" by (simp add: json_Marshal_def T)
      show "wp \<sigma> (case json_Marshal tr of
            Inl e \<Rightarrow> fail_with (Wrapped ''marshal outbox payload'' e)
          | Inr payload \<Rightarrow>
              tryp (InsertOutboxEventInTx ''transfer.created'' payload
                      (webhook_of (sint (ToAccount req)) d))
                (\<lambda>_. return tr)) now ?d1 ?Q"
        unfolding m sum.case InsertOutboxEventInTx_def
      proof (rule wp_tryp, rule wp_tryp, rule wp_exec, goal_cases)
        case (1 v2)
        have ids: "ids_drawn \<sigma> (e_id v) (e_uuid v2)"
          using drawn 1 by (simp add: ids_drawn_def env_fits_def)
        have "stmt_outcome v2 (InsertOutbox ''transfer.created'' (transfer_json tr)
              (webhook_of (sint (ToAccount req)) d)) ?d1 fst =
          map_sum id (\<lambda>(_, d'). (1, d')) (tail_spec (e_id v) (e_uuid v2) req tr d)"
          using True fresh 1
          by (simp add: insert_outbox_outcome tail_spec_def T transfer_event_def)
        moreover have "tail_spec (e_id v) (e_uuid v2) req tr d = Inr (a, b) \<Longrightarrow> a = tr" for a b
          by (auto simp: tail_spec_def split: if_splits)
        ultimately show ?case
          using ids by (cases "tail_spec (e_id v) (e_uuid v2) req tr d") (auto intro!: wp_Ret, metis+)
      qed
    qed
    show ?case
      unfolding out d1 using event drawn
      by (auto simp: tail_spec_def ids_drawn_def intro!: exI [where x = "e_id v"])
  qed
qed

section \<open>The whole body\<close>

lemma insert_spec_tail:
  assumes "char3 (Currency req) = Some c" and "0 < sint (Amount req)"
    and "FromAccount req \<noteq> ToAccount req"
    and "tid \<notin> tr_id ` set (transfers d)" and "key \<notin> tr_key ` set (transfers d)"
    and "find_account (sint (FromAccount req)) d \<noteq> None"
    and "find_account (sint (ToAccount req)) d \<noteq> None"
    and "tr = new_transfer tid key c req now"
  shows "insert_spec tid key pid ev req now d =
    tail_spec pid ev req tr (d\<lparr>transfers := transfers d @ [transfer_row_of tr]\<rparr>)"
  using assms
  by (auto simp: insert_spec_def tail_spec_def record_transfer_def new_transfer_def Let_def)

text \<open>The values an insertion draws: the key of the request stands if there is one.\<close>

definition drawn :: "sources \<Rightarrow> transfer_request \<Rightarrow> uuid \<Rightarrow> string \<Rightarrow> int \<Rightarrow> uuid \<Rightarrow> bool" where
  "drawn \<sigma> req tid key pid ev \<longleftrightarrow>
     tid \<in> uuids_of \<sigma> \<and>
     (if IdempotencyKey req = [] then key \<in> uuids_of \<sigma> else key = IdempotencyKey req) \<and>
     ids_drawn \<sigma> pid ev"

lemma drawn_ex:
  assumes "u \<in> uuids_of \<sigma>"
  shows "\<exists>tid key pid ev. drawn \<sigma> req tid key pid ev"
proof -
  let ?key = "if IdempotencyKey req = [] then u else IdempotencyKey req"
  have "drawn \<sigma> req u ?key (ids_from \<sigma>) u"
    using assms by (simp add: drawn_def ids_drawn_def)
  then show ?thesis by blast
qed

lemma wp_insert_row:
  assumes pk: "pk_ok d"
  shows "wp \<sigma> (bindp (query InTx (InsertTransfer tid key (Amount req) (Currency req)
                   (FromAccount req) (ToAccount req)))
            (\<lambda>q. case scan_transfer (query_row q) of
                   Inl e \<Rightarrow>
                     if errors_as_pg e = Some ''23503'' then fail_with ErrAccountNotFound
                     else fail_with e
                 | Inr t \<Rightarrow> write_postings_and_event req t)) now d
     (\<lambda>x. \<exists>pid ev. ids_drawn \<sigma> pid ev \<and> x = insert_spec tid key pid ev req now d)"
proof (rule wp_bindp_query [where
      g = "\<lambda>e. if errors_as_pg e = Some ''23503'' then ErrAccountNotFound else e"], goal_cases)
  case (1 v)
  let ?ok = "0 < sint (Amount req) \<and> FromAccount req \<noteq> ToAccount req \<and>
    tid \<notin> tr_id ` set (transfers d) \<and> key \<notin> tr_key ` set (transfers d) \<and>
    find_account (sint (FromAccount req)) d \<noteq> None \<and> find_account (sint (ToAccount req)) d \<noteq> None"
  have ids: "\<exists>pid ev. ids_drawn \<sigma> pid ev"
    using 1 by (auto simp: ids_drawn_def env_fits_def)
  show ?case
  proof (cases "\<exists>c. char3 (Currency req) = Some c \<and> ?ok")
    case False
    with ids show ?thesis
      unfolding insert_transfer_outcome
      by (auto simp: insert_spec_def Let_def split: option.splits)
  next
    case True
    then obtain c where c: "char3 (Currency req) = Some c" and ok: ?ok by blast
    define tr where "tr = new_transfer tid key c req now"
    let ?d1 = "d\<lparr>transfers := transfers d @ [transfer_row_of tr]\<rparr>"
    have out: "stmt_outcome v (InsertTransfer tid key (Amount req) (Currency req)
                   (FromAccount req) (ToAccount req)) d snd =
      Inr ([[VText tid, VText key, VText ''posted'', VInt (sint (Amount req)), VText c,
             VInt (sint (FromAccount req)), VInt (sint (ToAccount req)), VTime now]], ?d1)"
      using c ok 1
      by (simp add: insert_transfer_outcome tr_def new_transfer_def transfer_row_of_def)
    have scan: "scan_transfer (Inr [VText tid, VText key, VText ''posted'', VInt (sint (Amount req)),
        VText c, VInt (sint (FromAccount req)), VInt (sint (ToAccount req)), VTime now]) = Inr tr"
      by (simp add: scan_transfer_def tr_def new_transfer_def)
    have tail: "wp \<sigma> (write_postings_and_event req tr) now ?d1
      (\<lambda>x. \<exists>pid ev. ids_drawn \<sigma> pid ev \<and> x = tail_spec pid ev req tr ?d1)"
      by (rule wp_tail [where tid = tid and key = key and c = c])
        (use ok pk in \<open>auto simp: tr_def new_transfer_def transfer_row_of_def\<close>)
    have spec: "insert_spec tid key pid ev req now d = tail_spec pid ev req tr ?d1" for pid ev
      by (rule insert_spec_tail [OF c]) (use ok in \<open>auto simp: tr_def\<close>)
    show ?thesis unfolding out spec using tail by (simp add: scan)
  qed
next
  case (2 e)
  then show ?case by (simp add: scan_transfer_def)
qed

lemma wp_insertTransferAndPostings:
  assumes pk: "pk_ok d"
  shows "wp \<sigma> (insertTransferAndPostings req) now d
    (\<lambda>x. \<exists>tid key pid ev. drawn \<sigma> req tid key pid ev \<and> x = insert_spec tid key pid ev req now d)"
proof -
  have row: "wp \<sigma> (bindp uuid_New (\<lambda>transferID.
          bindp (query InTx (InsertTransfer transferID key (Amount req) (Currency req)
                   (FromAccount req) (ToAccount req)))
            (\<lambda>q. case scan_transfer (query_row q) of
                   Inl e \<Rightarrow>
                     if errors_as_pg e = Some ''23503'' then fail_with ErrAccountNotFound
                     else fail_with e
                 | Inr t \<Rightarrow> write_postings_and_event req t))) now d
    (\<lambda>x. \<exists>tid key pid ev. drawn \<sigma> req tid key pid ev \<and> x = insert_spec tid key pid ev req now d)"
    if "if IdempotencyKey req = [] then key \<in> uuids_of \<sigma> else key = IdempotencyKey req" for key
    by (rule wp_uuid, rule wp_mono [OF wp_insert_row [OF pk]]) (use that in \<open>unfold drawn_def, blast\<close>)
  show ?thesis
  proof (cases "IdempotencyKey req = []")
    case True
    then have "wp \<sigma> (insertTransferAndPostings req) now d
      (\<lambda>x. \<exists>tid key pid ev. drawn \<sigma> req tid key pid ev \<and> x = insert_spec tid key pid ev req now d)"
      unfolding insertTransferAndPostings_def if_P [OF True] using True by (intro wp_uuid row) simp
    then show ?thesis .
  next
    case False
    then show ?thesis
      unfolding insertTransferAndPostings_def if_not_P [OF False] bindp.simps(1) by (intro row) simp
  qed
qed

lemma put_account_ids [simp]: "map acc_id (accounts (put_account a d)) = map acc_id (accounts d)"
  by (auto simp: put_account_def)

lemma put_account_frame [simp]:
  "transfers (put_account a d) = transfers d" "postings (put_account a d) = postings d"
  "idem_keys (put_account a d) = idem_keys d" "outbox (put_account a d) = outbox d"
  by (simp_all add: put_account_def)

lemma rows_ok_put: "rows_ok d \<Longrightarrow> account_row_ok a \<Longrightarrow> rows_ok (put_account a d)"
  by (auto simp: rows_ok_def pk_ok_def) (auto simp: put_account_def)

lemma change_balance_ok:
  assumes "change_balance b a d = Inr (u, d')"
  shows "d' = put_account (a\<lparr>acc_balance := b\<rparr>) d \<and> 0 \<le> b \<and> bigint b"
  using assms by (auto simp: change_balance_def set_balance_def split: sum.splits if_splits)

lemma change_balance_rows_ok:
  "change_balance b a d = Inr (u, d') \<Longrightarrow> rows_ok d \<Longrightarrow> account_row_ok a \<Longrightarrow> rows_ok d'"
  by (drule change_balance_ok) (auto intro!: rows_ok_put simp: account_row_ok_def)

lemma debit_spec_rows_ok: "debit_spec amt i d = Inr (u, d') \<Longrightarrow> rows_ok d \<Longrightarrow> rows_ok d'"
  by (auto simp: debit_spec_def split: option.splits if_splits
      dest: change_balance_rows_ok rows_ok_find)

lemma credit_spec_rows_ok: "credit_spec amt i d = Inr (u, d') \<Longrightarrow> rows_ok d \<Longrightarrow> rows_ok d'"
  by (auto simp: credit_spec_def split: option.splits
      dest: change_balance_rows_ok rows_ok_find)

lemma find_put_account:
  "find_account i (put_account a d) =
    (case find_account i d of None \<Rightarrow> None | Some b \<Rightarrow> Some (if i = acc_id a then a else b))"
proof -
  have "find (\<lambda>b. acc_id b = i) (map (\<lambda>b. if acc_id b = acc_id a then a else b) rs) =
    (case find (\<lambda>b. acc_id b = i) rs of None \<Rightarrow> None | Some b \<Rightarrow> Some (if i = acc_id a then a else b))"
    for rs by (induction rs) auto
  then show ?thesis by (simp add: find_account_def put_account_def)
qed

text \<open>Crediting the receiver and writing the transfer: the end of every strategy.\<close>

definition finish_spec ::
  "uuid \<Rightarrow> string \<Rightarrow> int \<Rightarrow> uuid \<Rightarrow> transfer_request \<Rightarrow> timestamp \<Rightarrow> db \<Rightarrow> err + transfer \<times> db" where
  "finish_spec tid key pid ev req now d =
     (case credit_spec (Amount req) (ToAccount req) d of
        Inl e \<Rightarrow> Inl e | Inr (_, d2) \<Rightarrow> insert_spec tid key pid ev req now d2)"

lemma credit_outcome_spec:
  "rows_ok d \<Longrightarrow> stmt_outcome v (CreditById (Amount req) (ToAccount req)) d fst =
    (case find_account (sint (ToAccount req)) d of
       None \<Rightarrow> Inr (0, d)
     | Some a \<Rightarrow> map_sum id (\<lambda>(_, d2). (1, d2)) (credit_spec (Amount req) (ToAccount req) d))"
  by (auto simp: credit_by_id_outcome credit_spec_def split: option.splits)

lemma wp_credit_and_insert:
  assumes ok: "rows_ok d"
  shows "wp \<sigma> (tryp (exec InTx (CreditById (Amount req) (ToAccount req))) (\<lambda>n.
          if n = 0 then fail_with ErrAccountNotFound else insertTransferAndPostings req)) now d
    (\<lambda>x. \<exists>tid key pid ev. drawn \<sigma> req tid key pid ev \<and> x = finish_spec tid key pid ev req now d)"
    (is "wp _ _ _ _ ?Q")
proof (rule wp_tryp, rule wp_exec, goal_cases)
  case (1 v)
  have key: "\<exists>tid key pid ev. drawn \<sigma> req tid key pid ev"
    using 1 by (intro drawn_ex [of "e_uuid v"]) (simp add: env_fits_def)
  show ?case
  proof (cases "credit_spec (Amount req) (ToAccount req) d")
    case (Inl e)
    then show ?thesis
      unfolding credit_outcome_spec [OF ok] using key
      by (auto simp: finish_spec_def credit_spec_def intro!: wp_Ret split: option.splits)
  next
    case (Inr p)
    obtain u2 d2 where p: "p = (u2, d2)" by (cases p)
    with Inr obtain b' where "find_account (sint (ToAccount req)) d = Some b'"
      by (auto simp: credit_spec_def split: option.splits)
    moreover have "pk_ok d2" using credit_spec_rows_ok [OF _ ok] Inr p by auto
    then have "wp \<sigma> (insertTransferAndPostings req) now d2 ?Q"
      using wp_insertTransferAndPostings by (simp add: finish_spec_def Inr p)
    ultimately show ?thesis unfolding credit_outcome_spec [OF ok] using Inr p by simp
  qed
qed

context debit_strategy
begin

text \<open>The body refines the reference semantics.\<close>

lemma wp_execTxWithDebit:
  assumes ok: "rows_ok d"
  shows "wp \<sigma> (execTxWithDebit req debit) now d
    (\<lambda>x. \<exists>tid key pid ev. drawn \<sigma> req tid key pid ev \<and> x = exec_spec tid key pid ev req now d)"
    (is "wp _ _ _ _ ?Q")
  unfolding execTxWithDebit_def
proof (rule wp_bindp_query [where g = "\<lambda>e. e"], goal_cases)
  case (1 v)
  have pk: "pk_ok d" using ok by auto
  let ?f = "find_account (sint (FromAccount req)) d" and ?t = "find_account (sint (ToAccount req)) d"
  have key: "\<exists>tid key pid ev. drawn \<sigma> req tid key pid ev"
    using 1 by (intro drawn_ex [of "e_uuid v"]) (simp add: env_fits_def)
  show ?case
  proof (cases "?f = None \<or> ?t = None")
    case True
    then show ?thesis using key
      by (auto simp: select_currencies_outcome [OF pk] exec_spec_def intro!: wp_Ret split: option.splits)
  next
    case False
    then obtain a b where a: "?f = Some a" and b: "?t = Some b" by auto
    have credit: "wp \<sigma> (tryp (exec InTx (CreditById (Amount req) (ToAccount req))) (\<lambda>n.
          if n = 0 then fail_with ErrAccountNotFound else insertTransferAndPostings req)) now d1 ?Q"
      if d1: "debit_spec (Amount req) (FromAccount req) d = Inr (u, d1)"
        and cur: "acc_currency a = Currency req" "acc_currency b = Currency req" for u d1
    proof -
      have "exec_spec tid key pid ev req now d = finish_spec tid key pid ev req now d1" for tid key pid ev
        using a b d1 cur by (simp add: exec_spec_def finish_spec_def)
      then show ?thesis using wp_credit_and_insert [OF debit_spec_rows_ok [OF d1 ok]] by simp
    qed
    show ?thesis
    proof (cases "acc_currency a \<noteq> Currency req \<or> acc_currency b \<noteq> Currency req")
      case True
      with a b key show ?thesis
        by (auto simp: select_currencies_outcome [OF pk] exec_spec_def intro!: wp_Ret)
    next
      case False
      then have cur: "acc_currency a = Currency req" "acc_currency b = Currency req" by auto
      have "wp \<sigma> (tryp (debit (FromAccount req) (Amount req)) (\<lambda>_.
          tryp (exec InTx (CreditById (Amount req) (ToAccount req))) (\<lambda>n.
          if n = 0 then fail_with ErrAccountNotFound else insertTransferAndPostings req))) now d ?Q"
      proof (rule wp_tryp, rule wp_eq [OF wp_debit [OF ok]])
        show "case debit_spec (Amount req) (FromAccount req) d of
            Inl e \<Rightarrow> ?Q (Inl e)
          | Inr (u, d1) \<Rightarrow> wp \<sigma> (tryp (exec InTx (CreditById (Amount req) (ToAccount req))) (\<lambda>n.
              if n = 0 then fail_with ErrAccountNotFound else insertTransferAndPostings req)) now d1 ?Q"
          using a b cur key credit
          by (cases "debit_spec (Amount req) (FromAccount req) d") (auto simp: exec_spec_def)
      qed
      with a b cur show ?thesis by (simp add: select_currencies_outcome [OF pk])
    qed
  qed
qed auto

lemma confined_execTxWithDebit: "confined (execTxWithDebit req debit)"
  unfolding execTxWithDebit_def insertTransferAndPostings_def write_postings_and_event_def
  using confined_debit by (auto intro!: confined_tryp confined_bindp split: sum.splits)

end

end
