(* ===== verification/Books.thy ===== *)
theory Books
  imports LedgerSpec
begin

text \<open>
  The books of the ledger: what the tables promise between transactions. \<open>books_ok seed d\<close> says
  that all constraints hold, that every account's balance is its seed plus the sum of its postings,
  that every transfer has exactly its two postings, that the postings sum to zero, that every
  transfer has exactly one outbox event, in the same order, and that a transfer is in the currency
  of both accounts. The main result is that \<open>exec_spec\<close> keeps the books.
\<close>

section \<open>Moving funds\<close>

definition funds_delta :: "int \<Rightarrow> int \<Rightarrow> int \<Rightarrow> int \<Rightarrow> int" where
  "funds_delta f t amt i = (if i = f then - amt else if i = t then amt else 0)"

definition move_funds :: "int \<Rightarrow> int \<Rightarrow> int \<Rightarrow> db \<Rightarrow> db" where
  "move_funds f t amt d =
     d\<lparr>accounts := map (\<lambda>a. a\<lparr>acc_balance := acc_balance a + funds_delta f t amt (acc_id a)\<rparr>)
                      (accounts d)\<rparr>"

lemma move_funds_frame [simp]:
  "transfers (move_funds f t amt d) = transfers d" "postings (move_funds f t amt d) = postings d"
  "idem_keys (move_funds f t amt d) = idem_keys d" "outbox (move_funds f t amt d) = outbox d"
  "map acc_id (accounts (move_funds f t amt d)) = map acc_id (accounts d)"
  "acc_id ` set (accounts (move_funds f t amt d)) = acc_id ` set (accounts d)"
  by (auto simp: move_funds_def image_image)

lemma find_move_funds:
  "find_account i (move_funds f t amt d) =
    map_option (\<lambda>a. a\<lparr>acc_balance := acc_balance a + funds_delta f t amt i\<rparr>) (find_account i d)"
proof -
  have "find (\<lambda>a. acc_id a = i)
      (map (\<lambda>a. a\<lparr>acc_balance := acc_balance a + funds_delta f t amt (acc_id a)\<rparr>) rs) =
    map_option (\<lambda>a. a\<lparr>acc_balance := acc_balance a + funds_delta f t amt i\<rparr>)
      (find (\<lambda>a. acc_id a = i) rs)" for rs
    by (induction rs) auto
  then show ?thesis by (simp add: find_account_def move_funds_def)
qed

lemma webhook_move_funds [simp]: "webhook_of i (move_funds f t amt d) = webhook_of i d"
  by (simp add: webhook_of_def find_move_funds split: option.splits)

lemma find_account_unique:
  "pk_ok d \<Longrightarrow> find_account i d = Some a \<Longrightarrow> r \<in> set (accounts d) \<Longrightarrow> acc_id r = i \<Longrightarrow> r = a"
proof -
  assume pk: "pk_ok d" and a: "find_account i d = Some a" and r: "r \<in> set (accounts d)" "acc_id r = i"
  have "r \<in> set (filter (\<lambda>a. acc_id a = i) (accounts d))" using r by simp
  then show "r = a" using accounts_with_id [OF pk, of i] a by simp
qed

lemma put_twice_move:
  assumes pk: "pk_ok d" and a: "find_account f d = Some a" and b: "find_account t d = Some b"
    and ft: "f \<noteq> t"
  shows "put_account (b\<lparr>acc_balance := acc_balance b + amt\<rparr>)
           (put_account (a\<lparr>acc_balance := acc_balance a - amt\<rparr>) d) = move_funds f t amt d"
proof -
  have ids: "acc_id a = f" "acc_id b = t" using find_account_Some [OF a] find_account_Some [OF b] by auto
  have "(\<lambda>r. if acc_id r = t then b\<lparr>acc_balance := acc_balance b + amt\<rparr> else r)
        (if acc_id r = f then a\<lparr>acc_balance := acc_balance a - amt\<rparr> else r) =
      r\<lparr>acc_balance := acc_balance r + funds_delta f t amt (acc_id r)\<rparr>"
    if "r \<in> set (accounts d)" for r
    using find_account_unique [OF pk a that] find_account_unique [OF pk b that] ft ids
    by (auto simp: funds_delta_def)
  with ids show ?thesis by (simp add: put_account_def move_funds_def)
qed

text \<open>What a successful run of the reference semantics has checked and done.\<close>

definition transfer_checks :: "transfer_request \<Rightarrow> db \<Rightarrow> bool" where
  "transfer_checks req d \<longleftrightarrow>
     (\<exists>a b. find_account (sint (FromAccount req)) d = Some a \<and>
            find_account (sint (ToAccount req)) d = Some b \<and>
            FromAccount req \<noteq> ToAccount req \<and> 0 < sint (Amount req) \<and>
            sint (Amount req) \<le> acc_balance a \<and>
            bigint (acc_balance b + sint (Amount req)) \<and>
            acc_currency a = Currency req \<and> acc_currency b = Currency req)"

definition fresh_ids :: "uuid \<Rightarrow> string \<Rightarrow> int \<Rightarrow> uuid \<Rightarrow> db \<Rightarrow> bool" where
  "fresh_ids tid key pid ev d \<longleftrightarrow>
     tid \<notin> tr_id ` set (transfers d) \<and> key \<notin> tr_key ` set (transfers d) \<and>
     pid \<notin> po_id ` set (postings d) \<and> pid + 1 \<notin> po_id ` set (postings d) \<and>
     ev \<notin> ob_id ` set (outbox d)"

definition posted_db :: "int \<Rightarrow> uuid \<Rightarrow> transfer \<Rightarrow> db \<Rightarrow> db" where
  "posted_db pid ev t d = record_transfer pid ev t
     (move_funds (sint (T_FromAccount t)) (sint (T_ToAccount t)) (sint (T_Amount t)) d)"

lemma exec_spec_Inr:
  assumes ok: "rows_ok d" and x: "exec_spec tid key pid ev req now d = Inr (t, d')"
  shows "transfer_checks req d \<and> fresh_ids tid key pid ev d \<and> rfc3339_ok now \<and>
    t = new_transfer tid key (Currency req) req now \<and> d' = posted_db pid ev t d"
proof -
  have pk: "pk_ok d" using ok by auto
  obtain a b where a: "find_account (sint (FromAccount req)) d = Some a"
    and b: "find_account (sint (ToAccount req)) d = Some b"
    using x by (auto simp: exec_spec_def split: option.splits)
  with x have cur: "acc_currency a = Currency req" "acc_currency b = Currency req"
    by (auto simp: exec_spec_def split: if_splits)
  with x a b obtain d1 d2 where d1: "debit_spec (Amount req) (FromAccount req) d = Inr ((), d1)"
    and d2: "credit_spec (Amount req) (ToAccount req) d1 = Inr ((), d2)"
    and ins: "insert_spec tid key pid ev req now d2 = Inr (t, d')"
    by (auto simp: exec_spec_def split: sum.splits)
  have funds: "sint (Amount req) \<le> acc_balance a"
    and d1': "d1 = put_account (a\<lparr>acc_balance := acc_balance a - sint (Amount req)\<rparr>) d"
    using d1 a by (auto simp: debit_spec_def split: if_splits dest: change_balance_ok)
  have c: "char3 (Currency req) = Some (Currency req)"
    using rows_ok_find [OF ok a] cur by (simp add: account_row_ok_def)
  have chk: "0 < sint (Amount req)" "FromAccount req \<noteq> ToAccount req"
    using ins c by (auto simp: insert_spec_def Let_def split: if_splits)
  then have ft: "sint (FromAccount req) \<noteq> sint (ToAccount req)" by (simp add: sint_eq_iff)
  have ida: "acc_id a = sint (FromAccount req)" using find_account_Some [OF a] by simp
  have "find_account (sint (ToAccount req)) d1 = Some b"
    using b ft ida by (simp add: d1' find_put_account)
  with d2 have big: "bigint (acc_balance b + sint (Amount req))"
    and d2': "d2 = put_account (b\<lparr>acc_balance := acc_balance b + sint (Amount req)\<rparr>) d1"
    by (auto simp: credit_spec_def dest: change_balance_ok)
  have d2m: "d2 = move_funds (sint (FromAccount req)) (sint (ToAccount req)) (sint (Amount req)) d"
    unfolding d2' d1' by (rule put_twice_move [OF pk a b ft])
  have res: "fresh_ids tid key pid ev d2 \<and> rfc3339_ok now \<and>
      t = new_transfer tid key (Currency req) req now \<and> d' = record_transfer pid ev t d2"
    using ins c by (auto simp: insert_spec_def fresh_ids_def Let_def split: if_splits)
  moreover have "fresh_ids tid key pid ev d2 = fresh_ids tid key pid ev d"
    by (simp add: d2m fresh_ids_def)
  ultimately show ?thesis
    using a b cur funds chk big by (auto simp: transfer_checks_def posted_db_def d2m new_transfer_def)
qed

text \<open>Conversely, a request that passes the checks, with fresh identifiers, is posted.\<close>

lemma exec_spec_posts:
  assumes ok: "rows_ok d" and chk: "transfer_checks req d" and fresh: "fresh_ids tid key pid ev d"
    and now: "rfc3339_ok now"
  shows "exec_spec tid key pid ev req now d =
    Inr (new_transfer tid key (Currency req) req now,
         posted_db pid ev (new_transfer tid key (Currency req) req now) d)"
proof -
  obtain a b where a: "find_account (sint (FromAccount req)) d = Some a"
    and b: "find_account (sint (ToAccount req)) d = Some b"
    and chk': "FromAccount req \<noteq> ToAccount req" "0 < sint (Amount req)"
      "sint (Amount req) \<le> acc_balance a" "bigint (acc_balance b + sint (Amount req))"
    and cur: "acc_currency a = Currency req" "acc_currency b = Currency req"
    using chk by (auto simp: transfer_checks_def)
  have oka: "account_row_ok a" and okb: "account_row_ok b" using ok a b by (auto dest: rows_ok_find)
  have ft: "sint (FromAccount req) \<noteq> sint (ToAccount req)" using chk' by (simp add: sint_eq_iff)
  have ida: "acc_id a = sint (FromAccount req)" using find_account_Some [OF a] by simp
  let ?d1 = "put_account (a\<lparr>acc_balance := acc_balance a - sint (Amount req)\<rparr>) d"
  let ?d2 = "move_funds (sint (FromAccount req)) (sint (ToAccount req)) (sint (Amount req)) d"
  have "debit_spec (Amount req) (FromAccount req) d = Inr ((), ?d1)"
    using a chk' oka
    by (auto simp: debit_spec_def change_balance_def set_balance_def account_row_ok_def bigint_def)
  moreover have "credit_spec (Amount req) (ToAccount req) ?d1 = Inr ((), ?d2)"
    using b chk' okb ft ida put_twice_move [OF rows_ok_pk [OF ok] a b ft]
    by (auto simp: credit_spec_def change_balance_def set_balance_def account_row_ok_def find_put_account)
  moreover have "insert_spec tid key pid ev req now ?d2 =
      Inr (new_transfer tid key (Currency req) req now,
           posted_db pid ev (new_transfer tid key (Currency req) req now) d)"
    using fresh now chk' a b oka cur
    by (simp add: insert_spec_def Let_def fresh_ids_def find_move_funds account_row_ok_def
        posted_db_def new_transfer_def)
  ultimately show ?thesis using a b cur by (simp add: exec_spec_def)
qed

section \<open>The invariant of the books\<close>

definition booked :: "(int \<Rightarrow> int) \<Rightarrow> db \<Rightarrow> bool" where
  "booked seed d \<longleftrightarrow>
     (\<forall>a \<in> set (accounts d). acc_balance a = seed (acc_id a) + journal d (acc_id a))"

definition conserved :: "db \<Rightarrow> bool" where
  "conserved d \<longleftrightarrow> sum_list (map po_amount (postings d)) = 0"

definition entries_of :: "uuid \<Rightarrow> db \<Rightarrow> (int \<times> int) list" where
  "entries_of tid d =
     map (\<lambda>p. (po_account p, po_amount p)) (filter (\<lambda>p. po_transfer p = tid) (postings d))"

definition double_entry :: "db \<Rightarrow> bool" where
  "double_entry d \<longleftrightarrow>
     (\<forall>t \<in> set (transfers d).
        entries_of (tr_id t) d = [(tr_from t, - tr_amount t), (tr_to t, tr_amount t)])"

definition row_json :: "transfer_row \<Rightarrow> json" where
  "row_json r = JObj
     [(''id'', JStr (tr_id r)), (''idempotency_key'', JStr (tr_key r)),
      (''status'', JStr (transfer_status_text (tr_status r))), (''amount'', JInt (tr_amount r)),
      (''currency'', JStr (tr_currency r)), (''from_account'', JInt (tr_from r)),
      (''to_account'', JInt (tr_to r)), (''created_at'', JTime (tr_created r))]"

definition events_match :: "db \<Rightarrow> bool" where
  "events_match d \<longleftrightarrow>
     map ob_payload (filter (\<lambda>o'. ob_type o' = ''transfer.created'') (outbox d)) =
     map row_json (transfers d)"

definition one_currency :: "db \<Rightarrow> bool" where
  "one_currency d \<longleftrightarrow>
     (\<forall>t \<in> set (transfers d). \<forall>a \<in> set (accounts d).
        acc_id a = tr_from t \<or> acc_id a = tr_to t \<longrightarrow> acc_currency a = tr_currency t)"

definition books_ok :: "(int \<Rightarrow> int) \<Rightarrow> db \<Rightarrow> bool" where
  "books_ok seed d \<longleftrightarrow>
     constraints_ok d \<and> booked seed d \<and> conserved d \<and> double_entry d \<and> events_match d \<and>
     one_currency d"

lemma books_ok_empty: "books_ok seed empty_db"
  by (simp add: books_ok_def constraints_ok_empty)
    (simp add: booked_def conserved_def double_entry_def events_match_def one_currency_def empty_db_def)

section \<open>Posting a transfer keeps the books\<close>

text \<open>A transfer that may be posted: what \<open>exec_spec_Inr\<close> establishes, on the transfer itself.\<close>

definition postable :: "int \<Rightarrow> uuid \<Rightarrow> transfer \<Rightarrow> db \<Rightarrow> bool" where
  "postable pid ev t d \<longleftrightarrow>
     (\<exists>a b. find_account (sint (T_FromAccount t)) d = Some a \<and>
            find_account (sint (T_ToAccount t)) d = Some b \<and>
            T_FromAccount t \<noteq> T_ToAccount t \<and> 0 < sint (T_Amount t) \<and>
            sint (T_Amount t) \<le> acc_balance a \<and> bigint (acc_balance b + sint (T_Amount t)) \<and>
            acc_currency a = T_Currency t \<and> acc_currency b = T_Currency t) \<and>
     fresh_ids (T_ID t) (T_IdempotencyKey t) pid ev d \<and> T_Status t = ''posted''"

text \<open>The part of it that does not look at currencies.\<close>

definition fundable :: "int \<Rightarrow> uuid \<Rightarrow> transfer \<Rightarrow> db \<Rightarrow> bool" where
  "fundable pid ev t d \<longleftrightarrow>
     (\<exists>a b. find_account (sint (T_FromAccount t)) d = Some a \<and>
            find_account (sint (T_ToAccount t)) d = Some b \<and>
            T_FromAccount t \<noteq> T_ToAccount t \<and> 0 < sint (T_Amount t) \<and>
            sint (T_Amount t) \<le> acc_balance a \<and> bigint (acc_balance b + sint (T_Amount t))) \<and>
     fresh_ids (T_ID t) (T_IdempotencyKey t) pid ev d \<and> T_Status t = ''posted''"

lemma postable_fundable: "postable pid ev t d \<Longrightarrow> fundable pid ev t d"
  by (auto simp: postable_def fundable_def)

lemma postable_new:
  "transfer_checks req d \<Longrightarrow> fresh_ids tid key pid ev d \<Longrightarrow>
     postable pid ev (new_transfer tid key (Currency req) req now) d"
  by (simp add: postable_def transfer_checks_def new_transfer_def)

lemma posted_db_frame [simp]:
  "transfers (posted_db pid ev t d) = transfers d @ [transfer_row_of t]"
  "postings (posted_db pid ev t d) = postings d @ [debit_posting pid t, credit_posting pid t]"
  "idem_keys (posted_db pid ev t d) = idem_keys d"
  "outbox (posted_db pid ev t d) =
     outbox d @ [transfer_event ev t (webhook_of (sint (T_ToAccount t)) d)]"
  "accounts (posted_db pid ev t d) =
     accounts (move_funds (sint (T_FromAccount t)) (sint (T_ToAccount t)) (sint (T_Amount t)) d)"
  by (simp_all add: posted_db_def record_transfer_def)

lemma move_funds_rows:
  "a \<in> set (accounts (move_funds f t amt d)) \<longleftrightarrow>
     (\<exists>b \<in> set (accounts d). a = b\<lparr>acc_balance := acc_balance b + funds_delta f t amt (acc_id b)\<rparr>)"
  by (auto simp: move_funds_def)

lemma posted_rows_ok:
  assumes "rows_ok d" and "fundable pid ev t d"
    and "a \<in> set (accounts (posted_db pid ev t d))"
  shows "account_row_ok a"
proof -
  obtain x y where x: "find_account (sint (T_FromAccount t)) d = Some x"
    and y: "find_account (sint (T_ToAccount t)) d = Some y"
    and chk: "0 < sint (T_Amount t)" "sint (T_Amount t) \<le> acc_balance x"
      "bigint (acc_balance y + sint (T_Amount t))"
    using assms(2) by (auto simp: fundable_def)
  from assms(3) obtain b where b: "b \<in> set (accounts d)"
    and a: "a = b\<lparr>acc_balance := acc_balance b + funds_delta (sint (T_FromAccount t))
              (sint (T_ToAccount t)) (sint (T_Amount t)) (acc_id b)\<rparr>"
    by (auto simp: move_funds_rows)
  have "account_row_ok b" using assms(1) b by (simp add: rows_ok_def)
  moreover have "acc_id b = sint (T_FromAccount t) \<Longrightarrow> b = x"
    using find_account_unique [OF _ x b] assms(1) by auto
  moreover have "acc_id b = sint (T_ToAccount t) \<Longrightarrow> b = y"
    using find_account_unique [OF _ y b] assms(1) by auto
  ultimately show ?thesis
    using chk unfolding a account_row_ok_def funds_delta_def by (auto simp: bigint_def)
qed

lemma posted_constraints:
  assumes ok: "constraints_ok d" and p: "fundable pid ev t d"
  shows "constraints_ok (posted_db pid ev t d)"
proof -
  let ?d = "posted_db pid ev t d"
  have ids: "map acc_id (accounts ?d) = map acc_id (accounts d)" by simp
  then have has: "has_account i ?d = has_account i d" for i
    unfolding has_account_def by (metis list.set_map)
  have fresh: "fresh_ids (T_ID t) (T_IdempotencyKey t) pid ev d"
    and chk: "0 < sint (T_Amount t)" "T_FromAccount t \<noteq> T_ToAccount t"
      "has_account (sint (T_FromAccount t)) d" "has_account (sint (T_ToAccount t)) d"
    using p by (auto simp: fundable_def has_account_find)
  have row: "transfer_row_ok (transfer_row_of t)"
    using chk by (simp add: transfer_row_ok_def transfer_row_of_def sint_eq_iff)
  have acc: "\<forall>a \<in> set (accounts ?d). account_row_ok a"
    using posted_rows_ok [OF constraints_rows [OF ok] p] by blast
  show ?thesis
    unfolding constraints_ok_def
  proof (intro conjI)
    show "distinct (map acc_id (accounts ?d))"
      unfolding ids using ok by (simp add: constraints_ok_def)
    show "\<forall>a \<in> set (accounts ?d). account_row_ok a" by (rule acc)
    show "distinct (map tr_id (transfers ?d))"
      using ok fresh by (simp add: constraints_ok_def fresh_ids_def transfer_row_of_def)
    show "distinct (map tr_key (transfers ?d))"
      using ok fresh by (simp add: constraints_ok_def fresh_ids_def transfer_row_of_def)
    show "\<forall>t' \<in> set (transfers ?d). transfer_row_ok t' \<and> has_account (tr_from t') ?d \<and>
        has_account (tr_to t') ?d"
      using ok row chk unfolding has by (auto simp: constraints_ok_def transfer_row_of_def)
    show "distinct (map po_id (postings ?d))"
      using ok fresh by (simp add: constraints_ok_def fresh_ids_def debit_posting_def credit_posting_def)
    show "\<forall>p \<in> set (postings ?d). po_transfer p \<in> tr_id ` set (transfers ?d) \<and>
        has_account (po_account p) ?d"
      using ok chk unfolding has
      by (auto simp: constraints_ok_def transfer_row_of_def debit_posting_def credit_posting_def)
    show "distinct (map ob_id (outbox ?d))"
      using ok fresh by (simp add: constraints_ok_def fresh_ids_def transfer_event_def)
  qed (use ok in \<open>auto simp: constraints_ok_def\<close>)
qed

lemma posted_journal:
  "journal (posted_db pid ev t d) i = journal d i +
     (if sint (T_FromAccount t) = i then - sint (T_Amount t) else 0) +
     (if sint (T_ToAccount t) = i then sint (T_Amount t) else 0)"
  by (simp add: journal_def debit_posting_def credit_posting_def)

lemma posted_entries:
  assumes "constraints_ok d" and "T_ID t \<notin> tr_id ` set (transfers d)"
  shows "entries_of i (posted_db pid ev t d) =
    (if i = T_ID t then [(sint (T_FromAccount t), - sint (T_Amount t)),
                         (sint (T_ToAccount t), sint (T_Amount t))]
     else entries_of i d)"
proof -
  have "filter (\<lambda>p. po_transfer p = T_ID t) (postings d) = []"
  proof -
    have "\<forall>p \<in> set (postings d). po_transfer p \<in> tr_id ` set (transfers d)"
      using assms(1) by (simp add: constraints_ok_def)
    with assms(2) have "\<forall>p \<in> set (postings d). po_transfer p \<noteq> T_ID t" by metis
    then show ?thesis by (simp add: filter_empty_conv)
  qed
  then show ?thesis by (simp add: entries_of_def debit_posting_def credit_posting_def)
qed

text \<open>Everything but the currencies.\<close>

definition sound_books :: "(int \<Rightarrow> int) \<Rightarrow> db \<Rightarrow> bool" where
  "sound_books seed d \<longleftrightarrow>
     constraints_ok d \<and> booked seed d \<and> conserved d \<and> double_entry d \<and> events_match d"

lemma books_ok_sound: "books_ok seed d \<longleftrightarrow> sound_books seed d \<and> one_currency d"
  by (auto simp: books_ok_def sound_books_def)

lemma posted_sound:
  assumes ok: "sound_books seed d" and p: "fundable pid ev t d"
  shows "sound_books seed (posted_db pid ev t d)"
proof -
  let ?d = "posted_db pid ev t d"
  have c: "constraints_ok d" and book: "booked seed d" and cons: "conserved d"
    and ent: "double_entry d" and evs: "events_match d"
    using ok by (auto simp: sound_books_def)
  have st: "T_Status t = ''posted''" and ft: "sint (T_FromAccount t) \<noteq> sint (T_ToAccount t)"
    and fresh: "T_ID t \<notin> tr_id ` set (transfers d)"
    using p by (auto simp: fundable_def sint_eq_iff fresh_ids_def)
  have "booked seed ?d"
    unfolding booked_def posted_journal
  proof
    fix a assume "a \<in> set (accounts ?d)"
    then obtain b where b: "b \<in> set (accounts d)" and a: "a = b\<lparr>acc_balance := acc_balance b +
        funds_delta (sint (T_FromAccount t)) (sint (T_ToAccount t)) (sint (T_Amount t)) (acc_id b)\<rparr>"
      by (auto simp: move_funds_rows)
    from book b have "acc_balance b = seed (acc_id b) + journal d (acc_id b)"
      by (simp add: booked_def)
    then show "acc_balance a = seed (acc_id a) + (journal d (acc_id a) +
        (if sint (T_FromAccount t) = acc_id a then - sint (T_Amount t) else 0) +
        (if sint (T_ToAccount t) = acc_id a then sint (T_Amount t) else 0))"
      using ft unfolding a funds_delta_def by auto
  qed
  moreover have "conserved ?d"
    using cons by (simp add: conserved_def debit_posting_def credit_posting_def)
  moreover have "double_entry ?d"
    using ent fresh posted_entries [OF c fresh]
    by (auto simp: double_entry_def transfer_row_of_def image_iff)
  moreover have "events_match ?d"
    using evs st
    by (simp add: events_match_def transfer_event_def row_json_def transfer_json_def transfer_row_of_def)
  ultimately show ?thesis using posted_constraints [OF c p] by (simp add: sound_books_def)
qed

lemma posted_books:
  assumes ok: "books_ok seed d" and p: "postable pid ev t d"
  shows "books_ok seed (posted_db pid ev t d)"
proof -
  have pk: "pk_ok d" and cur: "one_currency d"
    using ok constraints_pk by (auto simp: books_ok_def)
  obtain x y where x: "find_account (sint (T_FromAccount t)) d = Some x"
    and y: "find_account (sint (T_ToAccount t)) d = Some y"
    and "acc_currency x = T_Currency t" "acc_currency y = T_Currency t"
    using p by (auto simp: postable_def)
  with find_account_unique [OF pk x] find_account_unique [OF pk y] cur
  have "one_currency (posted_db pid ev t d)"
    by (auto simp: one_currency_def transfer_row_of_def move_funds_rows)
  then show ?thesis
    using posted_sound [OF _ postable_fundable [OF p]] ok by (simp add: books_ok_sound)
qed

text \<open>Money is neither made nor lost: the balances sum to the same.\<close>

lemma sum_funds_delta:
  assumes "distinct (map acc_id as)" and "f \<in> acc_id ` set as" and "t \<in> acc_id ` set as" and "f \<noteq> t"
  shows "sum_list (map (\<lambda>a. funds_delta f t amt (acc_id a)) as) = 0"
proof -
  have "sum_list (map (\<lambda>a. funds_delta f t amt (acc_id a)) as) =
      sum_list (map (\<lambda>i. funds_delta f t amt i) (map acc_id as))" by (simp add: comp_def)
  also have "\<dots> = (\<Sum>i \<in> set (map acc_id as). funds_delta f t amt i)"
    by (rule sum_list_distinct_conv_sum_set) (rule assms(1))
  also have "\<dots> = (\<Sum>i \<in> {f, t}. funds_delta f t amt i)"
    using assms by (intro sum.mono_neutral_right) (auto simp: funds_delta_def)
  also have "\<dots> = 0" using assms(4) by (simp add: funds_delta_def)
  finally show ?thesis .
qed

definition total_balance :: "db \<Rightarrow> int" where
  "total_balance d = sum_list (map acc_balance (accounts d))"

lemma posted_total:
  assumes "rows_ok d" and "fundable pid ev t d"
  shows "total_balance (posted_db pid ev t d) = total_balance d"
proof -
  have "sum_list (map (\<lambda>a. funds_delta (sint (T_FromAccount t)) (sint (T_ToAccount t))
      (sint (T_Amount t)) (acc_id a)) (accounts d)) = 0"
  proof (rule sum_funds_delta)
    show "distinct (map acc_id (accounts d))" using assms(1) by (simp add: rows_ok_def pk_ok_def)
    show "sint (T_FromAccount t) \<in> acc_id ` set (accounts d)"
      "sint (T_ToAccount t) \<in> acc_id ` set (accounts d)"
      using assms(2) by (auto simp: fundable_def simp flip: has_account_def simp: has_account_find)
    show "sint (T_FromAccount t) \<noteq> sint (T_ToAccount t)"
      using assms(2) by (auto simp: fundable_def sint_eq_iff)
  qed
  then show ?thesis
    by (simp add: total_balance_def move_funds_def comp_def sum_list_addf)
qed

end
