(* ===== verification/Attempt.thy ===== *)
theory Attempt
  imports Books
begin

text \<open>
  One attempt at a transfer: claim the key, run the body, complete the key, all inside one open
  transaction. The contract \<open>transfer_body\<close> says what the attempt needs of the body; every debit
  strategy provides it. \<open>posts\<close> is the abstract effect of an attempt that is committed.
\<close>

section \<open>The contract of the body\<close>

locale transfer_body =
  fixes body :: "transfer_request \<Rightarrow> (err + transfer) prog"
  assumes confined_body: "confined (body req)"
    and wp_body: "rows_ok d \<Longrightarrow> wp \<sigma> (body req) now d
      (\<lambda>x. \<exists>tid key pid ev. drawn \<sigma> req tid key pid ev \<and> x = exec_spec tid key pid ev req now d)"

sublocale debit_strategy \<subseteq> transfer_body "\<lambda>req. execTxWithDebit req debit"
  by unfold_locales (rule confined_execTxWithDebit, rule wp_execTxWithDebit)

text \<open>The code between \<open>pool.Begin\<close> and the end of the transaction, as \<open>executeOnce\<close> has it.\<close>

definition attempt ::
  "(transfer_request \<Rightarrow> (err + transfer) prog) \<Rightarrow> transfer_request \<Rightarrow>
     (err + stored_response option + transfer) prog" where
  "attempt body req =
     tryp (claim_key_for req) (\<lambda>(won, stored).
       if \<not> won then return (Inl stored)
       else
         tryp (body req) (\<lambda>result.
           tryp (complete_key_for req result) (\<lambda>_. return (Inr result))))"

section \<open>Abstract effect\<close>

text \<open>The key was claimed (or there is none), leaving the tables \<open>d1\<close>.\<close>

definition claimed :: "transfer_request \<Rightarrow> timestamp \<Rightarrow> db \<Rightarrow> db \<Rightarrow> bool" where
  "claimed req now d d1 \<longleftrightarrow>
     (if IdempotencyKey req = [] then d1 = d
      else claim_post (IdempotencyKey req) (RequestHash req) now d (Inr ((True, None), d1)))"

definition complete_for :: "transfer_request \<Rightarrow> transfer \<Rightarrow> db \<Rightarrow> db" where
  "complete_for req t d =
     (if IdempotencyKey req = [] then d
      else finish_key (IdempotencyKey req) 201 (transfer_json t) d)"

definition posts :: "sources \<Rightarrow> transfer_request \<Rightarrow> timestamp \<Rightarrow> db \<Rightarrow> transfer \<Rightarrow> db \<Rightarrow> bool" where
  "posts \<sigma> req now d t d' \<longleftrightarrow>
     now \<in> times_of \<sigma> \<and> (\<exists>d1 d2 tid key pid ev. claimed req now d d1 \<and> drawn \<sigma> req tid key pid ev \<and>
        exec_spec tid key pid ev req now d1 = Inr (t, d2) \<and> d' = complete_for req t d2)"

definition replays :: "transfer_request \<Rightarrow> db \<Rightarrow> stored_response \<Rightarrow> bool" where
  "replays req d s \<longleftrightarrow>
     IdempotencyKey req \<noteq> [] \<and>
     (\<exists>r c. find_key (IdempotencyKey req) d = Some r \<and> ik_hash r = RequestHash req \<and>
        ik_status r = Done \<and> ik_code r = Some c \<and> s = \<lparr>SR_Code = c, SR_Body = ik_body r\<rparr>)"

definition refused :: "sources \<Rightarrow> transfer_request \<Rightarrow> timestamp \<Rightarrow> db \<Rightarrow> err \<Rightarrow> bool" where
  "refused \<sigma> req now d e \<longleftrightarrow>
     now \<in> times_of \<sigma> \<and>
     ((IdempotencyKey req \<noteq> [] \<and>
       claim_post (IdempotencyKey req) (RequestHash req) now d (Inl e)) \<or>
      (\<exists>d1 tid key pid ev. claimed req now d d1 \<and> drawn \<sigma> req tid key pid ev \<and>
         exec_spec tid key pid ev req now d1 = Inl e))"

fun attempt_post ::
  "sources \<Rightarrow> transfer_request \<Rightarrow> timestamp \<Rightarrow> db \<Rightarrow> err + (stored_response option + transfer) \<times> db \<Rightarrow> bool" where
  "attempt_post \<sigma> req now d (Inl e) = refused \<sigma> req now d e"
| "attempt_post \<sigma> req now d (Inr (Inl s, d')) = (d' = d \<and> (\<exists>s'. s = Some s' \<and> replays req d s'))"
| "attempt_post \<sigma> req now d (Inr (Inr t, d')) = posts \<sigma> req now d t d'"

text \<open>A claim touches the key's row only.\<close>

lemma claim_post_won:
  assumes "claim_post key h now d (Inr ((won, s), d1))"
  shows "accounts d1 = accounts d \<and> transfers d1 = transfers d \<and> postings d1 = postings d \<and>
    outbox d1 = outbox d"
  using assms by (auto simp: claim_post_def steal_key_def split: option.splits if_splits)

lemma claim_post_keys:
  assumes "claim_post key h now d (Inr ((won, s), d1))" and "pk_ok d"
  shows "pk_ok d1"
proof -
  have "map ik_key (idem_keys (steal_key key h now d)) = map ik_key (idem_keys d)"
    by (auto simp: steal_key_def)
  with assms claim_post_won [OF assms(1)] show ?thesis
    by (auto simp: claim_post_def pk_ok_def find_key_None new_key_def split: option.splits if_splits)
qed

lemma claimed_frame:
  assumes "claimed req now d d1"
  shows "accounts d1 = accounts d" "transfers d1 = transfers d" "postings d1 = postings d"
    "outbox d1 = outbox d"
  using assms claim_post_won by (auto simp: claimed_def split: if_splits)

lemma claimed_rows_ok: "claimed req now d d1 \<Longrightarrow> rows_ok d \<Longrightarrow> rows_ok d1"
  using claimed_frame [of req now d d1] claim_post_keys
  by (fastforce simp: rows_ok_def claimed_def split: if_splits)

lemma wp_claim_key_for:
  assumes "pk_ok d"
  shows "wp \<sigma> (claim_key_for req) now d (\<lambda>x. case x of
      Inl e \<Rightarrow> IdempotencyKey req \<noteq> [] \<and>
        claim_post (IdempotencyKey req) (RequestHash req) now d (Inl e)
    | Inr ((won, s), d1) \<Rightarrow>
        (if won then claimed req now d d1
         else d1 = d \<and> (\<exists>s'. s = Some s' \<and> replays req d s')))"
proof (cases "IdempotencyKey req = []")
  case True
  then show ?thesis unfolding claim_key_for_def by (auto intro!: wp_Ret simp: claimed_def)
next
  case False
  have "wp \<sigma> (ClaimInTx (IdempotencyKey req) (RequestHash req)) now d
      (claim_post (IdempotencyKey req) (RequestHash req) now d)"
    by (rule wp_ClaimInTx [OF assms])
  then show ?thesis
    unfolding claim_key_for_def if_not_P [OF False]
  proof (rule wp_mono)
    fix x assume x: "claim_post (IdempotencyKey req) (RequestHash req) now d x"
    show "case x of
        Inl e \<Rightarrow> IdempotencyKey req \<noteq> [] \<and>
          claim_post (IdempotencyKey req) (RequestHash req) now d (Inl e)
      | Inr ((won, s), d1) \<Rightarrow>
          (if won then claimed req now d d1
           else d1 = d \<and> (\<exists>s'. s = Some s' \<and> replays req d s'))"
    proof (cases x)
      case (Inl e)
      with x False show ?thesis by simp
    next
      case (Inr y)
      obtain won s d1 where y: "y = ((won, s), d1)" by (cases y) auto
      have "won \<Longrightarrow> s = None" using x Inr y
        by (auto simp: claim_post_def split: option.splits if_splits)
      moreover have "\<not> won \<Longrightarrow> d1 = d \<and> (\<exists>s'. s = Some s' \<and> replays req d s')"
        using x Inr y False key_status.exhaust
        by (auto simp: claim_post_def replays_def split: option.splits if_splits)
      ultimately show ?thesis using x Inr y False by (auto simp: claimed_def)
    qed
  qed
qed

lemma wp_complete_key_for:
  assumes "rfc3339_ok (T_CreatedAt t)"
  shows "wp \<sigma> (complete_key_for req t) now d (\<lambda>x. x = Inr ((), complete_for req t d))"
  using assms wp_Complete [of 201]
  by (auto simp: complete_key_for_def complete_for_def json_Marshal_def int4_def intro!: wp_Ret)

context transfer_body
begin

lemma wp_attempt:
  assumes ok: "rows_ok d" and now: "now \<in> times_of \<sigma>"
  shows "wp \<sigma> (attempt body req) now d (attempt_post \<sigma> req now d)"
  unfolding attempt_def
proof (rule wp_tryp, rule wp_mono [OF wp_claim_key_for], use ok in blast)
  fix x :: "err + (bool \<times> stored_response option) \<times> db"
  assume x: "case x of
      Inl e \<Rightarrow> IdempotencyKey req \<noteq> [] \<and>
        claim_post (IdempotencyKey req) (RequestHash req) now d (Inl e)
    | Inr ((won, s), d1) \<Rightarrow>
        (if won then claimed req now d d1
         else d1 = d \<and> (\<exists>s'. s = Some s' \<and> replays req d s'))"
  let ?f = "\<lambda>(won, stored). if \<not> won then return (Inl stored)
       else tryp (body req) (\<lambda>result.
           tryp (complete_key_for req result) (\<lambda>_. return (Inr result)))"
  have won: "wp \<sigma> (tryp (body req) (\<lambda>result.
           tryp (complete_key_for req result) (\<lambda>_. return (Inr result)))) now d1
         (attempt_post \<sigma> req now d)" if c: "claimed req now d d1" for d1
  proof (rule wp_tryp, rule wp_mono [OF wp_body [OF claimed_rows_ok [OF c ok]]])
    fix y assume "\<exists>tid key pid ev. drawn \<sigma> req tid key pid ev \<and> y = exec_spec tid key pid ev req now d1"
    then obtain tid key pid ev where k: "drawn \<sigma> req tid key pid ev"
      and y: "y = exec_spec tid key pid ev req now d1" by blast
    show "case y of Inl e \<Rightarrow> attempt_post \<sigma> req now d (Inl e)
      | Inr (result, d2) \<Rightarrow> wp \<sigma> (tryp (complete_key_for req result) (\<lambda>_. return (Inr result))) now d2
          (attempt_post \<sigma> req now d)"
    proof (cases y)
      case (Inl e)
      with k y c now have "refused \<sigma> req now d e" unfolding refused_def by metis
      with Inl show ?thesis by simp
    next
      case (Inr p)
      obtain t d2 where p: "p = (t, d2)" by (cases p)
      with Inr y have e: "exec_spec tid key pid ev req now d1 = Inr (t, d2)" by simp
      from exec_spec_Inr [OF claimed_rows_ok [OF c ok] this]
      have rfc: "rfc3339_ok (T_CreatedAt t)" by (auto simp: new_transfer_def)
      have "posts \<sigma> req now d t (complete_for req t d2)"
        unfolding posts_def using c k e now by blast
      then show ?thesis
        using Inr p by (auto intro!: wp_tryp wp_eq [OF wp_complete_key_for [OF rfc]] wp_Ret)
    qed
  qed
  show "case x of Inl e \<Rightarrow> attempt_post \<sigma> req now d (Inl e)
    | Inr (a, d') \<Rightarrow> wp \<sigma> (?f a) now d' (attempt_post \<sigma> req now d)"
    using x won now by (cases x) (auto simp: refused_def intro!: wp_Ret split: if_splits)
qed

lemma confined_attempt: "confined (attempt body req)"
  unfolding attempt_def claim_key_for_def complete_key_for_def
  using confined_body by (auto intro!: confined_tryp split: sum.splits)

end

end
