(* ===== verification/Strategies.thy ===== *)
theory Strategies
  imports Attempt
begin

text \<open>
  The executors: \<open>Execute\<close> (\<open>transfer.go\<close>) and \<open>ExecuteWithForUpdate\<close> (\<open>strategies.go\<close>) run attempts
  in a loop. Both are shown to settle every request: the result says what happened to the committed
  tables, whatever calls fail on the way. \<open>ExecuteOptimistic\<close> is defined here too; theory
  Optimistic treats it.
\<close>

definition maxRetries :: nat where
  "maxRetries = 5"

section \<open>ExecuteWithForUpdate\<close>

text \<open>\<open>lo, hi := req.FromAccount, req.ToAccount; if lo > hi { lo, hi = hi, lo }\<close>\<close>

definition lock_order :: "transfer_request \<Rightarrow> int64 \<times> int64" where
  "lock_order req =
     (if sint (ToAccount req) < sint (FromAccount req) then (ToAccount req, FromAccount req)
      else (FromAccount req, ToAccount req))"

definition retry_or ::
  "err \<Rightarrow> (err + 'a) prog \<Rightarrow> (err + 'a) prog" where
  "retry_or e again = (if isRetriableConflict e then again else fail_with e)"

primrec forUpdate_loop ::
  "nat \<Rightarrow> transfer_request \<Rightarrow> (err + transfer \<times> stored_response option) prog" where
  "forUpdate_loop 0 req = fail_with (NewErr ''too many retries in ExecuteWithForUpdate'')"
| "forUpdate_loop (Suc n) req =
     BeginTx (\<lambda>b. case b of
       Some e \<Rightarrow> fail_with e
     | None \<Rightarrow>
         bindp (claim_key_for req) (\<lambda>r. case r of
           Inl e \<Rightarrow> RollbackTx (retry_or e (forUpdate_loop n req))
         | Inr (won, stored) \<Rightarrow>
             if \<not> won then RollbackTx (return (zero_transfer, stored))
             else
               (case lock_order req of (lo, hi) \<Rightarrow>
                 bindp (exec InTx (LockPair lo hi)) (\<lambda>r. case r of
                   Inl e \<Rightarrow> RollbackTx (retry_or e (forUpdate_loop n req))
                 | Inr _ \<Rightarrow>
                     bindp (execTxWithDebit req debitSelectForUpdate) (\<lambda>r. case r of
                       Inl e \<Rightarrow> RollbackTx (retry_or e (forUpdate_loop n req))
                     | Inr result \<Rightarrow>
                         bindp (complete_key_for req result) (\<lambda>r. case r of
                           Inl e \<Rightarrow> RollbackTx (fail_with e)
                         | Inr _ \<Rightarrow>
                             CommitTx (\<lambda>c. case c of
                               Some e \<Rightarrow> RollbackTx (retry_or e (forUpdate_loop n req))
                             | None \<Rightarrow> return (result, None))))))))"

definition ExecuteWithForUpdate ::
  "transfer_request \<Rightarrow> (err + transfer \<times> stored_response option) prog" where
  "ExecuteWithForUpdate req = forUpdate_loop maxRetries req"

section \<open>ExecuteOptimistic\<close>

primrec optimistic_loop :: "nat \<Rightarrow> transfer_request \<Rightarrow> (err + transfer) prog" where
  "optimistic_loop 0 req = fail_with (NewErr ''too many optimistic retry conflicts'')"
| "optimistic_loop (Suc n) req =
     BeginTx (\<lambda>b. case b of
       Some e \<Rightarrow> fail_with e
     | None \<Rightarrow>
         bindp (query InTx (SelectBalanceVersion (FromAccount req))) (\<lambda>q.
           case scan_int_int (query_row q) of
             Inl e \<Rightarrow>
               if errors_is e ErrNoRows then RollbackTx (fail_with ErrAccountNotFound)
               else RollbackTx (fail_with e)
           | Inr (balance, version) \<Rightarrow>
               if sint balance < sint (Amount req) then RollbackTx (fail_with ErrInsufficientFunds)
               else
                 bindp (exec InTx (DebitIfVersion (Amount req) (FromAccount req) version)) (\<lambda>r. case r of
                   Inl e \<Rightarrow> RollbackTx (retry_or e (optimistic_loop n req))
                 | Inr m \<Rightarrow>
                     if m = 0 then RollbackTx (optimistic_loop n req)
                     else
                       bindp (exec InTx (CreditById (Amount req) (ToAccount req))) (\<lambda>r. case r of
                         Inl e \<Rightarrow> RollbackTx (retry_or e (optimistic_loop n req))
                       | Inr m \<Rightarrow>
                           if m = 0 then RollbackTx (fail_with ErrAccountNotFound)
                           else
                             bindp (insertTransferAndPostings req) (\<lambda>r. case r of
                               Inl e \<Rightarrow> RollbackTx (fail_with e)
                             | Inr result \<Rightarrow>
                                 CommitTx (\<lambda>c. case c of
                                   Some e \<Rightarrow> RollbackTx (retry_or e (optimistic_loop n req))
                                 | None \<Rightarrow> return result))))))"

definition ExecuteOptimistic :: "transfer_request \<Rightarrow> (err + transfer) prog" where
  "ExecuteOptimistic req =
     (if IdempotencyKey req \<noteq> [] then
        fail_with (NewErr
          ''idempotency key not supported by ExecuteOptimistic; use Execute or ExecuteWithForUpdate'')
      else optimistic_loop maxRetries req)"

section \<open>The bodies meet the contract\<close>

definition lock_then_exec :: "transfer_request \<Rightarrow> (err + transfer) prog" where
  "lock_then_exec req =
     (case lock_order req of (lo, hi) \<Rightarrow>
        tryp (exec InTx (LockPair lo hi)) (\<lambda>_. execTxWithDebit req debitSelectForUpdate))"

interpretation for_update: transfer_body lock_then_exec
proof unfold_locales
  show "confined (lock_then_exec req)" for req
    unfolding lock_then_exec_def
    by (auto intro!: confined_tryp select_for_update.confined_execTxWithDebit split: prod.splits)
next
  fix \<sigma> d now and req :: transfer_request
  assume ok: "rows_ok d"
  show "wp \<sigma> (lock_then_exec req) now d
    (\<lambda>x. \<exists>tid key pid ev. drawn \<sigma> req tid key pid ev \<and> x = exec_spec tid key pid ev req now d)"
    unfolding lock_then_exec_def
    using select_for_update.wp_execTxWithDebit [OF ok, of _ req now]
    by (auto intro!: wp_tryp wp_exec simp: stmt_outcome_def sql_lock_pair_def Let_def
        split: prod.splits)
qed

section \<open>Settling a request\<close>

definition lost_reply :: "environ \<Rightarrow> world \<Rightarrow> world \<Rightarrow> bool" where
  "lost_reply orc w w' \<longleftrightarrow> (\<exists>n. calls w \<le> n \<and> n < calls w' \<and> reply_lost orc n)"

lemma lost_reply_right: "lost_reply orc w1 w' \<Longrightarrow> calls w \<le> calls w1 \<Longrightarrow> lost_reply orc w w'"
  unfolding lost_reply_def by (meson order_trans)

text \<open>
  A program settles its request when the result tells what happened: a result \<open>a\<close> stands for a
  committed effect \<open>done\<close>; an error means that nothing changed, unless the reply to a commit was
  lost, in which case the effect may have taken place. The error is one of the refusals unless a
  call was made to fail.
\<close>

definition settles ::
  "(timestamp \<Rightarrow> db \<Rightarrow> 'a \<Rightarrow> db \<Rightarrow> bool) \<Rightarrow> (timestamp \<Rightarrow> db \<Rightarrow> err \<Rightarrow> bool) \<Rightarrow>
     environ \<Rightarrow> world \<Rightarrow> err + 'a \<Rightarrow> world \<Rightarrow> bool" where
  "settles effect refusal orc w r w' \<longleftrightarrow>
     txn w' = None \<and> requests w' = requests w \<and> calls w \<le> calls w' \<and>
     (case r of
        Inl e \<Rightarrow>
          (some_fault orc w w' \<or> (\<exists>now. refusal now (tables w) e)) \<and>
          (tables w' = tables w \<or>
           (lost_reply orc w w' \<and> (\<exists>now a. effect now (tables w) a (tables w'))))
      | Inr a \<Rightarrow> \<exists>now. effect now (tables w) a (tables w'))"

text \<open>A step back to where the program started, with nothing changed.\<close>

definition unchanged :: "world \<Rightarrow> world \<Rightarrow> bool" where
  "unchanged w w' \<longleftrightarrow>
     txn w' = None \<and> tables w' = tables w \<and> requests w' = requests w \<and> calls w \<le> calls w' \<and>
     post_seq w \<le> post_seq w'"

lemma unchanged_refl: "txn w = None \<Longrightarrow> unchanged w w"
  by (simp add: unchanged_def)

lemma settles_later:
  assumes "settles effect refusal orc w1 r w'" and "unchanged w w1"
  shows "settles effect refusal orc w r w'"
proof -
  have c: "calls w \<le> calls w1" using assms(2) by (simp add: unchanged_def)
  show ?thesis
    using assms some_fault_right [OF _ c] lost_reply_right [OF _ c]
    unfolding settles_def unchanged_def by (auto split: sum.splits)
qed

lemma settles_error:
  "unchanged w w' \<Longrightarrow> some_fault orc w w' \<or> refusal now (tables w) e \<Longrightarrow>
     settles effect refusal orc w (Inl e) w'"
  by (auto simp: settles_def unchanged_def)

lemma settles_no_faults:
  assumes "settles effect refusal orc w r w'" and "no_faults orc"
  obtains e now where "r = Inl e" "tables w' = tables w" "refusal now (tables w) e"
  | a now where "r = Inr a" "effect now (tables w) a (tables w')"
  using assms that
  by (cases r) (auto simp: settles_def no_faults_some_fault lost_reply_def reply_lost_def no_faults_def)

text \<open>
  A loop that either settles or, after a retriable failure that changed nothing, goes round again,
  settles.
\<close>

locale retry_loop =
  fixes \<sigma> :: sources
    and loop :: "nat \<Rightarrow> (err + 'a) prog"
    and effect :: "timestamp \<Rightarrow> db \<Rightarrow> 'a \<Rightarrow> db \<Rightarrow> bool"
    and refusal :: "timestamp \<Rightarrow> db \<Rightarrow> err \<Rightarrow> bool"
  assumes out_of_attempts: "\<exists>m. loop 0 = fail_with (NewErr m)"
    and one_round: "txn w = None \<Longrightarrow> rows_ok (tables w) \<Longrightarrow> fits \<sigma> orc w \<Longrightarrow>
      run orc (loop (Suc n)) w = (r, w') \<Longrightarrow>
      settles effect refusal orc w r w' \<or>
      (\<exists>w1. unchanged w w1 \<and> some_fault orc w w1 \<and> run orc (loop n) w1 = (r, w'))"
begin

lemma rounds_settle:
  "txn w = None \<Longrightarrow> rows_ok (tables w) \<Longrightarrow> fits \<sigma> orc w \<Longrightarrow> unchanged w0 w \<Longrightarrow>
     0 < n \<or> some_fault orc w0 w \<Longrightarrow> run orc (loop n) w = (r, w') \<Longrightarrow>
     settles effect refusal orc w0 r w'"
proof (induction n arbitrary: w)
  case 0
  then show ?case using out_of_attempts by (auto intro!: settles_error)
next
  case (Suc n)
  consider "settles effect refusal orc w r w'"
    | w1 where "unchanged w w1" "some_fault orc w w1" "run orc (loop n) w1 = (r, w')"
    using one_round [OF Suc.prems(1-3,6)] by blast
  then show ?case
  proof cases
    case 1
    then show ?thesis using Suc.prems(4) by (rule settles_later)
  next
    case 2
    moreover have "unchanged w0 w1" using 2(1) Suc.prems(4) by (auto simp: unchanged_def)
    moreover have "some_fault orc w0 w1"
      using 2(2) Suc.prems(4) by (auto simp: unchanged_def intro: some_fault_right)
    moreover have "fits \<sigma> orc w1" using 2(1) Suc.prems(3) by (auto simp: unchanged_def fits_def)
    ultimately show ?thesis using Suc.IH [of w1] Suc.prems(2) by (auto simp: unchanged_def)
  qed
qed

lemma loop_settles:
  "txn w = None \<Longrightarrow> rows_ok (tables w) \<Longrightarrow> fits \<sigma> orc w \<Longrightarrow> 0 < n \<Longrightarrow>
     run orc (loop n) w = (r, w') \<Longrightarrow> settles effect refusal orc w r w'"
  using rounds_settle [of w orc w] unchanged_refl by blast

end

text \<open>The outcome of a request: posted now, or answered from the record.\<close>

fun outcome ::
  "sources \<Rightarrow> transfer_request \<Rightarrow> timestamp \<Rightarrow> db \<Rightarrow> transfer \<times> stored_response option \<Rightarrow> db \<Rightarrow> bool" where
  "outcome \<sigma> req now d (t, None) d' = posts \<sigma> req now d t d'"
| "outcome \<sigma> req now d (t, Some s) d' = (d' = d \<and> t = zero_transfer \<and> replays req d s)"

text \<open>
  The end of an attempt: a program confined to the open transaction, with what it has done when it
  succeeds and why it fails otherwise.
\<close>

locale tx_attempt =
  fixes \<sigma> :: sources
    and att :: "(err + 'a) prog"
    and effect :: "timestamp \<Rightarrow> db \<Rightarrow> 'a \<Rightarrow> db \<Rightarrow> bool"
    and refusal :: "timestamp \<Rightarrow> db \<Rightarrow> err \<Rightarrow> bool"
  assumes confined_att: "confined att"
    and wp_att: "rows_ok d \<Longrightarrow> now \<in> times_of \<sigma> \<Longrightarrow> wp \<sigma> att now d
      (\<lambda>x. case x of Inl e \<Rightarrow> refusal now d e | Inr (a, d') \<Rightarrow> effect now d a d')"
begin

lemma att_run:
  assumes w: "txn w = None" and ok: "rows_ok (tables w)" and fit: "fits \<sigma> orc w"
    and b: "begin_tx orc w = (None, w1)" and r: "run orc att w1 = (r, w2)"
  shows "tables w2 = tables w \<and> requests w2 = requests w \<and> calls w < calls w2 \<and>
    post_seq w \<le> post_seq w2 \<and>
    (case r of
       Inl e \<Rightarrow> some_fault orc w w2 \<or> (\<exists>now. refusal now (tables w) e)
     | Inr a \<Rightarrow> \<exists>u now. txn w2 = Some u \<and> \<not> aborted u \<and> effect now (tables w) a (view u))"
proof -
  obtain t0 where t0: "open_tx w1 t0" "view t0 = tables w" "tx_now t0 = o_clock orc (calls w)"
    and w1: "tables w1 = tables w" "requests w1 = requests w" "calls w1 = Suc (calls w)"
    using b that [of "\<lparr>view = tables w, tx_now = o_clock orc (calls w), aborted = False\<rparr>"]
    by (auto simp: begin_tx_def open_tx_def split: option.splits)
  have fr: "tx_frame w1 w2" by (rule confined_frame [OF confined_att r])
  have later: "later w w1" "later w w2"
    using tx_calls_later(1) [OF b] later_trans [OF _ run_later [OF r]] by auto
  have fit1: "fits \<sigma> orc w1" by (rule fits_later [OF fit later(1)])
  have now: "tx_now t0 \<in> times_of \<sigma>" using fit t0(3) by (auto simp: fits_def)
  note wp = wp_att [OF ok now, folded t0(2)]
  have "case r of
       Inl e \<Rightarrow> some_fault orc w w2 \<or> (\<exists>now. refusal now (tables w) e)
     | Inr a \<Rightarrow> \<exists>u now. txn w2 = Some u \<and> \<not> aborted u \<and> effect now (tables w) a (view u)"
  proof (cases r)
    case (Inl e)
    then have "some_fault orc w1 w2 \<or> refusal (tx_now t0) (tables w) e"
      using wp_Inl [OF wp t0(1) fit1] r t0(2) by fastforce
    moreover have "calls w \<le> calls w1" using w1 by simp
    ultimately show ?thesis using Inl some_fault_right by auto
  next
    case (Inr a)
    with wp_Inr [OF wp t0(1) fit1] r obtain d where d: "open_tx w2 (t0\<lparr>view := d\<rparr>)"
      and p: "effect (tx_now t0) (tables w) a d" by (auto simp: t0(2))
    with Inr show ?thesis by (auto simp: open_tx_def)
  qed
  with fr w1 later show ?thesis by (auto simp: tx_frame_def later_def)
qed

lemma commit_att:
  assumes w: "txn w = None" and ok: "rows_ok (tables w)" and fit: "fits \<sigma> orc w"
    and b: "begin_tx orc w = (None, w1)"
    and r: "run orc att w1 = (Inr a, w2)" and c: "commit_tx orc w2 = (c, w3)"
  shows "txn w3 = None \<and> requests w3 = requests w \<and> calls w < calls w3 \<and>
    post_seq w \<le> post_seq w3 \<and>
    (case c of
       None \<Rightarrow> \<exists>now. effect now (tables w) a (tables w3)
     | Some e \<Rightarrow> some_fault orc w w3 \<and>
         (tables w3 = tables w \<or>
          (\<not> isRetriableConflict e \<and> lost_reply orc w w3 \<and>
           (\<exists>now. effect now (tables w) a (tables w3)))))"
proof -
  obtain u now where u: "txn w2 = Some u" "\<not> aborted u" "effect now (tables w) a (view u)"
    and w2: "tables w2 = tables w" "requests w2 = requests w" "calls w < calls w2"
      "post_seq w \<le> post_seq w2"
    using att_run [OF w ok fit b r] by auto
  show ?thesis
  proof (cases "o_fault orc (calls w2)")
    case None
    with c u w2 show ?thesis by (auto simp: commit_tx_def)
  next
    case (Some f)
    then have e: "c = Some (fault_err f)" and "txn w3 = None" "requests w3 = requests w"
      "calls w3 = Suc (calls w2)" "post_seq w3 = post_seq w2"
      and tab: "tables w3 = (if reply_lost orc (calls w2) then view u else tables w)"
      using c u w2 by (auto simp: commit_tx_def split: if_splits)
    moreover have "some_fault orc w w3"
      unfolding some_fault_def using Some \<open>calls w3 = _\<close> w2 by (intro exI [where x = "calls w2"]) auto
    moreover have "reply_lost orc (calls w2) \<Longrightarrow> \<not> isRetriableConflict (fault_err f)"
      using Some by (cases f) (auto simp: reply_lost_def isRetriableConflict_def)
    moreover have "reply_lost orc (calls w2) \<Longrightarrow> lost_reply orc w w3"
      unfolding lost_reply_def using \<open>calls w3 = _\<close> w2 by (intro exI [where x = "calls w2"]) auto
    ultimately show ?thesis using u w2 by auto
  qed
qed

lemma failed_att:
  assumes w: "txn w = None" and ok: "rows_ok (tables w)" and fit: "fits \<sigma> orc w"
    and b: "begin_tx orc w = (None, w1)" and r: "run orc att w1 = (Inl e, w2)"
  shows "unchanged w (rollback_tx w2) \<and>
    (some_fault orc w (rollback_tx w2) \<or> (\<exists>now. refusal now (tables w) e))"
proof -
  have "tables w2 = tables w" "requests w2 = requests w" "calls w < calls w2"
    "post_seq w \<le> post_seq w2" and "some_fault orc w w2 \<or> (\<exists>now. refusal now (tables w) e)"
    using att_run [OF w ok fit b r] by auto
  moreover have "some_fault orc w w2 \<Longrightarrow> some_fault orc w (rollback_tx w2)"
    by (erule some_fault_left) (simp add: rollback_tx_def)
  ultimately show ?thesis by (auto simp: unchanged_def rollback_tx_def)
qed

lemma committed_att:
  assumes w: "txn w = None" and ok: "rows_ok (tables w)" and fit: "fits \<sigma> orc w"
    and b: "begin_tx orc w = (None, w1)"
    and r: "run orc att w1 = (Inr a, w2)" and c: "commit_tx orc w2 = (c, w3)"
    and w': "unchanged w3 w'"
    and up: "\<And>now d d'. effect now d a d' \<Longrightarrow> eff now d x d'"
  shows "case c of
      None \<Rightarrow> settles eff ref orc w (Inr x) w'
    | Some e \<Rightarrow> settles eff ref orc w (Inl e) w' \<and>
        (isRetriableConflict e \<longrightarrow> unchanged w w' \<and> some_fault orc w w')"
proof -
  note run = commit_att [OF w ok fit b r c]
  have calls: "calls w3 \<le> calls w'" using w' by (simp add: unchanged_def)
  show ?thesis
  proof (cases c)
    case None
    with run w' up show ?thesis by (fastforce simp: settles_def unchanged_def)
  next
    case (Some e)
    with run have fault: "some_fault orc w w'" using some_fault_left [OF _ calls] by auto
    have "lost_reply orc w w3 \<Longrightarrow> lost_reply orc w w'"
      using calls by (auto simp: lost_reply_def intro: less_le_trans)
    then have "tables w' = tables w \<or> (lost_reply orc w w' \<and>
        (\<exists>now a. eff now (tables w) a (tables w')))"
      using run Some w' up by (fastforce simp: unchanged_def)
    with fault run Some w' show ?thesis by (auto simp: settles_def unchanged_def)
  qed
qed

end

sublocale transfer_body \<subseteq> tx_attempt \<sigma> "attempt body req"
    "\<lambda>now d x d'. attempt_post \<sigma> req now d (Inr (x, d'))" "refused \<sigma> req" for \<sigma> req
proof unfold_locales
  show "confined (attempt body req)" by (rule confined_attempt)
next
  fix d now
  assume "rows_ok d" and "now \<in> times_of \<sigma>"
  then show "wp \<sigma> (attempt body req) now d (\<lambda>x. case x of
      Inl e \<Rightarrow> refused \<sigma> req now d e | Inr (a, d') \<Rightarrow> attempt_post \<sigma> req now d (Inr (a, d')))"
    by (rule wp_mono [OF wp_attempt]) (auto split: sum.splits)
qed

context transfer_body
begin

lemma replayed_attempt:
  assumes w: "txn w = None" and ok: "rows_ok (tables w)" and fit: "fits \<sigma> orc w"
    and b: "begin_tx orc w = (None, w1)" and r: "run orc (attempt body req) w1 = (Inr (Inl s), w2)"
    and w': "unchanged (rollback_tx w2) w'"
  shows "settles (outcome \<sigma> req) (refused \<sigma> req) orc w (Inr (zero_transfer, s)) w'"
  using att_run [OF w ok fit b r] w'
  by (auto simp: settles_def unchanged_def rollback_tx_def)

lemma committed_attempt:
  assumes w: "txn w = None" and ok: "rows_ok (tables w)" and fit: "fits \<sigma> orc w"
    and b: "begin_tx orc w = (None, w1)"
    and r: "run orc (attempt body req) w1 = (Inr (Inr t), w2)" and c: "commit_tx orc w2 = (c, w3)"
    and w': "unchanged w3 w'"
  shows "case c of
      None \<Rightarrow> settles (outcome \<sigma> req) (refused \<sigma> req) orc w (Inr (t, None)) w'
    | Some e \<Rightarrow> settles (outcome \<sigma> req) (refused \<sigma> req) orc w (Inl e) w' \<and>
        (isRetriableConflict e \<longrightarrow> unchanged w w' \<and> some_fault orc w w')"
  by (rule committed_att [OF w ok fit b r c w']) simp

end

lemma begin_failed:
  "txn w = None \<Longrightarrow> begin_tx orc w = (Some e, w1) \<Longrightarrow> unchanged w w1 \<and> some_fault orc w w1"
  by (auto simp: begin_tx_def unchanged_def some_fault_def split: option.splits)

lemma unchanged_rollback: "txn w = None \<Longrightarrow> unchanged w (rollback_tx w)"
  by (simp add: unchanged_def rollback_tx_def)

lemma unchanged_trans: "unchanged w w1 \<Longrightarrow> unchanged w1 w' \<Longrightarrow> unchanged w w'"
  by (simp add: unchanged_def)

text \<open>No refusal is a conflict: a request that is refused is never tried again.\<close>

lemma claim_refusal_not_retriable:
  "claim_post key h now d (Inl e) \<Longrightarrow> \<not> isRetriableConflict e"
  by (auto simp: claim_post_def isRetriableConflict_def split: option.splits if_splits)

lemma exec_refusal_not_retriable:
  "exec_spec tid key pid ev req now d = Inl e \<Longrightarrow> \<not> isRetriableConflict e"
  by (auto simp: exec_spec_def debit_spec_def credit_spec_def change_balance_def set_balance_def
      insert_spec_def marshal_error_def isRetriableConflict_def Let_def
      split: option.splits if_splits sum.splits)

lemma refused_not_retriable: "refused \<sigma> req now d e \<Longrightarrow> \<not> isRetriableConflict e"
  using claim_refusal_not_retriable exec_refusal_not_retriable unfolding refused_def by blast

section \<open>Execute settles\<close>

interpretation exec_tx: transfer_body execTx
  unfolding execTx_def [abs_def] by (rule conditional_update.transfer_body_axioms)

lemma executeOnce_settles:
  assumes w: "txn w = None" and ok: "rows_ok (tables w)" and fit: "fits \<sigma> orc w"
    and run: "run orc (executeOnce req) w = (r, w')"
  shows "settles (outcome \<sigma> req) (refused \<sigma> req) orc w r w' \<and>
    (\<forall>e. r = Inl e \<and> isRetriableConflict e \<longrightarrow> unchanged w w' \<and> some_fault orc w w')"
proof -
  obtain b w1 where b: "begin_tx orc w = (b, w1)" by fastforce
  show ?thesis
  proof (cases b)
    case (Some e)
    with b run begin_failed [OF w] show ?thesis
      by (auto simp: executeOnce_def intro!: settles_error)
  next
    case None
    note b = b [unfolded None]
    obtain q w2 where q: "run orc (attempt execTx req) w1 = (q, w2)" by fastforce
    have body: "run orc (executeOnce_body req) w1 =
      (case q of
         Inl e \<Rightarrow> (Inl e, w2)
       | Inr (Inl s) \<Rightarrow> (Inr (zero_transfer, s), rollback_tx w2)
       | Inr (Inr t) \<Rightarrow>
           (case commit_tx orc w2 of (Some e, w3) \<Rightarrow> (Inl e, w3) | (None, w3) \<Rightarrow> (Inr (t, None), w3)))"
      using q by (auto simp: executeOnce_body_def attempt_def run_tryp
          split: prod.splits sum.splits if_splits option.splits)
    have r: "(r, w') = (case q of
         Inl e \<Rightarrow> (Inl e, rollback_tx w2)
       | Inr (Inl s) \<Rightarrow> (Inr (zero_transfer, s), rollback_tx (rollback_tx w2))
       | Inr (Inr t) \<Rightarrow>
           (case commit_tx orc w2 of
              (Some e, w3) \<Rightarrow> (Inl e, rollback_tx w3)
            | (None, w3) \<Rightarrow> (Inr (t, None), rollback_tx w3)))"
      using run b body by (auto simp: executeOnce_def run_bindp
          split: prod.splits sum.splits option.splits)
    show ?thesis
    proof (cases q)
      case (Inl e)
      with exec_tx.failed_att [OF w ok fit b q [unfolded Inl]] r show ?thesis
        by (auto intro!: settles_error dest: refused_not_retriable)
    next
      case (Inr x)
      show ?thesis
      proof (cases x)
        case (Inl s)
        have "unchanged (rollback_tx w2) (rollback_tx (rollback_tx w2))"
          by (rule unchanged_rollback) (simp add: rollback_tx_def)
        from exec_tx.replayed_attempt [OF w ok fit b q [unfolded Inr Inl] this] Inl Inr r
        show ?thesis by simp
      next
        case x: (Inr t)
        obtain c w3 where c: "commit_tx orc w2 = (c, w3)" by fastforce
        have "txn w3 = None" using exec_tx.commit_att [OF w ok fit b _ c] q Inr x by auto
        then show ?thesis
          using exec_tx.committed_attempt [OF w ok fit b _ c unchanged_rollback] q Inr x r c
          by (auto split: option.splits)
      qed
    qed
  qed
qed

interpretation execute: retry_loop \<sigma> "\<lambda>n. execute_loop n req" "outcome \<sigma> req" "refused \<sigma> req" for \<sigma> req
proof unfold_locales
  show "\<exists>m. execute_loop 0 req = fail_with (NewErr m)" by simp
next
  fix w orc n r w'
  assume w: "txn w = None" and ok: "rows_ok (tables w)" and fit: "fits \<sigma> orc w"
    and run: "run orc (execute_loop (Suc n) req) w = (r, w')"
  obtain q w1 where q: "run orc (executeOnce req) w = (q, w1)" by fastforce
  with run executeOnce_settles [OF w ok fit q]
  show "settles (outcome \<sigma> req) (refused \<sigma> req) orc w r w' \<or>
      (\<exists>w1. unchanged w w1 \<and> some_fault orc w w1 \<and> run orc (execute_loop n req) w1 = (r, w'))"
    by (auto simp: run_bindp split: sum.splits if_splits)
qed

section \<open>ExecuteWithForUpdate settles\<close>

text \<open>A round of the loop, in terms of its attempt. A failed completion is not retried.\<close>

lemma forUpdate_round:
  assumes b: "begin_tx orc w = (None, w1)"
    and q: "run orc (attempt lock_then_exec req) w1 = (q, w2)"
    and run: "run orc (forUpdate_loop (Suc n) req) w = (r, w')"
  shows "case q of
      Inl e \<Rightarrow> (r, w') = (Inl e, rollback_tx w2) \<or>
        (isRetriableConflict e \<and> run orc (forUpdate_loop n req) (rollback_tx w2) = (r, w'))
    | Inr (Inl s) \<Rightarrow> (r, w') = (Inr (zero_transfer, s), rollback_tx w2)
    | Inr (Inr t) \<Rightarrow>
        (case commit_tx orc w2 of
           (None, w3) \<Rightarrow> (r, w') = (Inr (t, None), w3)
         | (Some e, w3) \<Rightarrow>
             if isRetriableConflict e then run orc (forUpdate_loop n req) (rollback_tx w3) = (r, w')
             else (r, w') = (Inl e, rollback_tx w3))"
  using assms
  by (auto simp: attempt_def lock_then_exec_def retry_or_def run_bindp run_tryp
      split: prod.splits sum.splits if_splits option.splits)

interpretation forUpdate: retry_loop \<sigma> "\<lambda>n. forUpdate_loop n req" "outcome \<sigma> req" "refused \<sigma> req" for \<sigma> req
proof unfold_locales
  show "\<exists>m. forUpdate_loop 0 req = fail_with (NewErr m)" by simp
next
  fix w orc n r w'
  assume w: "txn w = None" and ok: "rows_ok (tables w)" and fit: "fits \<sigma> orc w"
    and run: "run orc (forUpdate_loop (Suc n) req) w = (r, w')"
  let ?settles = "settles (outcome \<sigma> req) (refused \<sigma> req) orc w r w'"
  let ?again = "\<exists>w1. unchanged w w1 \<and> some_fault orc w w1 \<and> run orc (forUpdate_loop n req) w1 = (r, w')"
  obtain b w1 where b: "begin_tx orc w = (b, w1)" by fastforce
  show "?settles \<or> ?again"
  proof (cases b)
    case (Some e)
    with b run begin_failed [OF w] show ?thesis by (auto intro!: settles_error)
  next
    case None
    note b = b [unfolded None]
    obtain q w2 where q: "run orc (attempt lock_then_exec req) w1 = (q, w2)" by fastforce
    note round = forUpdate_round [OF b q run]
    consider e where "q = Inl e" | s where "q = Inr (Inl s)" | t where "q = Inr (Inr t)"
      by (metis sum.exhaust)
    then show ?thesis
    proof cases
      case (1 e)
      with for_update.failed_att [OF w ok fit b q [unfolded 1]] round show ?thesis
        by (auto intro: settles_error dest: refused_not_retriable)
    next
      case (2 s)
      have "unchanged (rollback_tx w2) (rollback_tx w2)"
        by (simp add: unchanged_def rollback_tx_def)
      from for_update.replayed_attempt [OF w ok fit b q [unfolded 2] this] 2 round show ?thesis by simp
    next
      case (3 t)
      obtain c w3 where c: "commit_tx orc w2 = (c, w3)" by fastforce
      have "txn w3 = None" using for_update.commit_att [OF w ok fit b q [unfolded 3] c] by simp
      then have "unchanged w3 w3" "unchanged w3 (rollback_tx w3)"
        by (simp_all add: unchanged_refl unchanged_rollback)
      then show ?thesis
        using for_update.committed_attempt [OF w ok fit b q [unfolded 3] c] 3 round c
        by (fastforce split: option.splits if_splits)
    qed
  qed
qed

end
