(* ===== verification/ExactlyOnce.thy ===== *)
theory ExactlyOnce
  imports Strategies
begin

text \<open>
  What a settled request means for the ledger. \<open>ledger_ok seed d\<close> is the invariant between
  transactions: the books are in order and every idempotency key is done and records the transfer
  that was posted under it. Posting keeps the invariant; a key that is on record is never posted
  again, and answers every later request with the response of the first.
\<close>

section \<open>The invariant\<close>

definition done_row :: "transfer_request \<Rightarrow> transfer \<Rightarrow> key_row" where
  "done_row req t =
     \<lparr>ik_key = IdempotencyKey req, ik_hash = RequestHash req, ik_status = Done, ik_code = Some 201,
      ik_body = Some (transfer_json t), ik_created = T_CreatedAt t, ik_claimed = T_CreatedAt t\<rparr>"

text \<open>A committed key is done, with the status 201 and the transfer posted under the key.\<close>

definition key_settled :: "db \<Rightarrow> key_row \<Rightarrow> bool" where
  "key_settled d k \<longleftrightarrow>
     ik_status k = Done \<and> ik_code k = Some 201 \<and>
     (\<exists>t \<in> set (transfers d). tr_key t = ik_key k \<and> ik_body k = Some (row_json t))"

definition keys_settled :: "db \<Rightarrow> bool" where
  "keys_settled d \<longleftrightarrow> (\<forall>k \<in> set (idem_keys d). key_settled d k)"

definition ledger_ok :: "(int \<Rightarrow> int) \<Rightarrow> db \<Rightarrow> bool" where
  "ledger_ok seed d \<longleftrightarrow> books_ok seed d \<and> keys_settled d"

lemma ledger_ok_empty: "ledger_ok seed empty_db"
  using books_ok_empty [of seed] by (simp add: ledger_ok_def keys_settled_def empty_db_def)

lemma ledger_rows_ok: "ledger_ok seed d \<Longrightarrow> rows_ok d"
  by (simp add: ledger_ok_def books_ok_def constraints_rows)

lemma keys_settled_find: "keys_settled d \<Longrightarrow> find_key k d = Some r \<Longrightarrow> key_settled d r"
  by (auto simp: keys_settled_def dest: find_key_Some)

section \<open>The effect of posting\<close>

text \<open>The tables after the transfer \<open>t\<close> of the request is posted.\<close>

definition post :: "int \<Rightarrow> uuid \<Rightarrow> transfer_request \<Rightarrow> transfer \<Rightarrow> db \<Rightarrow> db" where
  "post pid ev req t d = (posted_db pid ev t d)
     \<lparr>idem_keys := idem_keys d @ (if IdempotencyKey req = [] then [] else [done_row req t])\<rparr>"

definition may_post :: "transfer_request \<Rightarrow> timestamp \<Rightarrow> int \<Rightarrow> uuid \<Rightarrow> transfer \<Rightarrow> db \<Rightarrow> bool" where
  "may_post req now pid ev t d \<longleftrightarrow>
     postable pid ev t d \<and> rfc3339_ok now \<and> (IdempotencyKey req \<noteq> [] \<longrightarrow> T_IdempotencyKey t = IdempotencyKey req) \<and>
     t = new_transfer (T_ID t) (T_IdempotencyKey t) (Currency req) req now \<and>
     (IdempotencyKey req \<noteq> [] \<longrightarrow> find_key (IdempotencyKey req) d = None)"

lemma new_transfer_sel [simp]:
  "T_ID (new_transfer tid key c req now) = tid"
  "T_IdempotencyKey (new_transfer tid key c req now) = key"
  "T_CreatedAt (new_transfer tid key c req now) = now"
  "T_Amount (new_transfer tid key c req now) = Amount req"
  "T_FromAccount (new_transfer tid key c req now) = FromAccount req"
  "T_ToAccount (new_transfer tid key c req now) = ToAccount req"
  "T_Currency (new_transfer tid key c req now) = c"
  by (simp_all add: new_transfer_def)

lemma rows_ok_keys: "rows_ok d \<Longrightarrow> distinct (map ik_key ks) \<Longrightarrow> rows_ok (d\<lparr>idem_keys := ks\<rparr>)"
  by (simp add: rows_ok_def pk_ok_def)

lemma transfer_checks_keys: "transfer_checks req (d\<lparr>idem_keys := ks\<rparr>) = transfer_checks req d"
  by (simp add: transfer_checks_def)

lemma fresh_ids_keys: "fresh_ids tid key pid ev (d\<lparr>idem_keys := ks\<rparr>) = fresh_ids tid key pid ev d"
  by (simp add: fresh_ids_def)

lemma posted_db_keys:
  "posted_db pid ev t (d\<lparr>idem_keys := ks\<rparr>) = (posted_db pid ev t d)\<lparr>idem_keys := ks\<rparr>"
  by (simp add: posted_db_def record_transfer_def move_funds_def webhook_of_def find_account_def)

lemma finish_new_key:
  assumes "find_key (IdempotencyKey req) d = None" and "IdempotencyKey req \<noteq> []"
    and "idem_keys d' = idem_keys d @ [new_key (IdempotencyKey req) (RequestHash req) (T_CreatedAt t)]"
  shows "complete_for req t d' = d'\<lparr>idem_keys := idem_keys d @ [done_row req t]\<rparr>"
proof -
  have "map (\<lambda>r. if ik_key r = IdempotencyKey req
      then r\<lparr>ik_status := Done, ik_code := Some 201, ik_body := Some (transfer_json t)\<rparr> else r)
    (idem_keys d) = idem_keys d"
    using assms(1) by (intro map_idI) (auto simp: find_key_None image_iff)
  with assms show ?thesis by (simp add: complete_for_def finish_key_def new_key_def done_row_def)
qed

text \<open>With every key settled, a claim can only succeed on a new key.\<close>

lemma claimed_settled:
  assumes "claimed req now d d1" and "keys_settled d"
  shows "if IdempotencyKey req = [] then d1 = d
    else find_key (IdempotencyKey req) d = None \<and>
      d1 = d\<lparr>idem_keys := idem_keys d @ [new_key (IdempotencyKey req) (RequestHash req) now]\<rparr>"
proof (cases "find_key (IdempotencyKey req) d")
  case None
  with assms show ?thesis by (auto simp: claimed_def claim_post_def split: if_splits)
next
  case (Some r)
  with keys_settled_find [OF assms(2)] have "ik_status r = Done" by (simp add: key_settled_def)
  with Some assms(1) show ?thesis
    by (auto simp: claimed_def claim_post_def split: if_splits option.splits)
qed

lemma posts_post:
  assumes ok: "rows_ok d" and keys: "keys_settled d" and p: "posts \<sigma> req now d t d'"
  shows "\<exists>pid ev. may_post req now pid ev t d \<and> d' = post pid ev req t d"
proof -
  obtain d1 d2 tid key pid ev where c: "claimed req now d d1" and k: "drawn \<sigma> req tid key pid ev"
    and x: "exec_spec tid key pid ev req now d1 = Inr (t, d2)" and d': "d' = complete_for req t d2"
    using p by (auto simp: posts_def)
  have res: "transfer_checks req d1" "fresh_ids tid key pid ev d1" "rfc3339_ok now"
    "t = new_transfer tid key (Currency req) req now" "d2 = posted_db pid ev t d1"
    using exec_spec_Inr [OF claimed_rows_ok [OF c ok] x] by auto
  have now: "T_CreatedAt t = now" using res(4) by simp
  show ?thesis
  proof (cases "IdempotencyKey req = []")
    case True
    with claimed_settled [OF c keys] have "d1 = d" by simp
    with True res k d' postable_new [OF res(1,2), of now] show ?thesis
      by (auto simp: may_post_def post_def complete_for_def drawn_def
          intro!: exI [where x = pid] exI [where x = ev])
  next
    case False
    let ?ks = "idem_keys d @ [new_key (IdempotencyKey req) (RequestHash req) now]"
    from False claimed_settled [OF c keys] have none: "find_key (IdempotencyKey req) d = None"
      and d1: "d1 = d\<lparr>idem_keys := ?ks\<rparr>" by auto
    have "postable pid ev t d"
      using res postable_new by (simp add: d1 transfer_checks_keys fresh_ids_keys)
    moreover have "d' = post pid ev req t d"
      unfolding d' res(5) d1 posted_db_keys
      using finish_new_key [OF none False, where t = t] False now
      by (simp add: post_def)
    ultimately show ?thesis
      using k none res(3,4) False by (auto simp: may_post_def drawn_def)
  qed
qed

text \<open>Posting keeps the invariant.\<close>

lemma row_json_transfer: "T_Status t = ''posted'' \<Longrightarrow> row_json (transfer_row_of t) = transfer_json t"
  by (simp add: row_json_def transfer_row_of_def transfer_json_def)

lemma books_ok_keys:
  assumes "books_ok seed d" and "distinct (map ik_key ks)" and "\<forall>k \<in> set ks. key_row_ok k"
  shows "books_ok seed (d\<lparr>idem_keys := ks\<rparr>)"
  using assms
  by (simp add: books_ok_def constraints_ok_def has_account_def booked_def journal_def conserved_def
      double_entry_def entries_of_def events_match_def one_currency_def)

lemma key_settled_row_ok: "key_settled d k \<Longrightarrow> key_row_ok k"
  by (simp add: key_settled_def key_row_ok_def)

lemma post_keys_settled:
  assumes "keys_settled d" and "may_post req now pid ev t d"
  shows "keys_settled (post pid ev req t d)"
proof -
  have "T_Status t = ''posted''" using assms(2) by (simp add: may_post_def postable_def)
  moreover have "T_IdempotencyKey t = IdempotencyKey req" if "IdempotencyKey req \<noteq> []"
    using that assms(2) by (simp add: may_post_def)
  ultimately show ?thesis
    using assms(1)
    by (auto simp: keys_settled_def key_settled_def post_def done_row_def row_json_transfer)
      (auto simp: transfer_row_of_def)
qed

lemma post_ledger_ok:
  assumes ok: "ledger_ok seed d" and p: "may_post req now pid ev t d"
  shows "ledger_ok seed (post pid ev req t d)"
proof -
  have books: "books_ok seed d" and keys: "keys_settled d" using ok by (auto simp: ledger_ok_def)
  have keys': "keys_settled (post pid ev req t d)" by (rule post_keys_settled [OF keys p])
  have "books_ok seed (posted_db pid ev t d)"
    using p by (intro posted_books [OF books]) (simp add: may_post_def)
  moreover have "distinct (map ik_key (idem_keys (post pid ev req t d)))"
    using books p
    by (auto simp: books_ok_def constraints_ok_def post_def may_post_def done_row_def find_key_None)
  moreover have "\<forall>k \<in> set (idem_keys (post pid ev req t d)). key_row_ok k"
    using keys' by (auto simp: keys_settled_def dest: key_settled_row_ok)
  ultimately have "books_ok seed ((posted_db pid ev t d)\<lparr>idem_keys := idem_keys (post pid ev req t d)\<rparr>)"
    by (rule books_ok_keys)
  then show ?thesis using keys' by (simp add: ledger_ok_def post_def)
qed

lemma post_total:
  assumes "rows_ok d" and "may_post req now pid ev t d"
  shows "total_balance (post pid ev req t d) = total_balance d"
proof -
  have "total_balance (posted_db pid ev t d) = total_balance d"
    using posted_total [OF assms(1) postable_fundable] assms(2) by (auto simp: may_post_def)
  then show ?thesis by (simp add: post_def total_balance_def)
qed

section \<open>A key on record\<close>

definition posted_once :: "transfer_request \<Rightarrow> db \<Rightarrow> transfer \<Rightarrow> db \<Rightarrow> bool" where
  "posted_once req d t d' \<longleftrightarrow>
     (\<exists>now pid ev. may_post req now pid ev t d \<and> d' = post pid ev req t d)"

definition response_of :: "transfer \<Rightarrow> stored_response" where
  "response_of t = \<lparr>SR_Code = 201, SR_Body = Some (transfer_json t)\<rparr>"

text \<open>The key of the request is on record with the response \<open>s\<close> and the request's hash.\<close>

lemma posted_on_record:
  assumes "posted_once req d t d'" and "IdempotencyKey req \<noteq> []"
  shows "find_key (IdempotencyKey req) d' = Some (done_row req t) \<and>
    replays req d' (response_of t)"
proof -
  have "find_key (IdempotencyKey req) d' = Some (done_row req t)"
    using assms
    by (auto simp: posted_once_def may_post_def post_def find_key_def done_row_def find_append)
  then show ?thesis using assms(2) by (simp add: replays_def response_of_def done_row_def)
qed

lemma replays_unique: "replays req d s \<Longrightarrow> replays req d s' \<Longrightarrow> s = s'"
  by (auto simp: replays_def)

lemma on_record_not_posted:
  "replays req d s \<Longrightarrow> \<not> posted_once req d t d'"
  by (auto simp: replays_def posted_once_def may_post_def)

lemma on_record_not_refused:
  assumes "replays req d s" and "keys_settled d"
  shows "\<not> refused \<sigma> req now d e"
proof -
  have "\<not> claim_post (IdempotencyKey req) (RequestHash req) now d (Inl e)"
    using assms(1) by (auto simp: replays_def claim_post_def)
  moreover have "\<not> claimed req now d d1" for d1
    using claimed_settled [OF _ assms(2)] assms(1) by (fastforce simp: replays_def)
  ultimately show ?thesis by (auto simp: refused_def)
qed

section \<open>Executors\<close>

text \<open>
  What the rest of the development needs of an executor: every request is settled. \<open>invalid\<close> are
  the requests turned down before the tables are looked at.
\<close>

definition invalid :: "transfer_request \<Rightarrow> err \<Rightarrow> bool" where
  "invalid req e \<longleftrightarrow>
     (sint (Amount req) \<le> 0 \<and> e = ErrInvalidAmount) \<or>
     (FromAccount req = ToAccount req \<and> e = ErrSameAccount) \<or>
     (length (Currency req) \<noteq> 3 \<and> e = ErrInvalidCurrency)"

locale executor =
  fixes exec :: "transfer_request \<Rightarrow> (err + transfer \<times> stored_response option) prog"
  assumes exec_settles: "txn w = None \<Longrightarrow> rows_ok (tables w) \<Longrightarrow> fits \<sigma> orc w \<Longrightarrow> run orc (exec req) w = (r, w') \<Longrightarrow>
    settles (outcome \<sigma> req) (\<lambda>now d e. refused \<sigma> req now d e \<or> invalid req e) orc w r w'"
begin

text \<open>What a call of the executor has done to the tables.\<close>

lemma exec_effect:
  assumes w: "txn w = None" and ok: "ledger_ok seed (tables w)"
    and run: "run orc (exec req) w = (r, w')"
  shows "case r of
      Inl e \<Rightarrow> tables w' = tables w \<or>
        (lost_reply orc w w' \<and> (\<exists>t. posted_once req (tables w) t (tables w')))
    | Inr (t, None) \<Rightarrow> posted_once req (tables w) t (tables w')
    | Inr (t, Some s) \<Rightarrow> tables w' = tables w \<and> t = zero_transfer \<and> replays req (tables w) s"
proof -
  define \<sigma> where "\<sigma> = sources_of orc w"
  note rows = ledger_rows_ok [OF ok]
  have s: "settles (outcome \<sigma> req) (\<lambda>now d e. refused \<sigma> req now d e \<or> invalid req e) orc w r w'"
    unfolding \<sigma>_def by (rule exec_settles [OF w rows fits_sources_of run])
  have posted: "posted_once req (tables w) t (tables w')" if "posts \<sigma> req now (tables w) t (tables w')"
    for now t
    using posts_post [OF rows _ that] ok by (auto simp: posted_once_def ledger_ok_def)
  show ?thesis
  proof (cases r)
    case (Inl e)
    have "tables w' = tables w \<or> (\<exists>t. posted_once req (tables w) t (tables w'))"
      if "outcome \<sigma> req now (tables w) a (tables w')" for now a
      using that posted by (cases "(\<sigma>, req, now, tables w, a, tables w')" rule: outcome.cases) auto
    with s Inl show ?thesis by (auto simp: settles_def)
  next
    case (Inr x)
    with s posted show ?thesis
      by (cases x) (auto simp: settles_def split: option.splits)
  qed
qed

lemma exec_tables:
  assumes "txn w = None" and "ledger_ok seed (tables w)" and "run orc (exec req) w = (r, w')"
  shows "tables w' = tables w \<or> (\<exists>t. posted_once req (tables w) t (tables w'))"
  using exec_effect [OF assms] by (auto split: sum.splits option.splits)

lemma exec_keeps_ledger:
  assumes "txn w = None" and "ledger_ok seed (tables w)" and "run orc (exec req) w = (r, w')"
  shows "txn w' = None \<and> ledger_ok seed (tables w') \<and>
    total_balance (tables w') = total_balance (tables w)"
proof -
  have "txn w' = None"
    using exec_settles [OF assms(1) ledger_rows_ok [OF assms(2)] fits_sources_of assms(3)] by (simp add: settles_def)
  then show ?thesis
    using exec_tables [OF assms] assms(2) post_ledger_ok post_total [OF ledger_rows_ok [OF assms(2)]]
    by (auto simp: posted_once_def)
qed

text \<open>A key on record answers the request, and nothing is posted.\<close>

lemma exec_replays:
  assumes w: "txn w = None" and ok: "ledger_ok seed (tables w)"
    and rec: "replays req (tables w) s" and run: "run orc (exec req) w = (r, w')"
  shows "tables w' = tables w \<and>
    (case r of
       Inl e \<Rightarrow> some_fault orc w w' \<or> invalid req e
     | Inr x \<Rightarrow> x = (zero_transfer, Some s))"
proof -
  define \<sigma> where "\<sigma> = sources_of orc w"
  have "settles (outcome \<sigma> req) (\<lambda>now d e. refused \<sigma> req now d e \<or> invalid req e) orc w r w'"
    unfolding \<sigma>_def by (rule exec_settles [OF w ledger_rows_ok [OF ok] fits_sources_of run])
  moreover have "\<not> refused \<sigma> req now (tables w) e" for now e
    using on_record_not_refused [OF rec] ok by (simp add: ledger_ok_def)
  ultimately have "r = Inl e \<Longrightarrow> some_fault orc w w' \<or> invalid req e" for e
    by (auto simp: settles_def)
  then show ?thesis
    using exec_effect [OF w ok run] on_record_not_posted [OF rec] replays_unique [OF rec]
    by (auto split: sum.splits option.splits)
qed

end

interpretation execute: executor Execute
proof unfold_locales
  fix w \<sigma> orc req r w'
  assume w: "txn w = None" and ok: "rows_ok (tables w)" and fit: "fits \<sigma> orc w"
    and run: "run orc (Execute req) w = (r, w')"
  show "settles (outcome \<sigma> req) (\<lambda>now d e. refused \<sigma> req now d e \<or> invalid req e) orc w r w'"
  proof (cases "\<exists>e. Execute req = fail_with e \<and> invalid req e")
    case True
    with run w show ?thesis by (auto intro!: settles_error simp: unchanged_refl)
  next
    case False
    then have "Execute req = execute_loop maxDeadlockRetries req"
      by (auto simp: Execute_def invalid_def split: if_splits)
    with run have "settles (outcome \<sigma> req) (refused \<sigma> req) orc w r w'"
      by (intro execute.loop_settles [OF w ok fit]) (auto simp: maxDeadlockRetries_def)
    then show ?thesis unfolding settles_def by (auto split: sum.splits)
  qed
qed

interpretation forUpdate: executor ExecuteWithForUpdate
proof unfold_locales
  fix w \<sigma> orc req r w'
  assume w: "txn w = None" and ok: "rows_ok (tables w)" and fit: "fits \<sigma> orc w"
    and run: "run orc (ExecuteWithForUpdate req) w = (r, w')"
  then have "settles (outcome \<sigma> req) (refused \<sigma> req) orc w r w'"
    by (intro forUpdate.loop_settles [OF w ok fit]) (auto simp: ExecuteWithForUpdate_def maxRetries_def)
  then show "settles (outcome \<sigma> req) (\<lambda>now d e. refused \<sigma> req now d e \<or> invalid req e) orc w r w'"
    unfolding settles_def by (auto split: sum.splits)
qed

section \<open>A client that tries again\<close>

text \<open>
  The two executors with idempotency, by the name of their debit: Fix A and Fix B. A client may
  send one request any number of times, to either of them.
\<close>

datatype strategy = ConditionalUpdate | SelectForUpdate

primrec execute_by ::
  "strategy \<Rightarrow> transfer_request \<Rightarrow> (err + transfer \<times> stored_response option) prog" where
  "execute_by ConditionalUpdate req = Execute req"
| "execute_by SelectForUpdate req = ExecuteWithForUpdate req"

interpretation by_strategy: executor "execute_by s" for s
  by unfold_locales
    (cases s; auto intro: execute.exec_settles forUpdate.exec_settles)

primrec client_tries ::
  "transfer_request \<Rightarrow> (strategy \<times> environ) list \<Rightarrow> world \<Rightarrow>
     (err + transfer \<times> stored_response option) list \<times> world" where
  "client_tries req [] w = ([], w)"
| "client_tries req (se # ses) w =
     (case run (snd se) (execute_by (fst se) req) w of (r, w1) \<Rightarrow>
       (case client_tries req ses w1 of (rs, w') \<Rightarrow> (r # rs, w')))"

lemma tries_on_record:
  assumes "txn w = None" and "ledger_ok seed (tables w)" and "replays req (tables w) s"
    and "client_tries req ses w = (rs, w')"
  shows "tables w' = tables w \<and> (\<forall>x. Inr x \<in> set rs \<longrightarrow> x = (zero_transfer, Some s))"
  using assms
proof (induction ses arbitrary: w rs)
  case Nil
  then show ?case by simp
next
  case (Cons se ses)
  obtain r w1 where r: "run (snd se) (execute_by (fst se) req) w = (r, w1)" by fastforce
  obtain rs1 where rs: "client_tries req ses w1 = (rs1, w')" "rs = r # rs1"
    using Cons.prems(4) r by (auto split: prod.splits)
  note once = by_strategy.exec_replays [OF Cons.prems(1,2,3) r]
  moreover have "txn w1 = None" "ledger_ok seed (tables w1)"
    using by_strategy.exec_keeps_ledger [OF Cons.prems(1,2) r] by auto
  ultimately show ?case using Cons.IH [of w1 rs1] Cons.prems(3) rs by auto
qed

definition settled_once ::
  "transfer_request \<Rightarrow> db \<Rightarrow> (err + transfer \<times> stored_response option) set \<Rightarrow> db \<Rightarrow> bool" where
  "settled_once req d X d' \<longleftrightarrow>
     (d' = d \<and> (\<forall>x. Inr x \<notin> X)) \<or>
     (\<exists>t. posted_once req d t d' \<and>
        (\<forall>x. Inr x \<in> X \<longrightarrow> x = (t, None) \<or> x = (zero_transfer, Some (response_of t))))"

lemma settled_once_insert:
  "settled_once req d X d' \<Longrightarrow> \<forall>x. r \<noteq> Inr x \<Longrightarrow> settled_once req d (insert r X) d'"
  unfolding settled_once_def by blast

lemma tries_post_once:
  assumes "txn w = None" and "ledger_ok seed (tables w)" and "IdempotencyKey req \<noteq> []"
    and "find_key (IdempotencyKey req) (tables w) = None"
    and "client_tries req ses w = (rs, w')"
  shows "settled_once req (tables w) (set rs) (tables w')"
  using assms
proof (induction ses arbitrary: w rs)
  case Nil
  then show ?case by (simp add: settled_once_def)
next
  case (Cons se ses)
  obtain r w1 where r: "run (snd se) (execute_by (fst se) req) w = (r, w1)" by fastforce
  obtain rs1 where rs: "client_tries req ses w1 = (rs1, w')" "rs = r # rs1"
    using Cons.prems(5) r by (auto split: prod.splits)
  have w1: "txn w1 = None" "ledger_ok seed (tables w1)"
    using by_strategy.exec_keeps_ledger [OF Cons.prems(1,2) r] by auto
  note eff = by_strategy.exec_effect [OF Cons.prems(1,2) r]
  have new: "\<not> replays req (tables w) s" for s using Cons.prems(4) by (simp add: replays_def)
  consider "tables w1 = tables w" "\<forall>x. r \<noteq> Inr x"
    | t where "posted_once req (tables w) t (tables w1)" "\<forall>x. r = Inr x \<longrightarrow> x = (t, None)"
    using eff new by (auto split: sum.splits option.splits)
  then show ?case
  proof cases
    case 1
    then have "settled_once req (tables w) (set rs1) (tables w')"
      using Cons.IH [OF w1 Cons.prems(3) _ rs(1)] Cons.prems(4) by simp
    with 1(2) rs(2) show ?thesis by (simp add: settled_once_insert)
  next
    case (2 t)
    from tries_on_record [OF w1 _ rs(1)] posted_on_record [OF 2(1) Cons.prems(3)]
    have "tables w' = tables w1" "\<forall>x. Inr x \<in> set rs1 \<longrightarrow> x = (zero_transfer, Some (response_of t))"
      by auto
    with 2 rs(2) show ?thesis
      unfolding settled_once_def by (intro disjI2 exI [where x = t]) auto
  qed
qed

section \<open>Refusals\<close>

text \<open>With the ledger in order, these are the only refusals of a request.\<close>

definition refusal_reason :: "transfer_request \<Rightarrow> db \<Rightarrow> err \<Rightarrow> bool" where
  "refusal_reason req d e \<longleftrightarrow>
     (e = ErrDuplicateRequest \<and>
        (\<exists>k. find_key (IdempotencyKey req) d = Some k \<and> ik_hash k \<noteq> RequestHash req)) \<or>
     (e = ErrAccountNotFound \<and>
        (find_account (sint (FromAccount req)) d = None \<or> find_account (sint (ToAccount req)) d = None)) \<or>
     (e = ErrCurrencyMismatch \<and>
        (\<exists>a b. find_account (sint (FromAccount req)) d = Some a \<and>
           find_account (sint (ToAccount req)) d = Some b \<and>
           (acc_currency a \<noteq> Currency req \<or> acc_currency b \<noteq> Currency req))) \<or>
     (e = ErrInsufficientFunds \<and>
        (\<exists>a. find_account (sint (FromAccount req)) d = Some a \<and>
           acc_balance a < sint (Amount req))) \<or>
     (e = check_violation \<and> (sint (Amount req) \<le> 0 \<or> FromAccount req = ToAccount req)) \<or>
     e \<in> {numeric_out_of_range, unique_violation, marshal_error}"

lemma refusal_reason_keys: "refusal_reason req (d\<lparr>idem_keys := ks\<rparr>) e \<Longrightarrow>
    e \<noteq> ErrDuplicateRequest \<Longrightarrow> refusal_reason req d e"
  by (simp add: refusal_reason_def)

lemma set_balance_error:
  "set_balance b a = Inl e \<Longrightarrow> e = numeric_out_of_range \<or> (e = check_violation \<and> b < 0)"
  by (auto simp: set_balance_def split: if_splits)

lemma debit_refusal:
  assumes "debit_spec (Amount req) (FromAccount req) d = Inl e"
  shows "e \<noteq> ErrDuplicateRequest \<and> refusal_reason req d e"
  using assms
  by (auto simp: debit_spec_def change_balance_def refusal_reason_def
      split: option.splits if_splits sum.splits dest!: set_balance_error)

lemma change_balance_find:
  "change_balance b a d = Inr (u, d') \<Longrightarrow>
     find_account i d' = (case find_account i d of
       None \<Rightarrow> None | Some r \<Rightarrow> Some (if i = acc_id a then a\<lparr>acc_balance := b\<rparr> else r))"
  by (drule change_balance_ok) (simp add: find_put_account split: option.split)

lemma debit_spec_find:
  assumes "debit_spec amt i d = Inr (u, d')"
  shows "(find_account j d' = None \<longleftrightarrow> find_account j d = None) \<and>
    (j \<noteq> sint i \<longrightarrow> find_account j d' = find_account j d)"
  using assms
  by (auto simp: debit_spec_def dest!: change_balance_find [where i = j] find_account_Some
      split: option.splits if_splits)

lemma credit_spec_find:
  assumes "credit_spec amt i d = Inr (u, d')"
  shows "find_account j d' = None \<longleftrightarrow> find_account j d = None"
  using assms
  by (auto simp: credit_spec_def dest!: change_balance_find [where i = j] split: option.splits)

lemma exec_refusal_reason:
  assumes ok: "rows_ok d" and e: "exec_spec tid key pid ev req now d = Inl e"
  shows "e \<noteq> ErrDuplicateRequest \<and> refusal_reason req d e"
proof (cases "\<exists>a b. find_account (sint (FromAccount req)) d = Some a \<and>
    find_account (sint (ToAccount req)) d = Some b \<and>
    acc_currency a = Currency req \<and> acc_currency b = Currency req")
  case False
  with e show ?thesis
    by (auto simp: exec_spec_def refusal_reason_def split: option.splits if_splits)
next
  case True
  then obtain a b where a: "find_account (sint (FromAccount req)) d = Some a"
    and b: "find_account (sint (ToAccount req)) d = Some b"
    and cur: "acc_currency a = Currency req" "acc_currency b = Currency req" by auto
  have c3: "char3 (Currency req) = Some (Currency req)"
    using rows_ok_find [OF ok a] cur by (simp add: account_row_ok_def)
  show ?thesis
  proof (cases "debit_spec (Amount req) (FromAccount req) d")
    case (Inl e')
    with e a b cur debit_refusal [OF Inl] show ?thesis by (simp add: exec_spec_def)
  next
    case (Inr x)
    then obtain d1 where d1: "debit_spec (Amount req) (FromAccount req) d = Inr ((), d1)" by (cases x) auto
    have has1: "find_account i d1 = None \<longleftrightarrow> find_account i d = None" for i
      using debit_spec_find [OF d1] by blast
    show ?thesis
    proof (cases "credit_spec (Amount req) (ToAccount req) d1")
      case credit: (Inl e')
      have to: "find_account (sint (ToAccount req)) d1 = Some b" if "FromAccount req \<noteq> ToAccount req"
        using debit_spec_find [OF d1, of "sint (ToAccount req)"] b that by (simp add: sint_eq_iff)
      have pos: "0 \<le> acc_balance b"
        using rows_ok_find [OF ok b] by (simp add: account_row_ok_def)
      have "e = e'" using e a b cur d1 credit by (simp add: exec_spec_def)
      moreover have "e' = numeric_out_of_range \<or>
          e' = check_violation \<and> (sint (Amount req) \<le> 0 \<or> FromAccount req = ToAccount req)"
        using credit to has1 [of "sint (ToAccount req)"] b pos
        by (cases "FromAccount req = ToAccount req")
          (auto simp: credit_spec_def change_balance_def split: option.splits sum.splits
            dest!: set_balance_error)
      ultimately show ?thesis by (auto simp: refusal_reason_def)
    next
      case credit: (Inr y)
      then obtain d2 where d2: "credit_spec (Amount req) (ToAccount req) d1 = Inr ((), d2)"
        by (cases y) auto
      have "find_account i d2 = None \<longleftrightarrow> find_account i d = None" for i
        using credit_spec_find [OF d2] has1 by blast
      moreover have "insert_spec tid key pid ev req now d2 = Inl e"
        using e a b cur d1 d2 by (simp add: exec_spec_def)
      ultimately show ?thesis
        using a b c3
        by (auto simp: insert_spec_def refusal_reason_def marshal_error_def Let_def split: if_splits)
    qed
  qed
qed

lemma claim_refusal_reason:
  assumes "claim_post (IdempotencyKey req) (RequestHash req) now d (Inl e)" and "keys_settled d"
  shows "refusal_reason req d e"
proof (cases "find_key (IdempotencyKey req) d")
  case None
  with assms(1) show ?thesis by (simp add: claim_post_def)
next
  case (Some k)
  with keys_settled_find [OF assms(2)] have "key_settled d k" .
  with Some assms(1) show ?thesis
    by (auto simp: claim_post_def key_settled_def refusal_reason_def split: if_splits)
qed

lemma refused_reason:
  assumes ok: "ledger_ok seed d" and r: "refused \<sigma> req now d e"
  shows "refusal_reason req d e"
proof -
  have keys: "keys_settled d" and rows: "rows_ok d"
    using ok ledger_rows_ok by (auto simp: ledger_ok_def)
  from r consider "claim_post (IdempotencyKey req) (RequestHash req) now d (Inl e)"
    | d1 tid key pid ev where "claimed req now d d1" "exec_spec tid key pid ev req now d1 = Inl e"
    by (auto simp: refused_def)
  then show ?thesis
  proof cases
    case 1
    then show ?thesis using keys by (rule claim_refusal_reason)
  next
    case 2
    have "\<exists>ks. d1 = d\<lparr>idem_keys := ks\<rparr>"
      using claimed_frame [OF 2(1)] by (intro exI [where x = "idem_keys d1"]) (cases d; cases d1; simp)
    then show ?thesis
      using exec_refusal_reason [OF claimed_rows_ok [OF 2(1) rows] 2(2)] refusal_reason_keys by blast
  qed
qed

context executor
begin

text \<open>Without failing calls, the outcome of a request is decided by the request and the tables.\<close>

lemma exec_no_faults:
  assumes w: "txn w = None" and ok: "ledger_ok seed (tables w)" and orc: "no_faults orc"
    and run: "run orc (exec req) w = (r, w')"
  shows "case r of
      Inl e \<Rightarrow> tables w' = tables w \<and> (refusal_reason req (tables w) e \<or> invalid req e)
    | Inr (t, None) \<Rightarrow> posted_once req (tables w) t (tables w')
    | Inr (t, Some s) \<Rightarrow> tables w' = tables w \<and> t = zero_transfer \<and> replays req (tables w) s"
proof (cases r)
  case (Inl e)
  define \<sigma> where "\<sigma> = sources_of orc w"
  have "settles (outcome \<sigma> req) (\<lambda>now d e. refused \<sigma> req now d e \<or> invalid req e) orc w r w'"
    unfolding \<sigma>_def by (rule exec_settles [OF w ledger_rows_ok [OF ok] fits_sources_of run])
  then obtain now where "refused \<sigma> req now (tables w) e \<or> invalid req e" and "tables w' = tables w"
    using Inl orc by (elim settles_no_faults) auto
  with refused_reason [OF ok] Inl show ?thesis by auto
next
  case (Inr x)
  with exec_effect [OF w ok run] show ?thesis by simp
qed

text \<open>A key on record with another hash is refused.\<close>

lemma exec_other_hash:
  assumes w: "txn w = None" and ok: "ledger_ok seed (tables w)" and orc: "no_faults orc"
    and key: "IdempotencyKey req \<noteq> []"
    and k: "find_key (IdempotencyKey req) (tables w) = Some k" "ik_hash k \<noteq> RequestHash req"
    and run: "run orc (exec req) w = (r, w')"
  shows "tables w' = tables w \<and> (\<exists>e. r = Inl e \<and> (e = ErrDuplicateRequest \<or> invalid req e))"
proof -
  have "\<not> posted_once req (tables w) t (tables w')" "\<not> replays req (tables w) s" for t s
    using k key by (auto simp: posted_once_def may_post_def replays_def)
  with exec_no_faults [OF w ok orc run] obtain e where r: "r = Inl e" "tables w' = tables w"
    by (auto split: sum.splits option.splits)
  define \<sigma> where "\<sigma> = sources_of orc w"
  have "settles (outcome \<sigma> req) (\<lambda>now d e. refused \<sigma> req now d e \<or> invalid req e) orc w r w'"
    unfolding \<sigma>_def by (rule exec_settles [OF w ledger_rows_ok [OF ok] fits_sources_of run])
  then obtain now where "refused \<sigma> req now (tables w) e \<or> invalid req e"
    using r orc by (elim settles_no_faults) auto
  moreover have "refused \<sigma> req now (tables w) e \<Longrightarrow> e = ErrDuplicateRequest"
    using k key by (auto simp: refused_def claimed_def claim_post_def)
  ultimately show ?thesis using r by blast
qed

end

section \<open>Admissible requests are posted\<close>

text \<open>
  The environment supplies new values: UUIDs that occur nowhere, posting ids beyond the last one,
  times that have a text.
\<close>

definition fresh_sources :: "sources \<Rightarrow> db \<Rightarrow> bool" where
  "fresh_sources \<sigma> d \<longleftrightarrow>
     (\<forall>t \<in> set (transfers d). tr_id t \<notin> uuids_of \<sigma> \<and> tr_key t \<notin> uuids_of \<sigma>) \<and>
     (\<forall>r \<in> set (outbox d). ob_id r \<notin> uuids_of \<sigma>) \<and>
     (\<forall>p \<in> set (postings d). po_id p < ids_from \<sigma>) \<and>
     (\<forall>now \<in> times_of \<sigma>. rfc3339_ok now)"

definition admissible :: "transfer_request \<Rightarrow> db \<Rightarrow> bool" where
  "admissible req d \<longleftrightarrow>
     transfer_checks req d \<and> length (Currency req) = 3 \<and>
     (IdempotencyKey req \<noteq> [] \<longrightarrow>
        find_key (IdempotencyKey req) d = None \<and>
        (\<forall>t \<in> set (transfers d). tr_key t \<noteq> IdempotencyKey req))"

lemma admissible_valid: "admissible req d \<Longrightarrow> \<not> invalid req e"
  by (auto simp: admissible_def invalid_def transfer_checks_def)

lemma drawn_fresh:
  assumes "fresh_sources \<sigma> d" and "drawn \<sigma> req tid key pid ev"
  shows "tid \<notin> tr_id ` set (transfers d)" "ev \<notin> ob_id ` set (outbox d)"
    "pid \<notin> po_id ` set (postings d)" "pid + 1 \<notin> po_id ` set (postings d)"
proof -
  have "p < pid" if "p \<in> po_id ` set (postings d)" for p
    using that assms by (auto simp: drawn_def ids_drawn_def fresh_sources_def)
  then show "pid \<notin> po_id ` set (postings d)" "pid + 1 \<notin> po_id ` set (postings d)" by force+
qed (use assms in \<open>auto simp: drawn_def ids_drawn_def fresh_sources_def\<close>)

lemma fresh_sources_ids:
  assumes "fresh_sources \<sigma> d" and "admissible req d" and "drawn \<sigma> req tid key pid ev"
  shows "fresh_ids tid key pid ev d"
  using drawn_fresh [OF assms(1,3)] assms
  by (auto simp: drawn_def fresh_sources_def admissible_def fresh_ids_def split: if_splits)

lemma drawn_fresh_keyless:
  assumes "fresh_sources \<sigma> d" and "drawn \<sigma> req tid key pid ev" and "IdempotencyKey req = []"
  shows "fresh_ids tid key pid ev d"
  using drawn_fresh [OF assms(1,2)] assms by (auto simp: drawn_def fresh_sources_def fresh_ids_def)

lemma admissible_not_refused:
  assumes ok: "ledger_ok seed d" and adm: "admissible req d" and fresh: "fresh_sources \<sigma> d"
  shows "\<not> refused \<sigma> req now d e"
proof
  assume r: "refused \<sigma> req now d e"
  have rows: "rows_ok d" by (rule ledger_rows_ok [OF ok])
  have "\<not> claim_post (IdempotencyKey req) (RequestHash req) now d (Inl e)"
    if "IdempotencyKey req \<noteq> []"
    using that adm by (simp add: admissible_def claim_post_def)
  with r obtain d1 tid key pid ev where now: "now \<in> times_of \<sigma>" and c: "claimed req now d d1"
    and k: "drawn \<sigma> req tid key pid ev" and x: "exec_spec tid key pid ev req now d1 = Inl e"
    by (auto simp: refused_def)
  have keys: "keys_settled d" using ok by (simp add: ledger_ok_def)
  have d1: "d1 = d\<lparr>idem_keys := idem_keys d1\<rparr>"
    using claimed_frame [OF c] by (cases d; cases d1; simp)
  have "transfer_checks req d1"
    using adm transfer_checks_keys [where d = d and ks = "idem_keys d1"] d1 by (simp add: admissible_def)
  moreover have "fresh_ids tid key pid ev d1"
    using fresh_sources_ids [OF fresh adm k] fresh_ids_keys [where d = d and ks = "idem_keys d1"] d1
    by simp
  moreover have "rfc3339_ok now" using fresh now by (simp add: fresh_sources_def)
  ultimately show False
    using exec_spec_posts [OF claimed_rows_ok [OF c rows]] x by fastforce
qed

context executor
begin

lemma exec_posts:
  assumes w: "txn w = None" and ok: "ledger_ok seed (tables w)" and orc: "no_faults orc"
    and adm: "admissible req (tables w)" and fresh: "fresh_sources (sources_of orc w) (tables w)"
    and run: "run orc (exec req) w = (r, w')"
  shows "\<exists>t. r = Inr (t, None) \<and> posted_once req (tables w) t (tables w')"
proof -
  have "settles (outcome (sources_of orc w) req)
      (\<lambda>now d e. refused (sources_of orc w) req now d e \<or> invalid req e) orc w r w'"
    by (rule exec_settles [OF w ledger_rows_ok [OF ok] fits_sources_of run])
  then have "r \<noteq> Inl e" for e
    using orc admissible_not_refused [OF ok adm fresh] admissible_valid [OF adm]
    by (auto elim!: settles_no_faults)
  moreover have "\<not> replays req (tables w) s" for s
    using adm by (auto simp: replays_def admissible_def)
  ultimately show ?thesis
    using exec_effect [OF w ok run] by (auto split: sum.splits option.splits)
qed

end

end
