(* ===== verification/Sample.thy ===== *)
theory Sample
  imports ExactlyOnce
begin

text \<open>
  A small ledger with two accounts, an environment in which nothing fails, one in which the reply
  to the commit is lost, and some requests: the concrete inputs at which the properties are
  instantiated.
\<close>

definition alice :: account_row where
  "alice = \<lparr>acc_id = 1, acc_name = ''alice'', acc_currency = ''USD'', acc_balance = 1000,
     acc_version = 0, acc_created = 0, acc_webhook = None\<rparr>"

definition bob :: account_row where
  "bob = \<lparr>acc_id = 2, acc_name = ''bob'', acc_currency = ''USD'', acc_balance = 500,
     acc_version = 0, acc_created = 0, acc_webhook = Some ''https://bob.example/hook''\<rparr>"

definition sample_db :: db where
  "sample_db = \<lparr>accounts = [alice, bob], transfers = [], postings = [], idem_keys = [], outbox = []\<rparr>"

definition sample_world :: world where
  "sample_world = \<lparr>tables = sample_db, txn = None, acc_seq = 3, post_seq = 1, calls = 0, requests = []\<rparr>"

definition sample_seed :: "int \<Rightarrow> int" where
  "sample_seed i = (if i = 1 then 1000 else if i = 2 then 500 else 0)"

definition calm :: environ where
  "calm = \<lparr>o_fault = (\<lambda>_. None), o_lost = (\<lambda>_. False), o_clock = (\<lambda>n. int (min n 1000)),
     o_uuid = (\<lambda>n. replicate n (CHR ''u'')), o_jitter = (\<lambda>_. 0), o_locked = (\<lambda>_. []),
     o_skip = (\<lambda>_. 0), o_bad_url = (\<lambda>_. None), o_http = (\<lambda>_. Inr 200)\<rparr>"

text \<open>Call number \<open>n\<close> loses its connection after it was executed.\<close>

definition losing :: "nat \<Rightarrow> environ" where
  "losing n = calm\<lparr>o_fault := (\<lambda>m. if m = n then Some (DriverFault ''unexpected EOF'') else None),
     o_lost := (\<lambda>m. m = n)\<rparr>"

definition pay :: transfer_request where
  "pay = \<lparr>FromAccount = 1, ToAccount = 2, Amount = 300, Currency = ''USD'', IdempotencyKey = ''k1'',
     RequestHash = ''h1''\<rparr>"

lemma calm_no_faults: "no_faults calm"
  by (simp add: no_faults_def calm_def)

lemma sample_txn [simp]: "txn sample_world = None" "tables sample_world = sample_db"
  by (simp_all add: sample_world_def)

lemma sample_ledger_ok: "ledger_ok sample_seed sample_db"
  by (simp add: ledger_ok_def books_ok_def constraints_ok_def sample_db_def alice_def bob_def
      account_row_ok_def booked_def journal_def sample_seed_def conserved_def double_entry_def
      events_match_def one_currency_def keys_settled_def) code_simp

lemma calm_fresh: "fresh_sources (sources_of calm sample_world) sample_db"
  by (auto simp: fresh_sources_def sources_of_def sample_db_def calm_def rfc3339_ok_def)

lemma pay_admissible: "admissible pay sample_db"
proof -
  have "find_account 1 sample_db = Some alice" "find_account 2 sample_db = Some bob" by code_simp+
  moreover have "find_key ''k1'' sample_db = None" by code_simp
  ultimately show ?thesis
    by (simp add: admissible_def transfer_checks_def pay_def alice_def bob_def bigint_def sample_db_def)
qed

text \<open>The ledger after \<open>pay\<close> was posted.\<close>

definition paid_world :: world where
  "paid_world = snd (run calm (Execute pay) sample_world)"

lemma paid_world_ok: "txn paid_world = None" "ledger_ok sample_seed (tables paid_world)"
  using execute.exec_keeps_ledger [of sample_world sample_seed calm pay] sample_ledger_ok
  by (simp_all add: paid_world_def del: run.simps) (metis prod.collapse)+

lemma paid_pk: "pk_ok (tables paid_world)"
  using paid_world_ok(2) by (simp add: ledger_ok_def books_ok_def constraints_pk)


text \<open>What is in it.\<close>

definition paid_json :: json where
  "paid_json = JObj
     [(''id'', JStr ''uuuuu''), (''idempotency_key'', JStr ''k1''), (''status'', JStr ''posted''),
      (''amount'', JInt 300), (''currency'', JStr ''USD''), (''from_account'', JInt 1),
      (''to_account'', JInt 2), (''created_at'', JTime 0)]"

definition paid_event :: outbox_row where
  "paid_event =
     \<lparr>ob_id = ''uuuuuuuuu'', ob_type = ''transfer.created'', ob_payload = paid_json,
      ob_target = Some ''https://bob.example/hook'', ob_status = Pending, ob_attempts = 0,
      ob_next = None, ob_reason = None, ob_created = 0, ob_delivered = None\<rparr>"

definition paid_db :: db where
  "paid_db =
     \<lparr>accounts = [alice\<lparr>acc_balance := 700\<rparr>, bob\<lparr>acc_balance := 800\<rparr>],
      transfers = [\<lparr>tr_id = ''uuuuu'', tr_key = ''k1'', tr_status = Posted, tr_amount = 300,
        tr_currency = ''USD'', tr_from = 1, tr_to = 2, tr_created = 0\<rparr>],
      postings = [\<lparr>po_id = 1, po_transfer = ''uuuuu'', po_account = 1, po_amount = - 300, po_created = 0\<rparr>,
        \<lparr>po_id = 2, po_transfer = ''uuuuu'', po_account = 2, po_amount = 300, po_created = 0\<rparr>],
      idem_keys = [\<lparr>ik_key = ''k1'', ik_hash = ''h1'', ik_status = Done, ik_code = Some 201,
        ik_body = Some paid_json, ik_created = 0, ik_claimed = 0\<rparr>],
      outbox = [paid_event]\<rparr>"

lemma paid_world_eq:
  "paid_world = \<lparr>tables = paid_db, txn = None, acc_seq = 3, post_seq = 3, calls = 13, requests = []\<rparr>"
  unfolding paid_world_def by code_simp

end
