(* ===== verification/Guarantees.thy ===== *)
theory Guarantees
  imports Sample
begin

text \<open>
  What the executors guarantee to their callers: all or nothing, the books kept, one posting per
  idempotency key however often a request is sent, refusals for a reason.
\<close>

text \<open>
  C1. A call of \<open>Execute\<close> on a ledger in order posts the whole transfer and returns it, or returns
  the response on record, or returns an error and changes nothing; only when the connection was
  lost during a commit may an error stand for a transfer that was posted in full.
\<close>

theorem execute_all_or_nothing:
  assumes "txn w = None" and "ledger_ok seed (tables w)"
  shows "case run orc (Execute req) w of
      (Inl e, w') \<Rightarrow> tables w' = tables w \<or>
        (lost_reply orc w w' \<and> (\<exists>t. posted_once req (tables w) t (tables w')))
    | (Inr (t, None), w') \<Rightarrow> posted_once req (tables w) t (tables w')
    | (Inr (t, Some s), w') \<Rightarrow> tables w' = tables w \<and> t = zero_transfer \<and> replays req (tables w) s"
proof -
  obtain r w' where r: "run orc (Execute req) w = (r, w')" by fastforce
  with execute.exec_effect [OF assms r] show ?thesis by (auto split: sum.splits option.splits)
qed

theorem execute_all_or_nothing_witness:
  "fst (run (losing 11) (Execute pay) sample_world) = Inl (DriverErr ''unexpected EOF'') \<and>
   (\<exists>t. posted_once pay sample_db t (tables (snd (run (losing 11) (Execute pay) sample_world))))"
proof -
  have e: "fst (run (losing 11) (Execute pay) sample_world) = Inl (DriverErr ''unexpected EOF'')"
    by code_simp
  have "transfers (tables (snd (run (losing 11) (Execute pay) sample_world))) \<noteq> []"
    by code_simp
  then have "tables (snd (run (losing 11) (Execute pay) sample_world)) \<noteq> sample_db"
    by (auto simp: sample_db_def)
  then show ?thesis
    using e execute_all_or_nothing [of sample_world sample_seed "losing 11" pay] sample_ledger_ok
    by (auto simp del: run.simps split: prod.splits)
qed

text \<open>
  C5. \<open>ExecuteWithForUpdate\<close> gives the same guarantee.
\<close>

theorem forUpdate_all_or_nothing:
  assumes "txn w = None" and "ledger_ok seed (tables w)"
  shows "case run orc (ExecuteWithForUpdate req) w of
      (Inl e, w') \<Rightarrow> tables w' = tables w \<or>
        (lost_reply orc w w' \<and> (\<exists>t. posted_once req (tables w) t (tables w')))
    | (Inr (t, None), w') \<Rightarrow> posted_once req (tables w) t (tables w')
    | (Inr (t, Some s), w') \<Rightarrow> tables w' = tables w \<and> t = zero_transfer \<and> replays req (tables w) s"
proof -
  obtain r w' where r: "run orc (ExecuteWithForUpdate req) w = (r, w')" by fastforce
  with forUpdate.exec_effect [OF assms r] show ?thesis by (auto split: sum.splits option.splits)
qed

theorem forUpdate_all_or_nothing_witness:
  "\<exists>t. fst (run calm (ExecuteWithForUpdate pay) sample_world) = Inr (t, None) \<and>
     posted_once pay sample_db t (tables (snd (run calm (ExecuteWithForUpdate pay) sample_world)))"
proof -
  have "case fst (run calm (ExecuteWithForUpdate pay) sample_world) of
      Inr (t, None) \<Rightarrow> True | _ \<Rightarrow> False"
    by code_simp
  then show ?thesis
    using forUpdate_all_or_nothing [of sample_world sample_seed calm pay] sample_ledger_ok
    by (auto simp del: run.simps split: prod.splits sum.splits option.splits)
qed

text \<open>
  C4. Whatever calls fail, both executors leave no transaction open and keep the ledger in order:
  constraints, balances that match the postings, two balanced postings and one event per transfer,
  settled keys. The sum of all balances stays the same.
\<close>

theorem executors_keep_ledger:
  assumes "txn w = None" and "ledger_ok seed (tables w)"
    and "w' = snd (run orc (execute_by s req) w)"
  shows "txn w' = None \<and> ledger_ok seed (tables w') \<and>
    total_balance (tables w') = total_balance (tables w)"
  using by_strategy.exec_keeps_ledger [OF assms(1,2), of orc s req] assms(3)
  by (metis prod.collapse)

theorem executors_keep_ledger_witness:
  "total_balance (tables (snd (run (losing 11) (execute_by ConditionalUpdate pay) sample_world))) = 1500"
proof -
  have "total_balance sample_db = 1500" by code_simp
  then show ?thesis
    using executors_keep_ledger [OF _ _ refl, of sample_world sample_seed] sample_ledger_ok
    by (simp del: execute_by.simps)
qed

text \<open>
  C2. Exactly once: a client that sends one request with a key of its own any number of times, to
  either executor, through any failures, has it posted at most once. Once any try has returned
  without an error it is posted, and every such answer is the transfer or its recorded response.
\<close>

theorem client_exactly_once:
  assumes "txn w = None" and "ledger_ok seed (tables w)" and "IdempotencyKey req \<noteq> []"
    and "find_key (IdempotencyKey req) (tables w) = None"
  shows "case client_tries req ses w of (rs, w') \<Rightarrow>
      (tables w' = tables w \<and> (\<forall>x. Inr x \<notin> set rs)) \<or>
      (\<exists>t. posted_once req (tables w) t (tables w') \<and>
         (\<forall>x. Inr x \<in> set rs \<longrightarrow> x = (t, None) \<or> x = (zero_transfer, Some (response_of t))))"
proof -
  obtain rs w' where r: "client_tries req ses w = (rs, w')" by fastforce
  show ?thesis
    using tries_post_once [OF assms r] r by (simp add: settled_once_def)
qed

text \<open>The first answer is lost, the second replays it.\<close>

theorem client_exactly_once_witness:
  "case client_tries pay [(ConditionalUpdate, losing 11), (SelectForUpdate, calm)] sample_world of
     (rs, w') \<Rightarrow> \<exists>t. posted_once pay sample_db t (tables w') \<and>
        rs = [Inl (DriverErr ''unexpected EOF''), Inr (zero_transfer, Some (response_of t))]"
proof -
  let ?ses = "[(ConditionalUpdate, losing 11), (SelectForUpdate, calm)]"
  have k: "IdempotencyKey pay \<noteq> []" "find_key (IdempotencyKey pay) sample_db = None" by code_simp+
  let ?rs = "fst (client_tries pay ?ses sample_world)"
  have "?rs = [Inl (DriverErr ''unexpected EOF''), Inr (zero_transfer, snd (projr (?rs ! 1)))]"
    and "snd (projr (?rs ! 1)) \<noteq> None"
    by code_simp+
  then obtain s where rs: "?rs = [Inl (DriverErr ''unexpected EOF''), Inr (zero_transfer, Some s)]"
    by auto
  then show ?thesis
    using client_exactly_once [of sample_world sample_seed pay ?ses] k sample_ledger_ok
    by (cases "client_tries pay ?ses sample_world") auto
qed


definition overdraw :: transfer_request where
  "overdraw = pay\<lparr>Amount := 1001\<rparr>"


text \<open>
  C26. A key on record with another hash is refused with \<open>ErrDuplicateRequest\<close>, and nothing changes
  (a request that \<open>Execute\<close> finds invalid is turned down before its key is looked at).
\<close>

theorem other_hash_refused:
  assumes "txn w = None" and "ledger_ok seed (tables w)" and "no_faults orc"
    and "IdempotencyKey req \<noteq> []" and "find_key (IdempotencyKey req) (tables w) = Some k"
    and "ik_hash k \<noteq> RequestHash req"
  shows "case run orc (execute_by s req) w of (r, w') \<Rightarrow> tables w' = tables w \<and>
    (\<exists>e. r = Inl e \<and> (e = ErrDuplicateRequest \<or> invalid req e))"
  using by_strategy.exec_other_hash [OF assms, of s] by auto

theorem other_hash_refused_witness:
  "\<exists>w'. run calm (Execute (pay\<lparr>RequestHash := ''h2''\<rparr>)) paid_world = (Inl ErrDuplicateRequest, w') \<and>
     tables w' = tables paid_world"
proof -
  let ?req = "pay\<lparr>RequestHash := ''h2''\<rparr>"
  obtain k where k: "find_key ''k1'' (tables paid_world) = Some k" "ik_hash k = ''h1''"
  proof -
    have "map_option ik_hash (find_key ''k1'' (tables paid_world)) = Some ''h1''"
      unfolding paid_world_eq by code_simp
    then show thesis using that by auto
  qed
  have "\<not> invalid ?req e" for e by (simp add: invalid_def pay_def)
  then show ?thesis
    using other_hash_refused [where w = paid_world and seed = sample_seed and orc = calm
        and req = ?req and k = k and s = ConditionalUpdate] paid_world_ok calm_no_faults k
    by (auto simp: pay_def simp del: run.simps split: prod.splits)
qed

end
