(* ===== verification/GoText.thy ===== *)
theory GoText
  imports Prelude
begin

text \<open>
  What the program uses of Go's \<open>fmt\<close>, \<open>strconv\<close> and \<open>strings\<close>: decimal numbers, \<open>ParseInt\<close>,
  \<open>TrimSpace\<close>, \<open>ToUpper\<close>. Strings are lists of bytes.
\<close>

section \<open>Decimal numbers\<close>

text \<open>\<open>%d\<close>.\<close>

fun digits :: "nat \<Rightarrow> string" where
  "digits n = (if n < 10 then [char_of (48 + n)] else digits (n div 10) @ [char_of (48 + n mod 10)])"

declare digits.simps [simp del]

definition itoa :: "int \<Rightarrow> string" where
  "itoa i = (if i < 0 then CHR ''-'' # digits (nat (- i)) else digits (nat i))"

definition digit :: "char \<Rightarrow> bool" where
  "digit c \<longleftrightarrow> 48 \<le> (of_char c :: nat) \<and> (of_char c :: nat) \<le> 57"

definition digit_val :: "char \<Rightarrow> nat" where
  "digit_val c = of_char c - 48"

text \<open>\<open>strconv.ParseUint(s, 10, 64)\<close> without the check of its range.\<close>

definition ParseUint :: "string \<Rightarrow> nat option" where
  "ParseUint s =
     (if s \<noteq> [] \<and> list_all digit s then Some (foldl (\<lambda>n c. 10 * n + digit_val c) 0 s) else None)"

text \<open>\<open>strconv.ParseInt(s, 10, 64)\<close>: a sign, then digits; out of range is an error.\<close>

definition ParseInt :: "string \<Rightarrow> int64 option" where
  "ParseInt s =
     (let neg = (s \<noteq> [] \<and> hd s = CHR ''-'');
          ds = (if s \<noteq> [] \<and> (hd s = CHR ''-'' \<or> hd s = CHR ''+'') then tl s else s)
      in (case ParseUint ds of
            None \<Rightarrow> None
          | Some n \<Rightarrow>
              let i = (if neg then - int n else int n)
              in if bigint i then Some (word_of_int i) else None))"

lemma digits_ne: "digits n \<noteq> []"
  by (subst digits.simps) auto

lemma digit_char: "n < 10 \<Longrightarrow> digit (char_of (48 + n)) \<and> digit_val (char_of (48 + n)) = n"
  by (simp add: digit_def digit_val_def)

lemma digits_digit: "list_all digit (digits n)"
proof (induction n rule: digits.induct)
  case (1 n)
  show ?case
    by (subst digits.simps) (use 1 digit_char [of n] digit_char [of "n mod 10"] in auto)
qed

lemma digits_value: "foldl (\<lambda>n c. 10 * n + digit_val c) 0 (digits n) = n"
proof (induction n rule: digits.induct)
  case (1 n)
  show ?case
    by (subst digits.simps) (use 1 digit_char [of n] digit_char [of "n mod 10"] in auto)
qed

lemma ParseUint_digits: "ParseUint (digits n) = Some n"
  by (simp add: ParseUint_def digits_ne digits_digit digits_value)

lemma digits_sign: "hd (digits n) \<noteq> CHR ''-'' \<and> hd (digits n) \<noteq> CHR ''+''"
proof -
  have "digit (hd (digits n))"
    using digits_digit [of n] digits_ne [of n] by (metis list.pred_set list.set_sel(1))
  then show ?thesis by (auto simp: digit_def)
qed

lemma ParseInt_itoa: "bigint i \<Longrightarrow> ParseInt (itoa i) = Some (word_of_int i)"
  using digits_sign [of "nat i"] digits_ne [of "nat i"]
  by (simp add: itoa_def ParseInt_def ParseUint_digits Let_def)

section \<open>Spaces and letters\<close>

text \<open>
  The spaces of \<open>unicode.IsSpace\<close> in UTF-8: six of ASCII, U+0085, U+00A0, U+1680, U+2000 to
  U+200A, U+2028, U+2029, U+202F, U+205F and U+3000.
\<close>

definition space_seqs :: "string list" where
  "space_seqs =
     [[CHR 0x09], [CHR 0x0A], [CHR 0x0B], [CHR 0x0C], [CHR 0x0D], [CHR 0x20],
      [CHR 0xC2, CHR 0x85], [CHR 0xC2, CHR 0xA0], [CHR 0xE1, CHR 0x9A, CHR 0x80],
      [CHR 0xE2, CHR 0x80, CHR 0x80], [CHR 0xE2, CHR 0x80, CHR 0x81], [CHR 0xE2, CHR 0x80, CHR 0x82],
      [CHR 0xE2, CHR 0x80, CHR 0x83], [CHR 0xE2, CHR 0x80, CHR 0x84], [CHR 0xE2, CHR 0x80, CHR 0x85],
      [CHR 0xE2, CHR 0x80, CHR 0x86], [CHR 0xE2, CHR 0x80, CHR 0x87], [CHR 0xE2, CHR 0x80, CHR 0x88],
      [CHR 0xE2, CHR 0x80, CHR 0x89], [CHR 0xE2, CHR 0x80, CHR 0x8A], [CHR 0xE2, CHR 0x80, CHR 0xA8],
      [CHR 0xE2, CHR 0x80, CHR 0xA9], [CHR 0xE2, CHR 0x80, CHR 0xAF],
      [CHR 0xE2, CHR 0x81, CHR 0x9F], [CHR 0xE3, CHR 0x80, CHR 0x80]]"

definition space_prefix :: "string \<Rightarrow> nat" where
  "space_prefix s = (case find (\<lambda>p. take (length p) s = p) space_seqs of None \<Rightarrow> 0 | Some p \<Rightarrow> length p)"

definition space_suffix :: "string \<Rightarrow> nat" where
  "space_suffix s =
     (case find (\<lambda>p. length p \<le> length s \<and> drop (length s - length p) s = p) space_seqs of
        None \<Rightarrow> 0 | Some p \<Rightarrow> length p)"

function trim_left :: "string \<Rightarrow> string" where
  "trim_left s =
     (if s = [] \<or> space_prefix s = 0 then s else trim_left (drop (space_prefix s) s))"
  by auto
termination by (relation "measure length") auto

function trim_right :: "string \<Rightarrow> string" where
  "trim_right s =
     (if s = [] \<or> space_suffix s = 0 then s
      else trim_right (take (length s - space_suffix s) s))"
  by auto
termination by (relation "measure length") auto

declare trim_left.simps [simp del] trim_right.simps [simp del]

definition TrimSpace :: "string \<Rightarrow> string" where
  "TrimSpace s = trim_right (trim_left s)"

text \<open>
  \<open>ToUpper\<close> maps ASCII letters byte by byte; a string with other characters goes through the case
  tables of \<open>unicode\<close>, the parameter \<open>up\<close>.
\<close>

definition ascii :: "char \<Rightarrow> bool" where
  "ascii c \<longleftrightarrow> (of_char c :: nat) < 128"

definition upper_char :: "char \<Rightarrow> char" where
  "upper_char c =
     (if 97 \<le> (of_char c :: nat) \<and> (of_char c :: nat) \<le> 122 then char_of (of_char c - 32 :: nat) else c)"

definition ToUpper :: "(string \<Rightarrow> string) \<Rightarrow> string \<Rightarrow> string" where
  "ToUpper up s = (if list_all ascii s then map upper_char s else up s)"

lemma upper_char_idem: "upper_char (upper_char c) = upper_char c"
proof (cases "97 \<le> (of_char c :: nat) \<and> (of_char c :: nat) \<le> 122")
  case True
  then have "(of_char (char_of (of_char c - 32 :: nat) :: char) :: nat) = of_char c - 32"
    using mod_less [of "of_char c - 32" "256 :: nat"] by auto
  with True show ?thesis by (auto simp: upper_char_def)
qed (auto simp: upper_char_def)

lemma ToUpper_ascii: "list_all ascii s \<Longrightarrow> ToUpper up (ToUpper up s) = ToUpper up s \<and>
    length (ToUpper up s) = length s"
  by (auto simp: ToUpper_def list_all_iff upper_char_idem ascii_def upper_char_def)

end
