(* ===== verification/Address.thy ===== *)
theory Address
  imports GoText
begin

text \<open>
  What \<open>validateWebhookURL\<close> uses of Go's \<open>net\<close>: \<open>ParseIP\<close>, \<open>ParseCIDR\<close> and \<open>IPNet.Contains\<close>, on
  bytes. An address is a list of 4 or 16 bytes; \<open>ParseIP\<close> always gives the form of 16 bytes, with an
  IPv4 address as \<open>::ffff:a.b.c.d\<close>.
\<close>

unbundle bit_operations_syntax

type_synonym byte = "8 word"

section \<open>IPv4 text\<close>

fun split_on :: "char \<Rightarrow> string \<Rightarrow> string list" where
  "split_on c [] = [[]]"
| "split_on c (x # xs) =
     (if x = c then [] # split_on c xs
      else (case split_on c xs of [] \<Rightarrow> [[x]] | p # ps \<Rightarrow> (x # p) # ps))"

text \<open>A field of a dotted address: at most 255, no leading zero.\<close>

definition octet :: "string \<Rightarrow> byte option" where
  "octet s =
     (case ParseUint s of
        None \<Rightarrow> None
      | Some n \<Rightarrow> if n \<le> 255 \<and> (hd s = CHR ''0'' \<longrightarrow> length s = 1) then Some (of_nat n) else None)"

fun all_some :: "'a option list \<Rightarrow> 'a list option" where
  "all_some [] = Some []"
| "all_some (x # xs) =
     (case (x, all_some xs) of (Some y, Some ys) \<Rightarrow> Some (y # ys) | _ \<Rightarrow> None)"

definition parse_v4 :: "string \<Rightarrow> byte list option" where
  "parse_v4 s =
     (let ps = split_on (CHR ''.'') s
      in if length ps = 4 then all_some (map octet ps) else None)"

section \<open>IPv6 text\<close>

definition hex_val :: "char \<Rightarrow> nat option" where
  "hex_val c =
     (let n = of_char c
      in if 48 \<le> n \<and> n \<le> 57 then Some (n - 48)
         else if 97 \<le> n \<and> n \<le> 102 then Some (n - 87)
         else if 65 \<le> n \<and> n \<le> 70 then Some (n - 55)
         else None)"

definition is_hex :: "char \<Rightarrow> bool" where
  "is_hex c \<longleftrightarrow> hex_val c \<noteq> None"

definition group_bytes :: "string \<Rightarrow> byte list" where
  "group_bytes g =
     (let acc = foldl (\<lambda>acc c. push_bit 4 acc + of_nat (the (hex_val c))) (0 :: 32 word) g
      in [ucast (drop_bit 8 acc), ucast acc])"

text \<open>
  The loop of \<open>parseIPv6\<close>, with the number of groups that still fit, the text, the bytes read so far
  and the place of the ellipsis.
\<close>

fun v6_loop :: "nat \<Rightarrow> string \<Rightarrow> byte list \<Rightarrow> nat option \<Rightarrow> (byte list \<times> nat option \<times> string) option" where
  "v6_loop 0 s ip el = Some (ip, el, s)"
| "v6_loop (Suc n) s ip el =
     (let g = takeWhile is_hex s; r = dropWhile is_hex s
      in if g = [] \<or> 4 < length g then None
         else if r \<noteq> [] \<and> hd r = CHR ''.'' then
           (if el = None \<and> length ip \<noteq> 12 then None
            else if 16 < length ip + 4 then None
            else (case parse_v4 s of None \<Rightarrow> None | Some b \<Rightarrow> Some (ip @ b, el, [])))
         else
           (let ip' = ip @ group_bytes g
            in if r = [] then Some (ip', el, [])
               else if hd r \<noteq> CHR '':'' \<or> tl r = [] then None
               else if hd (tl r) = CHR '':'' then
                 (if el \<noteq> None then None
                  else if tl (tl r) = [] then Some (ip', Some (length ip'), [])
                  else v6_loop n (tl (tl r)) ip' (Some (length ip')))
               else v6_loop n (tl r) ip' el))"

definition v6_finish :: "(byte list \<times> nat option \<times> string) option \<Rightarrow> byte list option" where
  "v6_finish x =
     (case x of
        None \<Rightarrow> None
      | Some (ip, el, s) \<Rightarrow>
          if s \<noteq> [] then None
          else if length ip < 16 then
            (case el of
               None \<Rightarrow> None
             | Some e \<Rightarrow> Some (take e ip @ replicate (16 - length ip) 0 @ drop e ip))
          else if el \<noteq> None then None
          else Some ip)"

text \<open>An address with a zone (\<open>%\<close>) is refused by the callers.\<close>

definition parse_v6 :: "string \<Rightarrow> byte list option" where
  "parse_v6 s =
     (if CHR ''%'' \<in> set s then None
      else if take 2 s = ''::'' then
        (if length s = 2 then Some (replicate 16 0) else v6_finish (v6_loop 8 (drop 2 s) [] (Some 0)))
      else v6_finish (v6_loop 8 s [] None))"

section \<open>Addresses and networks\<close>

text \<open>\<open>netip.ParseAddr\<close>: the first dot, colon or percent sign decides. 4 or 16 bytes.\<close>

definition ParseAddr :: "string \<Rightarrow> byte list option" where
  "ParseAddr s =
     (case find (\<lambda>c. c = CHR ''.'' \<or> c = CHR '':'' \<or> c = CHR ''%'') s of
        None \<Rightarrow> None
      | Some c \<Rightarrow> if c = CHR ''.'' then parse_v4 s else if c = CHR '':'' then parse_v6 s else None)"

definition v4_prefix :: "byte list" where
  "v4_prefix = replicate 10 0 @ [0xFF, 0xFF]"

definition As16 :: "byte list \<Rightarrow> byte list" where
  "As16 ip = (if length ip = 4 then v4_prefix @ ip else ip)"

definition ParseIP :: "string \<Rightarrow> byte list option" where
  "ParseIP s = map_option As16 (ParseAddr s)"

definition To4 :: "byte list \<Rightarrow> byte list option" where
  "To4 ip =
     (if length ip = 4 then Some ip
      else if length ip = 16 \<and> take 12 ip = v4_prefix then Some (drop 12 ip)
      else None)"

record ipnet =
  net_ip :: "byte list"
  net_mask :: "byte list"

text \<open>The bytes of a mask with \<open>ones\<close> leading ones.\<close>

fun CIDRMask :: "nat \<Rightarrow> nat \<Rightarrow> byte list" where
  "CIDRMask ones 0 = []"
| "CIDRMask ones (Suc n) =
     (if 8 \<le> ones then 0xFF # CIDRMask (ones - 8) n else NOT (drop_bit ones 0xFF) # CIDRMask 0 n)"

definition and_bytes :: "byte list \<Rightarrow> byte list \<Rightarrow> byte list" where
  "and_bytes xs ys = map2 (AND) xs ys"

definition ip_Mask :: "byte list \<Rightarrow> byte list \<Rightarrow> byte list" where
  "ip_Mask ip m =
     (let ip' = (if length m = 4 \<and> length ip = 16 \<and> take 12 ip = v4_prefix then drop 12 ip else ip)
      in if length ip' \<noteq> length m then [] else and_bytes ip' m)"

definition ParseCIDR :: "string \<Rightarrow> ipnet option" where
  "ParseCIDR s =
     (let a = takeWhile (\<lambda>c. c \<noteq> CHR ''/'') s; r = dropWhile (\<lambda>c. c \<noteq> CHR ''/'') s
      in if r = [] then None
         else
           (case (ParseAddr a, ParseUint (tl r)) of
              (Some ip, Some n) \<Rightarrow>
                if n \<le> 8 * length ip then
                  (let m = CIDRMask n (length ip)
                   in Some \<lparr>net_ip = ip_Mask (As16 ip) m, net_mask = m\<rparr>)
                else None
            | _ \<Rightarrow> None))"

text \<open>\<open>IPNet.Contains\<close> on a network with a mask as long as its address.\<close>

definition Contains :: "ipnet \<Rightarrow> byte list \<Rightarrow> bool" where
  "Contains n ip =
     (let nn = (case To4 (net_ip n) of Some x \<Rightarrow> x | None \<Rightarrow> net_ip n);
          m = (if length (net_mask n) = 16 \<and> length nn = 4 then drop 12 (net_mask n) else net_mask n);
          x = (case To4 ip of Some y \<Rightarrow> y | None \<Rightarrow> ip)
      in length nn = length m \<and> length x = length nn \<and> and_bytes nn m = and_bytes x m)"

lemma length_v4: "parse_v4 s = Some ip \<Longrightarrow> length ip = 4"
proof -
  have "all_some xs = Some ys \<Longrightarrow> length ys = length xs" for xs :: "byte option list" and ys
    by (induction xs arbitrary: ys) (auto split: option.splits)
  then show "parse_v4 s = Some ip \<Longrightarrow> length ip = 4"
    by (fastforce simp: parse_v4_def Let_def split: if_splits)
qed

lemma v6_loop_length:
  "v6_loop n s ip el = Some (ip', el', s') \<Longrightarrow> length ip + 2 * n \<le> 16 \<Longrightarrow> length ip' \<le> 16"
proof (induction n s ip el rule: v6_loop.induct)
  case (1 s ip el)
  then show ?case by simp
next
  case (2 n s ip el)
  then show ?case
    by (auto simp: Let_def group_bytes_def dest!: length_v4 split: if_splits option.splits)
qed

lemma length_v6: "parse_v6 s = Some ip \<Longrightarrow> length ip = 16"
proof -
  have *: "length ip = 16" if x: "v6_finish (v6_loop 8 s [] el) = Some ip" for s el
  proof -
    obtain ip' el' where l: "v6_loop 8 s [] el = Some (ip', el', [])"
      using x by (cases "v6_loop 8 s [] el") (auto simp: v6_finish_def split: option.splits if_splits)
    have "length ip' \<le> 16" by (rule v6_loop_length [OF l]) simp
    then show ?thesis using x l by (auto simp: v6_finish_def split: option.splits if_splits)
  qed
  then show "parse_v6 s = Some ip \<Longrightarrow> length ip = 16"
    by (auto simp: parse_v6_def split: if_splits)
qed

lemma length_ParseIP: "ParseIP s = Some ip \<Longrightarrow> length ip = 16"
  by (auto simp: ParseIP_def ParseAddr_def As16_def v4_prefix_def dest!: length_v4 length_v6
      split: option.splits if_splits)

section \<open>Dotted text\<close>

definition dotted :: "nat \<Rightarrow> nat \<Rightarrow> nat \<Rightarrow> nat \<Rightarrow> string" where
  "dotted a b c d = digits a @ ''.'' @ digits b @ ''.'' @ digits c @ ''.'' @ digits d"

lemma split_on_append:
  "c \<notin> set xs \<Longrightarrow> split_on c (xs @ c # ys) = xs # split_on c ys"
  "c \<notin> set xs \<Longrightarrow> split_on c xs = [xs]"
  by (induction xs) auto

lemma digits_plain: "\<not> digit c \<Longrightarrow> c \<notin> set (digits n)"
  using digits_digit [of n] by (auto simp: list_all_iff)

lemma digits_zero: "hd (digits n) = CHR ''0'' \<longleftrightarrow> n = 0"
proof (induction n rule: digits.induct)
  case (1 n)
  have "hd (digits n) = (if n < 10 then char_of (48 + n) else hd (digits (n div 10)))"
    using digits_ne [of "n div 10"] by (subst digits.simps) simp
  moreover have "char_of (48 + n) = CHR ''0'' \<longleftrightarrow> n = 0" if "n < 10"
  proof
    assume "char_of (48 + n) = CHR ''0''"
    then have "(of_char (char_of (48 + n) :: char) :: nat) = of_char (CHR ''0'')" by simp
    then show "n = 0" using that by simp
  next
    have "char_of (48 :: nat) = CHR ''0''" by code_simp
    then show "n = 0 \<Longrightarrow> char_of (48 + n) = CHR ''0''" by simp
  qed
  ultimately show ?case using 1 by auto
qed

lemma octet_digits: "n \<le> 255 \<Longrightarrow> octet (digits n) = Some (of_nat n)"
  using digits_zero [of n] by (auto simp: octet_def ParseUint_digits) (simp add: digits.simps)

lemma parse_dotted:
  assumes "a \<le> 255" and "b \<le> 255" and "c \<le> 255" and "d \<le> 255"
  shows "ParseIP (dotted a b c d) = Some (v4_prefix @ [of_nat a, of_nat b, of_nat c, of_nat d])"
proof -
  have dot: "\<not> digit (CHR ''.'')" "\<not> digit (CHR '':'')" "\<not> digit (CHR ''%'')"
    by (simp_all add: digit_def)
  have "find (\<lambda>c. c = CHR ''.'' \<or> c = CHR '':'' \<or> c = CHR ''%'') (digits a) = None"
    using dot digits_plain [of _ a] by (auto simp: find_None_iff)
  then have "find (\<lambda>c. c = CHR ''.'' \<or> c = CHR '':'' \<or> c = CHR ''%'') (dotted a b c d) = Some (CHR ''.'')"
    by (simp add: dotted_def find_append)
  moreover have "split_on (CHR ''.'') (dotted a b c d) = [digits a, digits b, digits c, digits d]"
    using dot(1) by (simp add: dotted_def split_on_append digits_plain)
  then have "parse_v4 (dotted a b c d) = Some [of_nat a, of_nat b, of_nat c, of_nat d]"
    using assms by (simp add: parse_v4_def octet_digits)
  ultimately show ?thesis by (simp add: ParseIP_def ParseAddr_def As16_def)
qed

end
