(* ===== verification/Sha256.thy ===== *)
theory Sha256
  imports Address
begin

text \<open>
  \<open>crypto/sha256\<close> (FIPS 180-4) on bytes, and \<open>HashRequest\<close>: the digest of the request body in its
  normal form. The normal form (\<open>json.Unmarshal\<close> into \<open>any\<close>, then \<open>json.Marshal\<close>) is a parameter:
  it reads numbers as \<open>float64\<close>, which this development does not model.
\<close>

section \<open>SHA-256\<close>

type_synonym word32 = "32 word"

text \<open>
  The constants: the first 32 bits of the fractional parts of the cube roots of the first 64 primes,
  and, for the initial state, of the square roots of the first eight. \<open>root_bits e x i r\<close> extends
  \<open>r\<close> by \<open>i\<close> bits to the integer part of the root of \<open>x\<close> with exponent \<open>e\<close>.
\<close>

primrec root_bits :: "nat \<Rightarrow> int \<Rightarrow> nat \<Rightarrow> int \<Rightarrow> int" where
  "root_bits e x 0 r = r"
| "root_bits e x (Suc i) r = root_bits e x i (if (r + 2 ^ i) ^ e \<le> x then r + 2 ^ i else r)"

definition root_fraction :: "nat \<Rightarrow> int \<Rightarrow> word32" where
  "root_fraction e p = word_of_int (root_bits e (p * 2 ^ (32 * e)) 36 0)"

definition sha_primes :: "int list" where
  "sha_primes =
    [2, 3, 5, 7, 11, 13, 17, 19, 23, 29, 31, 37, 41, 43, 47, 53, 59, 61, 67, 71, 73, 79, 83, 89, 97,
     101, 103, 107, 109, 113, 127, 131, 137, 139, 149, 151, 157, 163, 167, 173, 179, 181, 191, 193,
     197, 199, 211, 223, 227, 229, 233, 239, 241, 251, 257, 263, 269, 271, 277, 281, 283, 293, 307, 311]"

definition sha_K :: "word32 list" where
  "sha_K = map (root_fraction 3) sha_primes"

record sha_state =
  sha_a :: word32  sha_b :: word32  sha_c :: word32  sha_d :: word32
  sha_e :: word32  sha_f :: word32  sha_g :: word32  sha_h :: word32

definition sha_init :: sha_state where
  "sha_init =
     (let r = root_fraction 2
      in \<lparr>sha_a = r 2, sha_b = r 3, sha_c = r 5, sha_d = r 7, sha_e = r 11, sha_f = r 13,
          sha_g = r 17, sha_h = r 19\<rparr>)"

lemma sha_constants:
  "root_fraction 3 2 = 0x428a2f98" "root_fraction 3 311 = 0xc67178f2"
  "root_fraction 2 2 = 0x6a09e667" "root_fraction 2 19 = 0x5be0cd19"
  by code_simp+

definition rotr :: "nat \<Rightarrow> word32 \<Rightarrow> word32" where
  "rotr n x = drop_bit n x OR push_bit (32 - n) x"

definition sha_round :: "word32 \<Rightarrow> word32 \<Rightarrow> sha_state \<Rightarrow> sha_state" where
  "sha_round k w s =
     (let t1 = sha_h s + (rotr 6 (sha_e s) XOR rotr 11 (sha_e s) XOR rotr 25 (sha_e s)) +
               ((sha_e s AND sha_f s) XOR (NOT (sha_e s) AND sha_g s)) + k + w;
          t2 = (rotr 2 (sha_a s) XOR rotr 13 (sha_a s) XOR rotr 22 (sha_a s)) +
               ((sha_a s AND sha_b s) XOR (sha_a s AND sha_c s) XOR (sha_b s AND sha_c s))
      in \<lparr>sha_a = t1 + t2, sha_b = sha_a s, sha_c = sha_b s, sha_d = sha_c s,
          sha_e = sha_d s + t1, sha_f = sha_e s, sha_g = sha_f s, sha_h = sha_g s\<rparr>)"

text \<open>The message schedule: \<open>ws\<close> holds the last sixteen words, newest last.\<close>

fun sha_rounds :: "word32 list \<Rightarrow> word32 list \<Rightarrow> sha_state \<Rightarrow> sha_state" where
  "sha_rounds [] ws s = s"
| "sha_rounds (k # ks) ws s =
     (let w1 = ws ! 1; w14 = ws ! 14;
          n = (rotr 17 w14 XOR rotr 19 w14 XOR drop_bit 10 w14) + ws ! 9 +
              (rotr 7 w1 XOR rotr 18 w1 XOR drop_bit 3 w1) + ws ! 0
      in sha_rounds ks (tl ws @ [n]) (sha_round k (ws ! 0) s))"

definition be_word :: "byte list \<Rightarrow> word32" where
  "be_word bs = foldl (\<lambda>n b. push_bit 8 n OR ucast b) 0 bs"

definition block_words :: "byte list \<Rightarrow> word32 list" where
  "block_words bs = map (\<lambda>i. be_word (take 4 (drop (4 * i) bs))) [0..<16]"

definition sha_block :: "sha_state \<Rightarrow> byte list \<Rightarrow> sha_state" where
  "sha_block s bs =
     (let r = sha_rounds sha_K (block_words bs) s
      in \<lparr>sha_a = sha_a s + sha_a r, sha_b = sha_b s + sha_b r, sha_c = sha_c s + sha_c r,
          sha_d = sha_d s + sha_d r, sha_e = sha_e s + sha_e r, sha_f = sha_f s + sha_f r,
          sha_g = sha_g s + sha_g r, sha_h = sha_h s + sha_h r\<rparr>)"

definition length_bytes :: "nat \<Rightarrow> byte list" where
  "length_bytes n = map (\<lambda>i. ucast (drop_bit (8 * i) (of_nat (8 * n) :: 64 word))) [7, 6, 5, 4, 3, 2, 1, 0]"

text \<open>The message, a one bit, zeros, and the length in bits (modulo \<open>2 ^ 64\<close>).\<close>

definition sha_pad :: "byte list \<Rightarrow> byte list" where
  "sha_pad m =
     m @ [0x80] @ replicate ((119 - length m mod 64) mod 64) 0 @ length_bytes (length m)"

fun sha_blocks :: "nat \<Rightarrow> byte list \<Rightarrow> sha_state \<Rightarrow> sha_state" where
  "sha_blocks 0 bs s = s"
| "sha_blocks (Suc n) bs s = sha_blocks n (drop 64 bs) (sha_block s (take 64 bs))"

definition word_bytes :: "word32 \<Rightarrow> byte list" where
  "word_bytes w = map (\<lambda>i. ucast (drop_bit (8 * i) w)) [3, 2, 1, 0]"

definition Sum256 :: "byte list \<Rightarrow> byte list" where
  "Sum256 m =
     (let p = sha_pad m; s = sha_blocks (length p div 64) p sha_init
      in concat (map (\<lambda>f. word_bytes (f s)) [sha_a, sha_b, sha_c, sha_d, sha_e, sha_f, sha_g, sha_h]))"

section \<open>HashRequest\<close>

definition bytes_of :: "string \<Rightarrow> byte list" where
  "bytes_of s = map (\<lambda>c. of_nat (of_char c)) s"

definition hex_digit :: "nat \<Rightarrow> char" where
  "hex_digit n = (if n < 10 then char_of (48 + n) else char_of (87 + n))"

text \<open>\<open>%x\<close> of a byte array.\<close>

definition hex_text :: "byte list \<Rightarrow> string" where
  "hex_text bs = concat (map (\<lambda>b. [hex_digit (unat b div 16), hex_digit (unat b mod 16)]) bs)"

definition HashRequest :: "(string \<Rightarrow> string option) \<Rightarrow> string \<Rightarrow> string" where
  "HashRequest normalise body =
     hex_text (Sum256 (bytes_of (case normalise body of Some norm \<Rightarrow> norm | None \<Rightarrow> body)))"

definition hex_lower :: "char \<Rightarrow> bool" where
  "hex_lower c \<longleftrightarrow> digit c \<or> (97 \<le> (of_char c :: nat) \<and> (of_char c :: nat) \<le> 102)"

lemma hex_digit_lower: "n < 16 \<Longrightarrow> hex_lower (hex_digit n)"
  by (simp add: hex_digit_def hex_lower_def digit_def)

lemma hex_text_lower: "list_all hex_lower (hex_text bs)"
proof -
  have "unat b < 2 ^ LENGTH(8)" for b :: byte by (rule unsigned_less)
  then have "unat b < 256" for b :: byte by simp
  then have "unat b div 16 < 16" "unat b mod 16 < 16" for b :: byte
    by (simp_all add: less_mult_imp_div_less)
  then show ?thesis by (auto simp: hex_text_def list_all_iff hex_digit_lower)
qed

lemma hex_text_length: "length (hex_text bs) = 2 * length bs"
  by (induction bs) (auto simp: hex_text_def)

lemma Sum256_length: "length (Sum256 m) = 32"
  by (simp add: Sum256_def Let_def word_bytes_def)

section \<open>The result\<close>

text \<open>
  \<open>HashRequest\<close> depends on the normal form of the body only, and its result is a text of 64
  lower-case hexadecimal digits, whatever the body.
\<close>

lemma hash_of_normal_form:
  "length (HashRequest norm body) = 64 \<and> list_all hex_lower (HashRequest norm body) \<and>
   HashRequest norm body = HashRequest (\<lambda>_. None) (case norm body of Some b \<Rightarrow> b | None \<Rightarrow> body)"
  by (simp add: HashRequest_def hex_text_length hex_text_lower Sum256_length)

end
