(* ===== verification/Webhook.thy ===== *)
theory Webhook
  imports Sha256 Driver
begin

text \<open>
  \<open>validateWebhookURL\<close> (\<open>cmd/api/main.go\<close>): which URLs the API stores for the poller to post to.
  The bitwise test against the blocked networks is shown to be the test of the address ranges they
  stand for. \<open>url.Parse\<close> and the resolver are parameters.
\<close>

text \<open>
  A request body as it can be read: its bytes, and whether the end of the body follows them (or a
  read error).
\<close>

record http_body =
  bd_bytes :: string
  bd_eof :: bool

text \<open>
  What the handlers take from outside the program: the scheme and host name of \<open>url.Parse\<close>, the
  resolver, the case tables of \<open>unicode\<close>, the first JSON value of a body decoded into name,
  currency and webhook URL, a whole body decoded into accounts, amount and currency, the normal form
  of a body (\<open>json.Unmarshal\<close> into \<open>any\<close>, then \<open>json.Marshal\<close>), the text of a driver's error.
\<close>

record web =
  url_Parse :: "string \<Rightarrow> (string \<times> string) option"
  LookupHost :: "string \<Rightarrow> string list option"
  unicode_upper :: "string \<Rightarrow> string"
  Decode_account :: "http_body \<Rightarrow> (string \<times> string \<times> string) option"
  Unmarshal_transfer :: "string \<Rightarrow> (int64 \<times> int64 \<times> int64 \<times> string) option"
  normal_form :: "string \<Rightarrow> string option"
  driver_text :: "err \<Rightarrow> string"

definition privateRanges :: "string list" where
  "privateRanges =
     [''127.0.0.0/8'', ''10.0.0.0/8'', ''172.16.0.0/12'', ''192.168.0.0/16'', ''169.254.0.0/16'',
      ''::1/128'', ''fc00::/7'']"

definition blockedNets :: "ipnet list" where
  "blockedNets = map (\<lambda>cidr. the (ParseCIDR cidr)) privateRanges"

text \<open>The loops over the resolved addresses: one that does not parse is skipped.\<close>

fun any_blocked :: "string list \<Rightarrow> bool" where
  "any_blocked [] = False"
| "any_blocked (addr # addrs) =
     (case ParseIP addr of
        None \<Rightarrow> any_blocked addrs
      | Some ip \<Rightarrow> list_ex (\<lambda>n. Contains n ip) blockedNets \<or> any_blocked addrs)"

definition validateWebhookURL :: "web \<Rightarrow> string \<Rightarrow> err option" where
  "validateWebhookURL W rawURL =
     (case url_Parse W rawURL of
        None \<Rightarrow> Some (NewErr ''webhook_url is not a valid URL'')
      | Some (scheme, hostname) \<Rightarrow>
          if scheme \<noteq> ''http'' \<and> scheme \<noteq> ''https''
            then Some (NewErr ''webhook_url must use http or https scheme'')
          else if hostname = [] then Some (NewErr ''webhook_url must have a hostname'')
          else
            (case LookupHost W hostname of
               None \<Rightarrow> Some (NewErr ''webhook_url hostname could not be resolved'')
             | Some addrs \<Rightarrow>
                 if any_blocked addrs
                   then Some (NewErr ''webhook_url resolves to a private or reserved IP address'')
                 else None))"

section \<open>The ranges\<close>

text \<open>The addresses meant: loopback, private and link-local IPv4, loopback and unique local IPv6.\<close>

fun reserved_v4 :: "byte list \<Rightarrow> bool" where
  "reserved_v4 (a # b # _) \<longleftrightarrow>
     a = 127 \<or> a = 10 \<or> (a = 172 \<and> 16 \<le> b \<and> b \<le> 31) \<or> (a = 192 \<and> b = 168) \<or> (a = 169 \<and> b = 254)"
| "reserved_v4 _ \<longleftrightarrow> False"

definition reserved :: "byte list \<Rightarrow> bool" where
  "reserved ip \<longleftrightarrow>
     (case To4 ip of
        Some v4 \<Rightarrow> reserved_v4 v4
      | None \<Rightarrow> ip = replicate 15 0 @ [1] \<or> hd ip = 0xFC \<or> hd ip = 0xFD)"

lemma blockedNets_eval:
  "blockedNets =
     [\<lparr>net_ip = [127, 0, 0, 0], net_mask = [255, 0, 0, 0]\<rparr>,
      \<lparr>net_ip = [10, 0, 0, 0], net_mask = [255, 0, 0, 0]\<rparr>,
      \<lparr>net_ip = [172, 16, 0, 0], net_mask = [255, 240, 0, 0]\<rparr>,
      \<lparr>net_ip = [192, 168, 0, 0], net_mask = [255, 255, 0, 0]\<rparr>,
      \<lparr>net_ip = [169, 254, 0, 0], net_mask = [255, 255, 0, 0]\<rparr>,
      \<lparr>net_ip = replicate 15 0 @ [1], net_mask = replicate 16 255\<rparr>,
      \<lparr>net_ip = [0xFC, 0, 0, 0, 0, 0, 0, 0, 0, 0, 0, 0, 0, 0, 0, 0],
       net_mask = [0xFE, 0, 0, 0, 0, 0, 0, 0, 0, 0, 0, 0, 0, 0, 0, 0]\<rparr>]"
  by code_simp

text \<open>A mask of leading ones takes the low bits off.\<close>

lemma high_bits: "unat (b AND NOT (mask n)) = unat (b :: byte) - unat b mod 2 ^ n"
proof -
  have "b AND NOT (mask n) = push_bit n (drop_bit n b)" by (rule bit_word_eqI) (auto simp: bit_simps)
  also have "\<dots> = b - take_bit n b" using bits_ident [of n b] by (simp add: algebra_simps)
  finally have e: "b AND NOT (mask n) = b - take_bit n b" .
  have t: "unat (take_bit n b) = unat b mod 2 ^ n" by (simp add: unsigned_take_bit_eq flip: take_bit_eq_mod)
  then have "take_bit n b \<le> b" by (simp add: word_le_nat_alt)
  with t show ?thesis unfolding e by (simp add: unat_sub)
qed

lemma mask_240: "(16 :: byte) = b AND 240 \<longleftrightarrow> 16 \<le> b \<and> b \<le> 31"
proof -
  have n: "(240 :: byte) = NOT (mask 4)" by code_simp
  have "unat b - unat b mod 16 = 16 * (unat b div 16)" by (simp add: minus_mod_eq_mult_div)
  moreover have "unat b div 16 = 1 \<longleftrightarrow> 16 \<le> unat b \<and> unat b \<le> 31"
    using div_mult_mod_eq [of "unat b" 16] mod_less_divisor [of 16 "unat b"]
    by (auto intro: div_nat_eqI)
  ultimately have "unat b - unat b mod 16 = 16 \<longleftrightarrow> 16 \<le> unat b \<and> unat b \<le> 31" by simp
  then show ?thesis unfolding n by (auto simp: word_unat_eq_iff word_le_nat_alt high_bits)
qed

lemma mask_254: "(252 :: byte) = b AND 254 \<longleftrightarrow> b = 0xFC \<or> b = 0xFD"
proof -
  have n: "(254 :: byte) = NOT (mask 1)" by code_simp
  have h: "unat (b AND NOT (mask 1)) = unat b - unat b mod 2"
    by (simp only: high_bits power_one_right)
  have "unat b - unat b mod 2 = 252 \<longleftrightarrow> unat b = 252 \<or> unat b = 253" by presburger
  then show ?thesis unfolding n word_unat_eq_iff h by auto
qed

lemma byte_255: "x AND 255 = (x :: byte)"
proof -
  have "(255 :: byte) = -1" by simp
  then show ?thesis by (simp only: and.right_neutral)
qed

lemma and_all_ones: "length xs = n \<Longrightarrow> and_bytes xs (replicate n 255) = xs"
  by (induction xs arbitrary: n) (auto simp: and_bytes_def byte_255)

lemma and_all_zeros: "length xs = n \<Longrightarrow> and_bytes xs (replicate n 0) = replicate n 0"
  by (induction xs arbitrary: n) (auto simp: and_bytes_def)

lemma length_4: "length xs = 4 \<Longrightarrow> \<exists>a b c d. xs = [a, b, c, d]"
  by (auto simp: numeral_eq_Suc length_Suc_conv)

lemma To4_nets:
  "To4 [127, 0, 0, 0] = Some [127, 0, 0, 0]" "To4 [10, 0, 0, 0] = Some [10, 0, 0, 0]"
  "To4 [172, 16, 0, 0] = Some [172, 16, 0, 0]" "To4 [192, 168, 0, 0] = Some [192, 168, 0, 0]"
  "To4 [169, 254, 0, 0] = Some [169, 254, 0, 0]" "To4 (replicate 15 0 @ [1]) = None"
  "To4 [0xFC, 0, 0, 0, 0, 0, 0, 0, 0, 0, 0, 0, 0, 0, 0, 0] = None"
  by code_simp+

lemma Contains_v4:
  assumes "To4 ip = Some [a, b, c, d]"
  shows "list_ex (\<lambda>n. Contains n ip) blockedNets = reserved_v4 [a, b, c, d]"
  unfolding blockedNets_eval list_ex_Cons_iff list_ex_Nil_iff Contains_def ipnet.simps To4_nets assms
  by (auto simp: and_bytes_def byte_255 mask_240)

lemma Contains_v6:
  assumes len: "length ip = 16" and v6: "To4 ip = None"
  shows "list_ex (\<lambda>n. Contains n ip) blockedNets =
    (ip = replicate 15 0 @ [1] \<or> hd ip = 0xFC \<or> hd ip = 0xFD)"
proof -
  obtain x xs where ip: "ip = x # xs" "length xs = 15" using len by (cases ip) auto
  have ones: "and_bytes ip (replicate 16 255) = ip" "and_bytes (replicate 15 0 @ [1]) (replicate 16 255) = replicate 15 0 @ [1]"
    using len by (intro and_all_ones; simp)+
  have mask: "[0xFE, 0, 0, 0, 0, 0, 0, 0, 0, 0, 0, 0, 0, 0, 0, 0] = (0xFE :: byte) # replicate 15 0"
    and net: "[0xFC, 0, 0, 0, 0, 0, 0, 0, 0, 0, 0, 0, 0, 0, 0, 0] = (0xFC :: byte) # replicate 15 0"
    by code_simp+
  have cons: "and_bytes (y # ys) (z # zs) = (y AND z) # and_bytes ys zs" for y ys z zs
    by (simp add: and_bytes_def)
  have "(252 :: byte) AND 254 = 252" by code_simp
  then have fc: "and_bytes (0xFC # replicate 15 0) (0xFE # replicate 15 0) = and_bytes ip (0xFE # replicate 15 0)
      \<longleftrightarrow> x = 0xFC \<or> x = 0xFD"
    using mask_254 [of x] ip and_all_zeros [of xs 15] and_all_zeros [of "replicate 15 0" 15]
    by (simp add: cons)
  have none: "To4 (0xFC # replicate 15 0) = None" using To4_nets(7) by (simp only: net)
  have "list_ex (\<lambda>n. Contains n ip) blockedNets =
      (and_bytes (replicate 15 0 @ [1]) (replicate 16 255) = and_bytes ip (replicate 16 255) \<or>
       and_bytes (0xFC # replicate 15 0) (0xFE # replicate 15 0) = and_bytes ip (0xFE # replicate 15 0))"
    unfolding blockedNets_eval list_ex_Cons_iff list_ex_Nil_iff Contains_def ipnet.simps To4_nets v6 option.case mask net none
    using len by (simp add: Let_def)
  then show ?thesis unfolding fc ones using ip by auto
qed

lemma blocked_iff_reserved: "length ip = 16 \<Longrightarrow> list_ex (\<lambda>n. Contains n ip) blockedNets = reserved ip"
proof (cases "To4 ip")
  case None
  then show "length ip = 16 \<Longrightarrow> ?thesis" using Contains_v6 by (simp add: reserved_def)
next
  case (Some v)
  then have "length v = 4" by (auto simp: To4_def split: if_splits)
  then obtain a b c d where "v = [a, b, c, d]" using length_4 by blast
  with Some show ?thesis using Contains_v4 by (simp add: reserved_def)
qed

lemma any_blocked_iff:
  "any_blocked addrs \<longleftrightarrow> (\<exists>addr \<in> set addrs. \<exists>ip. ParseIP addr = Some ip \<and> reserved ip)"
  by (induction addrs) (auto simp: blocked_iff_reserved length_ParseIP split: option.splits)

text \<open>A URL the API accepts.\<close>

definition url_ok :: "web \<Rightarrow> string \<Rightarrow> bool" where
  "url_ok W u \<longleftrightarrow>
     (\<exists>scheme hostname addrs. url_Parse W u = Some (scheme, hostname) \<and>
        (scheme = ''http'' \<or> scheme = ''https'') \<and> hostname \<noteq> [] \<and>
        LookupHost W hostname = Some addrs \<and>
        (\<forall>addr \<in> set addrs. \<forall>ip. ParseIP addr = Some ip \<longrightarrow> \<not> reserved ip))"

lemma validate_ok: "validateWebhookURL W u = None \<longleftrightarrow> url_ok W u"
  by (auto simp: validateWebhookURL_def url_ok_def any_blocked_iff split: option.splits prod.splits if_splits)

section \<open>Properties\<close>

text \<open>
  C35. The bitwise test against the blocked networks is the test of the ranges they stand for:
  127.x, 10.x, 172.16.x to 172.31.x, 192.168.x and 169.254.x, also when written as an IPv6 address,
  the IPv6 loopback address and fc00::/7.
\<close>

theorem networks_are_ranges:
  assumes "ParseIP addr = Some ip"
  shows "list_ex (\<lambda>n. Contains n ip) blockedNets \<longleftrightarrow> reserved ip"
  using blocked_iff_reserved [OF length_ParseIP [OF assms]] .

text \<open>The metadata service of a cloud, as an IPv6 address.\<close>

theorem networks_are_ranges_witness:
  "list_ex (\<lambda>n. Contains n (v4_prefix @ [169, 254, 169, 254])) blockedNets"
proof -
  have "ParseIP ''::ffff:169.254.169.254'' = Some (v4_prefix @ [169, 254, 169, 254])" by code_simp
  moreover have "reserved (v4_prefix @ [169, 254, 169, 254])" by code_simp
  ultimately show ?thesis using networks_are_ranges by blast
qed

text \<open>
  C19. \<open>validateWebhookURL\<close> accepts a URL exactly if it parses, has the scheme http or https, has a
  host name, the name resolves, and none of its addresses is in a blocked range. Addresses that do
  not parse are not looked at.
\<close>

theorem webhook_accepted_iff: "validateWebhookURL W u = None \<longleftrightarrow> url_ok W u"
  by (rule validate_ok)

text \<open>
  Not every address that is not public is blocked: 0.0.0.0, which reaches the host itself on
  common systems, the link-local fe80::/10, shared address space and any address with a zone pass.
\<close>

lemma unblocked_addresses:
  assumes "url_Parse W u = Some (''http'', host)" and "host \<noteq> []"
    and "LookupHost W host = Some addrs"
    and "set addrs \<subseteq> {''0.0.0.0'', ''fe80::1'', ''100.64.0.1'', ''fe80::1%eth0'', ''::''}"
  shows "validateWebhookURL W u = None"
proof -
  have "ParseIP ''0.0.0.0'' = Some (v4_prefix @ [0, 0, 0, 0])" "\<not> reserved (v4_prefix @ [0, 0, 0, 0])"
    "ParseIP ''fe80::1'' = Some ([0xFE, 0x80] @ replicate 13 0 @ [1])"
    "\<not> reserved ([0xFE, 0x80] @ replicate 13 0 @ [1])"
    "ParseIP ''100.64.0.1'' = Some (v4_prefix @ [100, 64, 0, 1])" "\<not> reserved (v4_prefix @ [100, 64, 0, 1])"
    "ParseIP ''fe80::1%eth0'' = None"
    "ParseIP ''::'' = Some (replicate 16 0)" "\<not> reserved (replicate 16 0)"
    by code_simp+
  then have "\<forall>addr \<in> set addrs. \<forall>ip. ParseIP addr = Some ip \<longrightarrow> \<not> reserved ip"
    using assms(4) by auto
  then show ?thesis using assms(1-3) by (auto simp: validate_ok url_ok_def)
qed

end
