(* ===== verification/Config.thy ===== *)
theory Config
  imports GoText
begin

text \<open>
  \<open>internal/config\<close> and the pool size of \<open>internal/store/db.go\<close>: what the program reads from the
  environment variables. \<open>getenv\<close> gives the empty string for a variable that is not set.
\<close>

record config =
  DatabaseURL :: string
  Port :: string
  Strategy :: string

definition Load :: "(string \<Rightarrow> string) \<Rightarrow> config" where
  "Load getenv =
     (let port = (if getenv ''PORT'' = [] then ''8080'' else getenv ''PORT'');
          strategy = (if getenv ''STRATEGY'' = [] then ''conditional_update'' else getenv ''STRATEGY'')
      in \<lparr>DatabaseURL = getenv ''DATABASE_URL'', Port = port, Strategy = strategy\<rparr>)"

section \<open>\<open>store/db.go\<close>\<close>

type_synonym int32 = "32 word"

text \<open>\<open>strconv.ParseInt(s, 10, 32)\<close> gives an \<open>int64\<close> in the range of \<open>int32\<close>.\<close>

definition ParseInt32 :: "string \<Rightarrow> int64 option" where
  "ParseInt32 s =
     (case ParseInt s of None \<Rightarrow> None | Some n \<Rightarrow> if int4 (sint n) then Some n else None)"

definition defaultPoolMaxConns :: int32 where
  "defaultPoolMaxConns = 25"

record pool_config =
  ConnString :: string
  MaxConns :: int32

text \<open>
  \<open>NewPool\<close> up to the call of \<open>pgxpool.NewWithConfig\<close>: the configuration it is called with.
  \<open>valid\<close> says which connection strings \<open>pgxpool.ParseConfig\<close> takes.
\<close>

definition NewPool :: "(string \<Rightarrow> bool) \<Rightarrow> (string \<Rightarrow> string) \<Rightarrow> string \<Rightarrow> pool_config option" where
  "NewPool valid getenv databaseURL =
     (if \<not> valid databaseURL then None
      else
        (let s = getenv ''DATABASE_POOL_MAX_CONNS'';
             maxConns =
               (if s \<noteq> [] then
                  (case ParseInt32 s of
                     Some n \<Rightarrow> if 0 < sint n then scast n else defaultPoolMaxConns
                   | None \<Rightarrow> defaultPoolMaxConns)
                else defaultPoolMaxConns)
         in Some \<lparr>ConnString = databaseURL, MaxConns = maxConns\<rparr>))"

text \<open>The conversion to \<open>int32\<close> keeps the value.\<close>

lemma scast_int4: "int4 (sint (n :: int64)) \<Longrightarrow> sint (scast n :: int32) = sint n"
proof -
  assume "int4 (sint n)"
  moreover have "scast n = (word_of_int (sint n) :: int32)" by (rule scast_eq)
  ultimately show ?thesis
    by (simp only: sint_sbintrunc') (simp add: int4_def signed_take_bit_int_eq_self)
qed

text \<open>The pool is never without a connection: a value that is not a positive \<open>int32\<close> is ignored.\<close>

lemma pool_size:
  assumes "NewPool valid getenv databaseURL = Some p"
  shows "0 < sint (MaxConns p) \<and>
    (sint (MaxConns p) = 25 \<or>
     (\<exists>n. ParseInt (getenv ''DATABASE_POOL_MAX_CONNS'') = Some n \<and> sint (MaxConns p) = sint n))"
proof (cases "\<exists>n. getenv ''DATABASE_POOL_MAX_CONNS'' \<noteq> [] \<and>
    ParseInt32 (getenv ''DATABASE_POOL_MAX_CONNS'') = Some n \<and> 0 < sint n")
  case True
  then obtain n where n: "getenv ''DATABASE_POOL_MAX_CONNS'' \<noteq> []"
    "ParseInt32 (getenv ''DATABASE_POOL_MAX_CONNS'') = Some n" "0 < sint n" by blast
  then have "ParseInt (getenv ''DATABASE_POOL_MAX_CONNS'') = Some n" "int4 (sint n)"
    by (auto simp: ParseInt32_def split: option.splits if_splits)
  moreover have "MaxConns p = scast n" using assms n by (auto simp: NewPool_def Let_def split: if_splits)
  ultimately show ?thesis using n scast_int4 by auto
next
  case False
  then have "MaxConns p = 25"
    using assms
    by (auto simp: NewPool_def Let_def defaultPoolMaxConns_def split: option.splits if_splits)
  moreover have "sint (25 :: int32) = 25" by code_simp
  ultimately show ?thesis by simp
qed

end
