(* ===== verification/Poller.thy ===== *)
theory Poller
  imports Store
begin

text \<open>
  \<open>internal/outbox/poller.go\<close>: claiming a batch of due events, delivering each to its webhook,
  marking the outcome. Contexts and log lines are left out: a call that times out is a call that
  fails. The row relation \<open>marked\<close> says what may become of the row of an event; the section on
  effects shows that the code allows nothing else, whatever calls fail.
\<close>

section \<open>The code\<close>

definition batchSize :: int where
  "batchSize = 50"

definition poller_maxRetries :: int where
  "poller_maxRetries = 8"

text \<open>\<open>http.StatusText\<close>: the empty text for a status that is not registered.\<close>

definition status_texts :: "(nat \<times> string) list" where
  "status_texts =
    [(100, ''Continue''), (101, ''Switching Protocols''), (102, ''Processing''),
     (103, ''Early Hints''), (200, ''OK''), (201, ''Created''), (202, ''Accepted''),
     (203, ''Non-Authoritative Information''), (204, ''No Content''), (205, ''Reset Content''),
     (206, ''Partial Content''), (207, ''Multi-Status''), (208, ''Already Reported''),
     (226, ''IM Used''), (300, ''Multiple Choices''), (301, ''Moved Permanently''),
     (302, ''Found''), (303, ''See Other''), (304, ''Not Modified''), (305, ''Use Proxy''),
     (307, ''Temporary Redirect''), (308, ''Permanent Redirect''), (400, ''Bad Request''),
     (401, ''Unauthorized''), (402, ''Payment Required''), (403, ''Forbidden''),
     (404, ''Not Found''), (405, ''Method Not Allowed''), (406, ''Not Acceptable''),
     (407, ''Proxy Authentication Required''), (408, ''Request Timeout''), (409, ''Conflict''),
     (410, ''Gone''), (411, ''Length Required''), (412, ''Precondition Failed''),
     (413, ''Request Entity Too Large''), (414, ''Request URI Too Long''),
     (415, ''Unsupported Media Type''), (416, ''Requested Range Not Satisfiable''),
     (417, ''Expectation Failed''), (418, ''I'' @ CHR 0x27 # ''m a teapot''), (421, ''Misdirected Request''),
     (422, ''Unprocessable Entity''), (423, ''Locked''), (424, ''Failed Dependency''),
     (425, ''Too Early''), (426, ''Upgrade Required''), (428, ''Precondition Required''),
     (429, ''Too Many Requests''), (431, ''Request Header Fields Too Large''),
     (451, ''Unavailable For Legal Reasons''), (500, ''Internal Server Error''),
     (501, ''Not Implemented''), (502, ''Bad Gateway''), (503, ''Service Unavailable''),
     (504, ''Gateway Timeout''), (505, ''HTTP Version Not Supported''),
     (506, ''Variant Also Negotiates''), (507, ''Insufficient Storage''),
     (508, ''Loop Detected''), (510, ''Not Extended''),
     (511, ''Network Authentication Required'')]"

definition StatusText :: "nat \<Rightarrow> string" where
  "StatusText code = (case map_of status_texts code of None \<Rightarrow> [] | Some s \<Rightarrow> s)"

text \<open>The loop of \<open>markDeliveredWithRetry\<close>; the argument counts the attempts left.\<close>

primrec mark_loop :: "nat \<Rightarrow> uuid \<Rightarrow> unit prog" where
  "mark_loop 0 i = Ret ()"
| "mark_loop (Suc n) i =
     bindp (MarkDelivered i) (\<lambda>r. case r of
       Inr _ \<Rightarrow> Ret ()
     | Inl _ \<Rightarrow> if 0 < n then Sleep 1000000 (mark_loop n i) else mark_loop n i)"

definition markDeliveredWithRetry :: "uuid \<Rightarrow> unit prog" where
  "markDeliveredWithRetry i = mark_loop 3 i"

text \<open>The request: the payload, with the event's id and type in the headers.\<close>

definition request_of :: "outbox_event \<Rightarrow> string \<Rightarrow> http_request" where
  "request_of e url = \<lparr>rq_url = url, rq_body = E_Payload e, rq_event_id = E_ID e,
     rq_event_type = E_EventType e\<rparr>"

definition no_url :: "outbox_event \<Rightarrow> bool" where
  "no_url e \<longleftrightarrow> E_TargetURL e = None \<or> E_TargetURL e = Some []"

definition mark_answer :: "outbox_event \<Rightarrow> string + nat \<Rightarrow> unit prog" where
  "mark_answer e answer =
     (case answer of
        Inl msg \<Rightarrow> bindp (MarkFailed (E_ID e) msg poller_maxRetries) (\<lambda>_. Ret ())
      | Inr code \<Rightarrow>
          if 200 \<le> code \<and> code < 300 then markDeliveredWithRetry (E_ID e)
          else if 400 \<le> code \<and> code < 500 then
            bindp (MarkDeadLetter (E_ID e) (StatusText code)) (\<lambda>_. Ret ())
          else bindp (MarkFailed (E_ID e) (StatusText code) poller_maxRetries) (\<lambda>_. Ret ()))"

definition deliver :: "outbox_event \<Rightarrow> unit prog" where
  "deliver e =
     (if no_url e then bindp (MarkDelivered (E_ID e)) (\<lambda>_. Ret ())
      else
        (let url = the (E_TargetURL e)
         in NewRequest url (\<lambda>bad. case bad of
              Some msg \<Rightarrow>
                bindp (MarkDeadLetter (E_ID e) (''bad target_url: '' @ msg)) (\<lambda>_. Ret ())
            | None \<Rightarrow> DoRequest (request_of e url) (mark_answer e))))"

primrec deliver_all :: "outbox_event list \<Rightarrow> unit prog" where
  "deliver_all [] = Ret ()"
| "deliver_all (e # es) = bindp (deliver e) (\<lambda>_. deliver_all es)"

definition poll :: "err option prog" where
  "poll =
     bindp (ClaimPendingEvents batchSize) (\<lambda>r. case r of
       Inl e \<Rightarrow> Ret (Some e)
     | Inr events \<Rightarrow> bindp (deliver_all events) (\<lambda>_. Ret None))"

text \<open>
  \<open>Run\<close> selects between the cancellation of its context and the ticks of its timer: the argument
  is the sequence of what it selects. An error of \<open>poll\<close> is logged.
\<close>

datatype signal = Tick | Done_ctx

primrec Run :: "signal list \<Rightarrow> unit prog" where
  "Run [] = Ret ()"
| "Run (s # ss) =
     (case s of Done_ctx \<Rightarrow> Ret () | Tick \<Rightarrow> bindp poll (\<lambda>_. Run ss))"

section \<open>What may become of an event\<close>

text \<open>The call log holds the answer \<open>a\<close> to a request for the event.\<close>

type_synonym log = "(http_request \<times> (string + nat)) list"

definition answered :: "log \<Rightarrow> outbox_event \<Rightarrow> string + nat \<Rightarrow> bool" where
  "answered log e a \<longleftrightarrow> (\<exists>url. E_TargetURL e = Some url \<and> (request_of e url, a) \<in> set log)"

definition accepted :: "log \<Rightarrow> outbox_event \<Rightarrow> bool" where
  "accepted log e \<longleftrightarrow> (\<exists>code. answered log e (Inr code) \<and> 200 \<le> code \<and> code < 300)"

text \<open>A permanent failure, with its reason; a transient one.\<close>

definition rejected :: "environ \<Rightarrow> log \<Rightarrow> outbox_event \<Rightarrow> string \<Rightarrow> bool" where
  "rejected orc log e reason \<longleftrightarrow>
     (\<exists>url msg. E_TargetURL e = Some url \<and> o_bad_url orc url = Some msg \<and>
        reason = ''bad target_url: '' @ msg) \<or>
     (\<exists>code. answered log e (Inr code) \<and> 400 \<le> code \<and> code < 500 \<and> reason = StatusText code)"

definition missed :: "log \<Rightarrow> outbox_event \<Rightarrow> string \<Rightarrow> bool" where
  "missed log e reason \<longleftrightarrow>
     answered log e (Inl reason) \<or>
     (\<exists>code. answered log e (Inr code) \<and> \<not> (200 \<le> code \<and> code < 300) \<and>
        \<not> (400 \<le> code \<and> code < 500) \<and> reason = StatusText code)"

inductive marked :: "environ \<Rightarrow> log \<Rightarrow> outbox_event \<Rightarrow> outbox_row \<Rightarrow> outbox_row \<Rightarrow> bool"
  for orc log e where
  unmarked: "marked orc log e r r"
| delivered: "no_url e \<or> accepted log e \<Longrightarrow>
    marked orc log e r (r\<lparr>ob_status := Delivered, ob_delivered := Some now, ob_next := None\<rparr>)"
| dead: "rejected orc log e reason \<Longrightarrow>
    marked orc log e r (r\<lparr>ob_status := DeadLetter, ob_reason := Some reason, ob_next := None,
                          ob_attempts := ob_attempts r + 1\<rparr>)"
| given_up: "missed log e reason \<Longrightarrow> poller_maxRetries \<le> ob_attempts r + 1 \<Longrightarrow>
    marked orc log e r (r\<lparr>ob_attempts := ob_attempts r + 1, ob_reason := Some reason,
                          ob_status := DeadLetter, ob_next := None\<rparr>)"
| rescheduled: "missed log e reason \<Longrightarrow> ob_attempts r + 1 < poller_maxRetries \<Longrightarrow>
    marked orc log e r (r\<lparr>ob_attempts := ob_attempts r + 1, ob_reason := Some reason,
                          ob_status := Pending, ob_next := Some (backoff v (ob_attempts r + 1))\<rparr>)"

text \<open>What the mark says, read off the new row.\<close>

lemma marked_sound:
  assumes "marked orc log e r r'" and "r' \<noteq> r"
  shows "case ob_status r' of
      Delivered \<Rightarrow> no_url e \<or> accepted log e
    | DeadLetter \<Rightarrow> (\<exists>reason. ob_reason r' = Some reason \<and> (rejected orc log e reason \<or>
        (missed log e reason \<and> poller_maxRetries \<le> ob_attempts r')))
    | Pending \<Rightarrow> (\<exists>reason. ob_reason r' = Some reason \<and> missed log e reason) \<and>
        ob_attempts r' < poller_maxRetries
    | InFlight \<Rightarrow> False"
  using assms by (induction rule: marked.cases) auto

text \<open>A mark never touches what the event is.\<close>

lemma marked_frame:
  "marked orc log e r r' \<Longrightarrow>
     ob_id r' = ob_id r \<and> ob_type r' = ob_type r \<and> ob_payload r' = ob_payload r \<and>
     ob_target r' = ob_target r \<and> ob_created r' = ob_created r"
  by (induction rule: marked.cases) auto

lemma marked_more_log:
  assumes "marked orc log e r r'" and "set log \<subseteq> set log'"
  shows "marked orc log' e r r'"
proof -
  have a: "answered log e a \<Longrightarrow> answered log' e a" for a
    using assms(2) by (auto simp: answered_def)
  then have "accepted log e \<Longrightarrow> accepted log' e" "rejected orc log e m \<Longrightarrow> rejected orc log' e m"
    "missed log e m \<Longrightarrow> missed log' e m" for m
    by (auto simp: accepted_def rejected_def missed_def)
  with assms(1) show ?thesis by (induction rule: marked.cases) (auto intro: marked.intros)
qed

section \<open>Statements on the pool\<close>

text \<open>The rows that satisfy \<open>P\<close> are related by \<open>R\<close>, the others are as they were.\<close>

definition row_step :: "('r \<Rightarrow> bool) \<Rightarrow> ('r \<Rightarrow> 'r \<Rightarrow> bool) \<Rightarrow> 'r \<Rightarrow> 'r \<Rightarrow> bool" where
  "row_step P R r r' \<longleftrightarrow> (if P r then R r r' else r' = r)"

lemma row_step_intros: "P r \<Longrightarrow> R r r' \<Longrightarrow> row_step P R r r'" "\<not> P r \<Longrightarrow> row_step P R r r"
  by (simp_all add: row_step_def)

lemma update_rows_step:
  "update_rows P f rs = Inr (n, rs') \<Longrightarrow> list_all2 (row_step P (\<lambda>r r'. f r = Inr r')) rs rs'"
  by (induction rs arbitrary: n rs') (auto split: sum.splits if_splits intro: row_step_intros)

definition rows_at :: "uuid \<Rightarrow> (outbox_row \<Rightarrow> outbox_row \<Rightarrow> bool) \<Rightarrow> db \<Rightarrow> db \<Rightarrow> bool" where
  "rows_at i R d d' \<longleftrightarrow>
     d' = d\<lparr>outbox := outbox d'\<rparr> \<and>
     list_all2 (row_step (\<lambda>r. ob_id r = i) R) (outbox d) (outbox d')"

lemma rows_at_refl: "(\<And>r. R r r) \<Longrightarrow> rows_at i R d d"
  unfolding rows_at_def by (auto intro!: list_all2_refl simp: row_step_def)

lemma rows_at_mono: "rows_at i R d d' \<Longrightarrow> (\<And>r r'. R r r' \<Longrightarrow> R' r r') \<Longrightarrow> rows_at i R' d d'"
  unfolding rows_at_def by (auto elim!: list_all2_mono simp: row_step_def)

lemma outbox_only_trans:
  "d1 = d\<lparr>outbox := x\<rparr> \<Longrightarrow> d' = d1\<lparr>outbox := y\<rparr> \<Longrightarrow> d' = d\<lparr>outbox := y\<rparr>"
  by simp

lemma rows_at_trans:
  assumes "rows_at i R d d1" and "rows_at i R d1 d'"
    and "\<And>r r1 r'. R r r1 \<Longrightarrow> R r1 r' \<Longrightarrow> ob_id r1 = ob_id r \<and> R r r'"
    and "\<And>r r'. R r r' \<Longrightarrow> ob_id r' = ob_id r"
  shows "rows_at i R d d'"
proof -
  let ?S = "row_step (\<lambda>r. ob_id r = i) R"
  have S: "?S r r1 \<Longrightarrow> ?S r1 r' \<Longrightarrow> ?S r r'" for r r1 r'
    using assms(3,4) by (fastforce simp: row_step_def split: if_splits)
  have "list_all2 ?S (outbox d) (outbox d1)" "list_all2 ?S (outbox d1) (outbox d')"
    using assms(1,2) by (simp_all add: rows_at_def)
  with S have "list_all2 ?S (outbox d) (outbox d')" by (rule list_all2_trans)
  moreover have "d' = d\<lparr>outbox := outbox d'\<rparr>"
    using assms(1,2) by (auto simp: rows_at_def intro: outbox_only_trans)
  ultimately show ?thesis by (simp add: rows_at_def)
qed

lemma update_outbox_at:
  assumes "update_outbox (\<lambda>r. ob_id r = i) f d = Inr (n, rows, d')"
  shows "rows_at i (\<lambda>r r'. f r = Inr r') d d'"
proof -
  obtain os where "update_rows (\<lambda>r. ob_id r = i) f (outbox d) = Inr (n, os)"
    and "d' = d\<lparr>outbox := os\<rparr>"
    using assms by (auto simp: update_outbox_def split: sum.splits)
  then show ?thesis by (auto simp: rows_at_def dest: update_rows_step)
qed

text \<open>
  A statement on the pool: the transaction and the request log are untouched. If the call does not
  fail, the statement decides the reply and the tables; if it fails, there is an error, and the
  tables are as they were or as the statement leaves them.
\<close>

definition pool_env :: "environ \<Rightarrow> stmt \<Rightarrow> world \<Rightarrow> env" where
  "pool_env orc s w = stmt_env orc (o_clock orc (calls w)) s w"

lemma pool_env_sel [simp]:
  "e_now (pool_env orc s w) = o_clock orc (calls w)"
  "e_locked (pool_env orc s w) = o_locked orc (calls w)"
  by (simp_all add: pool_env_def stmt_env_def)

definition pool_frame :: "world \<Rightarrow> world \<Rightarrow> bool" where
  "pool_frame w w' \<longleftrightarrow>
     txn w' = txn w \<and> requests w' = requests w \<and> calls w' = Suc (calls w)"

definition pool_tables ::
  "environ \<Rightarrow> stmt \<Rightarrow> world \<Rightarrow> err + nat \<times> sqlval list list \<Rightarrow> world \<Rightarrow> bool" where
  "pool_tables orc s w r w' \<longleftrightarrow>
     (case exec_stmt (pool_env orc s w) s (tables w) of
        Inl e \<Rightarrow> (\<exists>e. r = Inl e) \<and> tables w' = tables w
      | Inr (n, rows, d) \<Rightarrow>
          if o_fault orc (calls w) = None then r = Inr (n, rows) \<and> tables w' = d
          else (\<exists>e. r = Inl e) \<and> (tables w' = tables w \<or> tables w' = d))"

lemma call_pool_effect:
  "call_pool orc s w = (r, w') \<Longrightarrow> pool_frame w w' \<and> pool_tables orc s w r w'"
  by (auto simp: call_pool_def pool_env_def pool_frame_def pool_tables_def
      split: sum.splits option.splits)

lemma exec_pool:
  assumes "run orc (exec Pool s) w = (r, w')"
  shows "\<exists>q. r = map_sum id fst q \<and> pool_frame w w' \<and> pool_tables orc s w q w'"
  using assms call_pool_effect by (auto simp: exec_def call_def split: prod.splits)

lemma query_pool:
  assumes "run orc (query Pool s) w = (r, w')"
  shows "\<exists>q. r = map_sum id snd q \<and> pool_frame w w' \<and> pool_tables orc s w q w'"
  using assms call_pool_effect by (auto simp: query_def call_def split: prod.splits)

text \<open>A statement whose reply has come took effect.\<close>

lemma query_pool_Inr:
  assumes "run orc (query Pool s) w = (Inr rows, w')"
  shows "\<exists>n. exec_stmt (pool_env orc s w) s (tables w) = Inr (n, rows, tables w') \<and> txn w' = txn w"
proof -
  obtain q where q: "Inr rows = map_sum id snd q" "pool_frame w w'" "pool_tables orc s w q w'"
    using query_pool [OF assms] by blast
  then obtain n where "q = Inr (n, rows)" by (cases q) auto
  with q show ?thesis
    by (auto simp: pool_tables_def pool_frame_def split: sum.splits if_splits)
qed

lemma exec_pool_Inr:
  assumes "run orc (exec Pool s) w = (Inr n, w')"
  shows "\<exists>rows. exec_stmt (pool_env orc s w) s (tables w) = Inr (n, rows, tables w') \<and> txn w' = txn w"
proof -
  obtain q where q: "Inr n = map_sum id fst q" "pool_frame w w'" "pool_tables orc s w q w'"
    using exec_pool [OF assms] by blast
  then obtain rows where "q = Inr (n, rows)" by (cases q) auto
  with q show ?thesis
    by (auto simp: pool_tables_def pool_frame_def split: sum.splits if_splits)
qed

section \<open>Marking\<close>

lemma mark_effect:
  assumes run: "run orc (tryp (exec Pool s) (\<lambda>_. return ())) w = (r, w')"
    and stmt: "\<And>v d n rows d'. exec_stmt v s d = Inr (n, rows, d') \<Longrightarrow> rows_at i R d d'"
    and R: "\<And>r. R r r"
  shows "pool_frame w w' \<and> rows_at i R (tables w) (tables w')"
proof -
  obtain q where "pool_frame w w'" and t: "pool_tables orc s w q w'"
    using run by (auto simp: run_tryp split: prod.splits sum.splits dest!: exec_pool)
  moreover have "rows_at i R (tables w) (tables w')"
    using t rows_at_refl [of R, OF R] stmt
    by (auto simp: pool_tables_def split: sum.splits if_splits)
  ultimately show ?thesis by blast
qed

text \<open>Delivered twice is delivered, at the later time.\<close>

definition delivered_once :: "outbox_row \<Rightarrow> outbox_row \<Rightarrow> bool" where
  "delivered_once r r' \<longleftrightarrow> r' = r \<or>
     (\<exists>now. r' = r\<lparr>ob_status := Delivered, ob_delivered := Some now, ob_next := None\<rparr>)"

lemma delivered_once_trans:
  "delivered_once r r1 \<Longrightarrow> delivered_once r1 r' \<Longrightarrow> ob_id r1 = ob_id r \<and> delivered_once r r'"
  by (auto simp: delivered_once_def)

lemma delivered_once_marked:
  "delivered_once r r' \<Longrightarrow> no_url e \<or> accepted log e \<Longrightarrow> marked orc log e r r'"
  by (auto simp: delivered_once_def intro: marked.intros)

text \<open>The three marking statements.\<close>

lemma deliver_stmt_rows:
  "exec_stmt v (DeliverEvent i) d = Inr (n, rows, d') \<Longrightarrow> rows_at i delivered_once d d'"
  unfolding exec_stmt.simps sql_deliver_event_def
  by (intro rows_at_mono [OF update_outbox_at]) (auto simp: delivered_once_def)

lemma kill_stmt_rows:
  "exec_stmt v (KillEvent (E_ID e) reason) d = Inr (n, rows, d') \<Longrightarrow> rejected orc log e reason \<Longrightarrow>
     rows_at (E_ID e) (marked orc log e) d d'"
  unfolding exec_stmt.simps sql_kill_event_def
  by (intro rows_at_mono [OF update_outbox_at]) (auto intro: marked.dead split: if_splits)

lemma fail_stmt_rows:
  assumes "exec_stmt v (FailEvent (E_ID e) reason poller_maxRetries) d = Inr (n, rows, d')"
    and "missed log e reason"
  shows "rows_at (E_ID e) (marked orc log e) d d'"
  using assms(1) unfolding exec_stmt.simps sql_fail_event_def
  by (intro rows_at_mono [OF update_outbox_at])
    (auto simp: Let_def intro!: marked.given_up [OF assms(2)] marked.rescheduled [OF assms(2)]
      split: if_splits)

lemma MarkDelivered_effect:
  assumes "run orc (MarkDelivered i) w = (r, w')"
  shows "pool_frame w w' \<and> rows_at i delivered_once (tables w) (tables w')"
  by (rule mark_effect [OF assms [unfolded MarkDelivered_def] deliver_stmt_rows])
    (simp_all add: delivered_once_def)

lemma MarkDeadLetter_effect:
  assumes "run orc (MarkDeadLetter (E_ID e) reason) w = (r, w')" and "rejected orc log e reason"
  shows "pool_frame w w' \<and> rows_at (E_ID e) (marked orc log e) (tables w) (tables w')"
  by (rule mark_effect [OF assms(1) [unfolded MarkDeadLetter_def] kill_stmt_rows])
    (use assms(2) in \<open>simp_all add: marked.unmarked\<close>)

lemma MarkFailed_effect:
  assumes "run orc (MarkFailed (E_ID e) reason poller_maxRetries) w = (r, w')" and "missed log e reason"
  shows "pool_frame w w' \<and> rows_at (E_ID e) (marked orc log e) (tables w) (tables w')"
  by (rule mark_effect [OF assms(1) [unfolded MarkFailed_def] fail_stmt_rows])
    (use assms(2) in \<open>simp_all add: marked.unmarked\<close>)

text \<open>The rest of the world: no transaction is opened, the log only grows.\<close>

definition poller_frame :: "log \<Rightarrow> world \<Rightarrow> world \<Rightarrow> bool" where
  "poller_frame log w w' \<longleftrightarrow>
     txn w' = txn w \<and> requests w' = requests w @ log \<and> calls w \<le> calls w'"

lemma pool_poller_frame: "pool_frame w w' \<Longrightarrow> poller_frame [] w w'"
  by (simp add: pool_frame_def poller_frame_def)

lemma poller_frame_trans:
  "poller_frame log1 w w1 \<Longrightarrow> poller_frame log2 w1 w' \<Longrightarrow> poller_frame (log1 @ log2) w w'"
  by (simp add: poller_frame_def)

lemma delivered_rows_trans:
  "rows_at i delivered_once d d1 \<Longrightarrow> rows_at i delivered_once d1 d' \<Longrightarrow> rows_at i delivered_once d d'"
  by (erule (1) rows_at_trans) (auto simp: delivered_once_def)

lemma mark_loop_effect:
  "run orc (mark_loop n i) w = (u, w') \<Longrightarrow>
     poller_frame [] w w' \<and> rows_at i delivered_once (tables w) (tables w')"
proof (induction n arbitrary: w)
  case 0
  then show ?case by (auto simp: poller_frame_def delivered_once_def intro: rows_at_refl)
next
  case (Suc n)
  obtain r w1 where r: "run orc (MarkDelivered i) w = (r, w1)" by fastforce
  note first = MarkDelivered_effect [OF r]
  show ?case
  proof (cases r)
    case (Inr x)
    with Suc.prems r first show ?thesis by (auto simp: run_bindp intro: pool_poller_frame)
  next
    case (Inl e)
    define w2 where "w2 = (if 0 < n then tick w1 else w1)"
    have "run orc (mark_loop n i) w2 = (u, w')" and "poller_frame [] w1 w2" "tables w2 = tables w1"
      using Suc.prems r Inl by (auto simp: run_bindp w2_def poller_frame_def split: if_splits)
    with Suc.IH [of w2] have rest: "poller_frame [] w2 w'" "rows_at i delivered_once (tables w1) (tables w')"
      by auto
    have "poller_frame [] w w'"
      using first rest(1) \<open>poller_frame [] w1 w2\<close>
      by (auto simp: poller_frame_def pool_frame_def)
    with delivered_rows_trans first rest(2) show ?thesis by blast
  qed
qed

section \<open>Delivering\<close>

text \<open>Every request of the log is for one of the events, at its target.\<close>

definition log_for :: "outbox_event list \<Rightarrow> log \<Rightarrow> bool" where
  "log_for es log \<longleftrightarrow>
     (\<forall>(q, a) \<in> set log. \<exists>e \<in> set es. \<exists>url. E_TargetURL e = Some url \<and> q = request_of e url)"

lemma log_for_Nil [simp]: "log_for es []"
  by (simp add: log_for_def)

lemma log_for_append:
  "log_for es log1 \<Longrightarrow> log_for es' log2 \<Longrightarrow> log_for (es @ es') (log1 @ log2)"
  by (fastforce simp: log_for_def)

lemma mark_answer_effect:
  assumes "run orc (mark_answer e a) w = (u, w')" and "answered log e a"
  shows "poller_frame [] w w' \<and> rows_at (E_ID e) (marked orc log e) (tables w) (tables w')"
proof -
  have failed: ?thesis
    if f: "run orc (bindp (MarkFailed (E_ID e) m poller_maxRetries) (\<lambda>_. Ret ())) w = (u, w')"
      and m: "missed log e m" for m
  proof -
    obtain r where "run orc (MarkFailed (E_ID e) m poller_maxRetries) w = (r, w')"
      using f by (cases "run orc (MarkFailed (E_ID e) m poller_maxRetries) w") (simp add: run_bindp)
    then show ?thesis using MarkFailed_effect [OF _ m] pool_poller_frame by blast
  qed
  show ?thesis
  proof (cases a)
    case (Inl m)
    have "missed log e m" using assms(2) Inl by (simp add: missed_def)
    then show ?thesis using failed assms(1) Inl by (simp add: mark_answer_def)
  next
    case (Inr c)
    consider "200 \<le> c \<and> c < 300" | "400 \<le> c \<and> c < 500"
      | "\<not> (200 \<le> c \<and> c < 300)" "\<not> (400 \<le> c \<and> c < 500)" by blast
    then show ?thesis
    proof cases
      case 1
      then have acc: "accepted log e" using assms(2) Inr by (auto simp: accepted_def)
      have "run orc (mark_loop 3 (E_ID e)) w = (u, w')"
        using assms(1) Inr 1 by (simp add: mark_answer_def markDeliveredWithRetry_def)
      from mark_loop_effect [OF this] show ?thesis
        using acc by (auto intro: rows_at_mono delivered_once_marked)
    next
      case 2
      then have "rejected orc log e (StatusText c)" using assms(2) Inr by (auto simp: rejected_def)
      moreover obtain r where "run orc (MarkDeadLetter (E_ID e) (StatusText c)) w = (r, w')"
        using assms(1) Inr 2 by (auto simp: mark_answer_def run_bindp split: prod.splits)
      ultimately show ?thesis using MarkDeadLetter_effect pool_poller_frame by blast
    next
      case 3
      then have "missed log e (StatusText c)" using assms(2) Inr by (auto simp: missed_def)
      then show ?thesis using failed assms(1) Inr 3 by (auto simp: mark_answer_def)
    qed
  qed
qed

lemma deliver_effect:
  assumes run: "run orc (deliver e) w = (u, w')"
  shows "\<exists>log. poller_frame log w w' \<and> log_for [e] log \<and>
    rows_at (E_ID e) (marked orc log e) (tables w) (tables w')"
proof (cases "no_url e")
  case True
  then obtain r where "run orc (MarkDelivered (E_ID e)) w = (r, w')"
    using run by (auto simp: deliver_def run_bindp split: prod.splits)
  from MarkDelivered_effect [OF this] show ?thesis
    using True by (intro exI [where x = "[]"])
      (auto intro: pool_poller_frame rows_at_mono delivered_once_marked)
next
  case False
  then obtain url where url: "E_TargetURL e = Some url" by (auto simp: no_url_def)
  show ?thesis
  proof (cases "o_bad_url orc url")
    case (Some m)
    then have "rejected orc [] e (''bad target_url: '' @ m)" using url by (auto simp: rejected_def)
    moreover obtain r where "run orc (MarkDeadLetter (E_ID e) (''bad target_url: '' @ m)) (tick w) = (r, w')"
      using run False url Some by (auto simp: deliver_def run_bindp simp del: tick_simps split: prod.splits)
    ultimately have "pool_frame (tick w) w'" "rows_at (E_ID e) (marked orc [] e) (tables w) (tables w')"
      using MarkDeadLetter_effect by fastforce+
    then show ?thesis
      by (intro exI [where x = "[]"]) (auto simp: poller_frame_def pool_frame_def)
  next
    case None
    let ?a = "o_http orc (calls (tick w))"
    let ?log = "[(request_of e url, ?a)]"
    define w1 where "w1 = tick ((tick w)\<lparr>requests := requests w @ ?log\<rparr>)"
    have "run orc (mark_answer e ?a) w1 = (u, w')"
      using run False url None by (simp add: deliver_def w1_def)
    moreover have "answered ?log e ?a" using url by (simp add: answered_def)
    ultimately have "poller_frame [] w1 w'" "rows_at (E_ID e) (marked orc ?log e) (tables w1) (tables w')"
      using mark_answer_effect by blast+
    then show ?thesis
      using url by (intro exI [where x = ?log]) (auto simp: w1_def poller_frame_def log_for_def)
  qed
qed

text \<open>A batch: each row is marked for the event with its id, if there is one.\<close>

definition batch_row :: "environ \<Rightarrow> log \<Rightarrow> outbox_event list \<Rightarrow> outbox_row \<Rightarrow> outbox_row \<Rightarrow> bool" where
  "batch_row orc log es r r' \<longleftrightarrow>
     (case find (\<lambda>e. E_ID e = ob_id r) es of None \<Rightarrow> r' = r | Some e \<Rightarrow> marked orc log e r r')"

lemma batch_row_id: "batch_row orc log es r r' \<Longrightarrow> ob_id r' = ob_id r"
  by (auto simp: batch_row_def split: option.splits dest: marked_frame)

lemma batch_row_cons:
  assumes "row_step (\<lambda>r. ob_id r = E_ID e) (marked orc log1 e) r r1" and "batch_row orc log2 es r1 r'"
    and "E_ID e \<notin> E_ID ` set es"
  shows "batch_row orc (log1 @ log2) (e # es) r r'"
proof (cases "ob_id r = E_ID e")
  case True
  with assms(1) have m: "marked orc log1 e r r1" by (simp add: row_step_def)
  have "ob_id r1 = E_ID e" using marked_frame [OF m] True by simp
  then have "find (\<lambda>e. E_ID e = ob_id r1) es = None" using assms(3) by (simp add: find_None_iff) (metis imageI)
  with assms(2) have "r' = r1" by (simp add: batch_row_def)
  with m True show ?thesis by (auto simp: batch_row_def intro: marked_more_log)
next
  case False
  with assms(1) have "r1 = r" by (simp add: row_step_def)
  with assms(2) False show ?thesis
    by (auto simp: batch_row_def intro: marked_more_log split: option.splits)
qed

lemma deliver_all_effect:
  assumes "run orc (deliver_all es) w = (u, w')" and "distinct (map E_ID es)"
  shows "\<exists>log. poller_frame log w w' \<and> log_for es log \<and>
    tables w' = (tables w)\<lparr>outbox := outbox (tables w')\<rparr> \<and>
    list_all2 (batch_row orc log es) (outbox (tables w)) (outbox (tables w'))"
  using assms
proof (induction es arbitrary: w)
  case Nil
  then show ?case
    by (intro exI [where x = "[]"]) (auto simp: poller_frame_def batch_row_def intro: list_all2_refl)
next
  case (Cons e es)
  obtain w1 where r1: "run orc (deliver e) w = ((), w1)"
    by (cases "run orc (deliver e) w") simp
  with Cons.prems have r2: "run orc (deliver_all es) w1 = (u, w')" by (simp add: run_bindp)
  obtain log1 where 1: "poller_frame log1 w w1" "log_for [e] log1"
    "rows_at (E_ID e) (marked orc log1 e) (tables w) (tables w1)"
    using deliver_effect [OF r1] by blast
  obtain log2 where 2: "poller_frame log2 w1 w'" "log_for es log2"
    "tables w' = (tables w1)\<lparr>outbox := outbox (tables w')\<rparr>"
    "list_all2 (batch_row orc log2 es) (outbox (tables w1)) (outbox (tables w'))"
    using Cons.IH [OF r2] Cons.prems by auto
  have "list_all2 (batch_row orc (log1 @ log2) (e # es)) (outbox (tables w)) (outbox (tables w'))"
    by (rule list_all2_trans [OF _ _ 2(4)],
        rule batch_row_cons [of e orc log1], assumption, assumption)
      (use Cons.prems 1(3) in \<open>auto simp: rows_at_def\<close>)
  moreover have "tables w' = (tables w)\<lparr>outbox := outbox (tables w')\<rparr>"
    using 1(3) 2(3) by (auto simp: rows_at_def intro: outbox_only_trans)
  moreover have "log_for (e # es) (log1 @ log2)" using log_for_append [OF 1(2) 2(2)] by simp
  ultimately show ?case using poller_frame_trans [OF 1(1) 2(1)] by blast
qed

section \<open>A poll\<close>

definition event_of :: "outbox_row \<Rightarrow> outbox_event" where
  "event_of r = \<lparr>E_ID = ob_id r, E_EventType = ob_type r, E_Payload = ob_payload r,
     E_TargetURL = ob_target r, E_Status = outbox_status_text (ob_status r)\<rparr>"

lemma event_of_claim [simp]: "E_ID (event_of (claim_row v n r)) = ob_id r"
  by (simp add: event_of_def claim_row_def)

lemma scan_event_of: "scan_event (Inr (outbox_row_vals r)) = Inr (event_of r)"
  by (simp add: outbox_row_vals_def event_of_def opt_text_def split: option.splits)

abbreviation taken :: "env \<Rightarrow> outbox_row \<Rightarrow> outbox_row" where
  "taken v r \<equiv> claim_row v staleInFlightThreshold r"

text \<open>The rows a claim takes, and the tables after it.\<close>

definition batch :: "env \<Rightarrow> db \<Rightarrow> outbox_row list" where
  "batch v d = filter (\<lambda>r. ob_id r \<in> set (claimable v (nat batchSize) (outbox d))) (outbox d)"

definition claimed_db :: "env \<Rightarrow> db \<Rightarrow> db" where
  "claimed_db v d = d\<lparr>outbox :=
     map (\<lambda>r. if ob_id r \<in> set (claimable v (nat batchSize) (outbox d)) then taken v r else r)
       (outbox d)\<rparr>"

lemma exec_claim:
  "exec_stmt v (ClaimEvents batchSize staleInFlightThreshold) d =
     Inr (length (batch v d), map (\<lambda>r. outbox_row_vals (taken v r)) (batch v d), claimed_db v d)"
  by (simp add: sql_claim_events_def Let_def batch_def claimed_db_def batchSize_def)

lemma scan_batch:
  "scan_rows scan_event (map (\<lambda>r. outbox_row_vals (taken v r)) rs) = Inr (map (event_of \<circ> taken v) rs)"
  using scan_rows_map [of rs scan_event "\<lambda>r. outbox_row_vals (taken v r)" "event_of \<circ> taken v"]
  by (simp add: scan_event_of del: store_scan_defs)

lemma ClaimPendingEvents_effect:
  assumes "run orc (ClaimPendingEvents batchSize) w = (r, w')"
    and v: "v = pool_env orc (ClaimEvents batchSize staleInFlightThreshold) w"
  shows "pool_frame w w' \<and>
    (if o_fault orc (calls w) = None
     then r = Inr (map (event_of \<circ> taken v) (batch v (tables w))) \<and> tables w' = claimed_db v (tables w)
     else (\<exists>e. r = Inl e) \<and> (tables w' = tables w \<or> tables w' = claimed_db v (tables w)))"
proof -
  let ?s = "ClaimEvents batchSize staleInFlightThreshold"
  obtain q where q: "run orc (query Pool ?s) w = (q, w')"
    and r: "r = (case q of Inl e \<Rightarrow> Inl e | Inr rows \<Rightarrow> scan_rows scan_event rows)"
    using assms(1)
    by (auto simp: ClaimPendingEvents_def run_tryp simp del: store_scan_defs split: prod.splits sum.splits)
  obtain x where "q = map_sum id snd x" and "pool_frame w w'" and t: "pool_tables orc ?s w x w'"
    using query_pool [OF q] by blast
  then show ?thesis
    using r by (auto simp: pool_tables_def exec_claim scan_batch v [symmetric]
        simp del: store_scan_defs exec_stmt.simps split: if_splits)
qed

lemma claimable_deliverable:
  assumes "distinct (map ob_id os)" and "r \<in> set os" and "ob_id r \<in> set (claimable v n os)"
  shows "deliverable (e_now v) r"
proof -
  obtain r1 where "r1 \<in> set os" "deliverable (e_now v) r1" "ob_id r1 = ob_id r"
    using assms(3) by (auto simp: claimable_def dest!: in_set_takeD)
  with assms(1,2) show ?thesis by (metis distinct_map inj_onD)
qed

text \<open>What a poll may do to a row: take it if it is due, and then mark it.\<close>

definition poll_row :: "environ \<Rightarrow> log \<Rightarrow> timestamp \<Rightarrow> outbox_row \<Rightarrow> outbox_row \<Rightarrow> bool" where
  "poll_row orc log now r r' \<longleftrightarrow>
     r' = r \<or>
     (deliverable now r \<and>
      (\<exists>v. e_now v = now \<and> marked orc log (event_of (taken v r)) (taken v r) r'))"

lemma find_batch:
  assumes "distinct (map ob_id os)" and "r \<in> set os"
  shows "find (\<lambda>e. E_ID e = ob_id r) (map (event_of \<circ> taken v) (filter (\<lambda>r. ob_id r \<in> I) os)) =
    (if ob_id r \<in> I then Some (event_of (taken v r)) else None)"
  using assms
proof (induction os)
  case Nil
  then show ?case by simp
next
  case (Cons x os)
  show ?case
  proof (cases "x = r")
    case True
    have "find (\<lambda>e. E_ID e = ob_id r) (map (event_of \<circ> taken v) (filter (\<lambda>r. ob_id r \<in> I) os)) = None"
      using Cons.prems True by (auto simp: find_None_iff) (metis imageI)
    with True show ?thesis by (simp add: comp_def)
  next
    case False
    with Cons show ?thesis by (auto simp: image_iff)
  qed
qed

lemma poll_effect:
  assumes run: "run orc poll w = (r, w')" and pk: "pk_ok (tables w)"
    and v: "v = pool_env orc (ClaimEvents batchSize staleInFlightThreshold) w"
  shows "\<exists>log. poller_frame log w w' \<and>
    log_for (map (event_of \<circ> taken v) (batch v (tables w))) log \<and>
    tables w' = (tables w)\<lparr>outbox := outbox (tables w')\<rparr> \<and>
    list_all2 (poll_row orc log (o_clock orc (calls w))) (outbox (tables w)) (outbox (tables w'))"
proof -
  have ids: "distinct (map ob_id (outbox (tables w)))" using pk by (simp add: pk_ok_def)
  obtain c w1 where c: "run orc (ClaimPendingEvents batchSize) w = (c, w1)" by fastforce
  note claim = ClaimPendingEvents_effect [OF c v]
  have now: "o_clock orc (calls w) = e_now v" by (simp add: v)
  have claimed: "list_all2 (poll_row orc [] (o_clock orc (calls w))) (outbox (tables w))
      (outbox (claimed_db v (tables w)))"
    unfolding claimed_db_def
    using claimable_deliverable [OF ids] marked.unmarked now
    by (simp add: list_all2_map2 list_all2_same poll_row_def) metis
  show ?thesis
  proof (cases c)
    case (Inl e)
    then have "w' = w1" using run c by (simp add: poll_def run_bindp)
    moreover have "list_all2 (poll_row orc [] (o_clock orc (calls w))) (outbox (tables w)) (outbox (tables w))"
      by (auto simp: poll_row_def intro: list_all2_refl)
    ultimately show ?thesis
      using claim claimed Inl by (intro exI [where x = "[]"])
        (auto simp: claimed_db_def intro: pool_poller_frame split: if_splits)
  next
    case (Inr es)
    with claim have es: "es = map (event_of \<circ> taken v) (batch v (tables w))"
      and t1: "tables w1 = claimed_db v (tables w)" and fr: "pool_frame w w1"
      by (auto split: if_splits)
    have run2: "run orc (deliver_all es) w1 = ((), w')"
      using run c Inr by (cases "run orc (deliver_all es) w1") (simp add: poll_def run_bindp)
    have "map E_ID es = map ob_id (batch v (tables w))" by (simp add: es comp_def)
    then have "distinct (map E_ID es)" using ids by (simp add: batch_def distinct_map_filter)
    from deliver_all_effect [OF run2 this] obtain log where log: "poller_frame log w1 w'"
      "log_for es log" "tables w' = (tables w1)\<lparr>outbox := outbox (tables w')\<rparr>"
      "list_all2 (batch_row orc log es) (outbox (tables w1)) (outbox (tables w'))" by blast
    have "list_all2 (poll_row orc log (o_clock orc (calls w))) (outbox (tables w)) (outbox (tables w'))"
    proof (rule list.rel_mono_strong)
      show "list_all2 (\<lambda>r. batch_row orc log es
          (if ob_id r \<in> set (claimable v (nat batchSize) (outbox (tables w))) then taken v r else r))
        (outbox (tables w)) (outbox (tables w'))"
        using log(4) by (simp add: t1 claimed_db_def list_all2_map1)
    next
      fix r r'
      assume r: "r \<in> set (outbox (tables w))"
        and b: "batch_row orc log es
          (if ob_id r \<in> set (claimable v (nat batchSize) (outbox (tables w))) then taken v r else r) r'"
      have id: "ob_id (taken v r) = ob_id r" by (simp add: claim_row_def)
      show "poll_row orc log (o_clock orc (calls w)) r r'"
      proof (cases "ob_id r \<in> set (claimable v (nat batchSize) (outbox (tables w)))")
        case True
        with b have "marked orc log (event_of (taken v r)) (taken v r) r'"
          using find_batch [OF ids r, of v] by (simp add: batch_row_def es batch_def id)
        then show ?thesis
          using claimable_deliverable [OF ids r True] now by (auto simp: poll_row_def)
      next
        case False
        with b have "r' = r"
          using find_batch [OF ids r, of v] by (simp add: batch_row_def es batch_def)
        then show ?thesis by (simp add: poll_row_def)
      qed
    qed
    then show ?thesis
      using log fr t1 es poller_frame_trans [OF pool_poller_frame [OF fr] log(1)]
      by (intro exI [where x = log]) (auto simp: claimed_db_def)
  qed
qed

section \<open>The life of an event\<close>

definition settled_event :: "outbox_row \<Rightarrow> bool" where
  "settled_event r \<longleftrightarrow> ob_status r = Delivered \<or> ob_status r = DeadLetter"

text \<open>
  The invariant of a row: at most eight attempts, fewer while it is alive; a row in flight has a
  deadline; a settled row has no next attempt; a dead one says why.
\<close>

definition event_row_ok :: "outbox_row \<Rightarrow> bool" where
  "event_row_ok r \<longleftrightarrow>
     0 \<le> ob_attempts r \<and> ob_attempts r \<le> poller_maxRetries \<and>
     (\<not> settled_event r \<longrightarrow> ob_attempts r < poller_maxRetries) \<and>
     (ob_status r = InFlight \<longrightarrow> ob_next r \<noteq> None) \<and>
     (settled_event r \<longrightarrow> ob_next r = None) \<and>
     (ob_status r = Delivered \<longleftrightarrow> ob_delivered r \<noteq> None) \<and>
     (ob_status r = DeadLetter \<longrightarrow> ob_reason r \<noteq> None \<and> 0 < ob_attempts r)"

definition events_ok :: "db \<Rightarrow> bool" where
  "events_ok d \<longleftrightarrow> (\<forall>r \<in> set (outbox d). event_row_ok r)"

lemma marked_event_row_ok:
  assumes "marked orc log e r r'" and "event_row_ok r" and "\<not> settled_event r"
  shows "event_row_ok r'"
  using assms
  by (induction rule: marked.cases) (auto simp: event_row_ok_def settled_event_def)

lemma deliverable_not_settled: "deliverable now r \<Longrightarrow> \<not> settled_event r"
  by (auto simp: deliverable_def settled_event_def)

lemma taken_event_row_ok:
  "event_row_ok r \<Longrightarrow> deliverable now r \<Longrightarrow> event_row_ok (taken v r) \<and> \<not> settled_event (taken v r)"
  by (auto simp: event_row_ok_def claim_row_def settled_event_def deliverable_def)

lemma poll_row_event_ok:
  assumes "poll_row orc log now r r'" and "event_row_ok r"
  shows "event_row_ok r'"
  using assms taken_event_row_ok marked_event_row_ok unfolding poll_row_def by blast

lemma poll_row_settled: "poll_row orc log now r r' \<Longrightarrow> settled_event r \<Longrightarrow> r' = r"
  using deliverable_not_settled unfolding poll_row_def by blast

lemma taken_frame [simp]:
  "ob_id (claim_row v n r) = ob_id r" "ob_type (claim_row v n r) = ob_type r"
  "ob_payload (claim_row v n r) = ob_payload r" "ob_target (claim_row v n r) = ob_target r"
  "ob_created (claim_row v n r) = ob_created r" "ob_attempts (claim_row v n r) = ob_attempts r"
  by (simp_all add: claim_row_def)

definition same_event :: "outbox_row \<Rightarrow> outbox_row \<Rightarrow> bool" where
  "same_event r r' \<longleftrightarrow>
     ob_id r' = ob_id r \<and> ob_type r' = ob_type r \<and> ob_payload r' = ob_payload r \<and>
     ob_target r' = ob_target r \<and> ob_created r' = ob_created r"

lemma poll_row_same: "poll_row orc log now r r' \<Longrightarrow> same_event r r'"
  unfolding poll_row_def same_event_def by (auto dest: marked_frame)

lemma live_event_due:
  assumes "event_row_ok r" and "\<not> settled_event r"
  shows "\<exists>t. \<forall>now \<ge> t. deliverable now r"
proof (cases "ob_status r")
  case Pending
  then show ?thesis
    by (intro exI [where x = "case ob_next r of None \<Rightarrow> 0 | Some t \<Rightarrow> t"])
      (auto simp: deliverable_def split: option.splits)
next
  case InFlight
  with assms obtain t where "ob_next r = Some t" by (auto simp: event_row_ok_def)
  with InFlight show ?thesis by (auto simp: deliverable_def intro!: exI [where x = t])
qed (use assms in \<open>auto simp: settled_event_def\<close>)

text \<open>The new row says what happened to the request.\<close>

definition mark_justified :: "environ \<Rightarrow> log \<Rightarrow> outbox_row \<Rightarrow> outbox_row \<Rightarrow> bool" where
  "mark_justified orc log r r' \<longleftrightarrow>
     (case ob_status r' of
        Delivered \<Rightarrow> no_url (event_of r) \<or> accepted log (event_of r)
      | DeadLetter \<Rightarrow> \<exists>reason. ob_reason r' = Some reason \<and>
          (rejected orc log (event_of r) reason \<or>
           (missed log (event_of r) reason \<and> poller_maxRetries \<le> ob_attempts r'))
      | Pending \<Rightarrow> (\<exists>reason. ob_reason r' = Some reason \<and> missed log (event_of r) reason) \<and>
          ob_attempts r' < poller_maxRetries
      | InFlight \<Rightarrow> ob_attempts r' = ob_attempts r)"

lemma taken_event [simp]:
  "answered log (event_of (claim_row v n r)) a = answered log (event_of r) a"
  "no_url (event_of (claim_row v n r)) = no_url (event_of r)"
  "E_TargetURL (event_of r) = ob_target r"
  by (simp_all add: answered_def event_of_def request_of_def no_url_def)

lemma taken_verdicts [simp]:
  "accepted log (event_of (claim_row v n r)) = accepted log (event_of r)"
  "rejected orc log (event_of (claim_row v n r)) m = rejected orc log (event_of r) m"
  "missed log (event_of (claim_row v n r)) m = missed log (event_of r) m"
  by (simp_all add: accepted_def rejected_def missed_def)

lemma poll_row_justified:
  assumes "poll_row orc log now r r'"
  shows "r' = r \<or> (deliverable now r \<and> mark_justified orc log r r')"
proof (cases "r' = r")
  case False
  with assms obtain v where d: "deliverable now r"
    and m: "marked orc log (event_of (taken v r)) (taken v r) r'" by (auto simp: poll_row_def)
  show ?thesis
  proof (cases "r' = taken v r")
    case True
    with d show ?thesis by (simp add: mark_justified_def) (simp add: claim_row_def)
  next
    case False
    with marked_sound [OF m] d show ?thesis by (auto simp: mark_justified_def split: outbox_status.splits)
  qed
qed simp

section \<open>The poller over time\<close>

definition later_row :: "outbox_row \<Rightarrow> outbox_row \<Rightarrow> bool" where
  "later_row r r' \<longleftrightarrow>
     same_event r r' \<and> (event_row_ok r \<longrightarrow> event_row_ok r') \<and> (settled_event r \<longrightarrow> r' = r)"

text \<open>Every request in the log is the one for an event that was not settled at the start.\<close>

definition request_for :: "outbox_row \<Rightarrow> http_request \<Rightarrow> bool" where
  "request_for r q \<longleftrightarrow>
     ob_target r = Some (rq_url q) \<and> rq_body q = ob_payload r \<and> rq_event_id q = ob_id r \<and>
     rq_event_type q = ob_type r"

definition log_live :: "db \<Rightarrow> log \<Rightarrow> bool" where
  "log_live d log \<longleftrightarrow>
     (\<forall>(q, a) \<in> set log. \<exists>r \<in> set (outbox d). \<not> settled_event r \<and> request_for r q)"

definition poller_run :: "log \<Rightarrow> world \<Rightarrow> world \<Rightarrow> bool" where
  "poller_run log w w' \<longleftrightarrow>
     poller_frame log w w' \<and> log_live (tables w) log \<and>
     tables w' = (tables w)\<lparr>outbox := outbox (tables w')\<rparr> \<and>
     list_all2 later_row (outbox (tables w)) (outbox (tables w'))"

lemma later_row_trans: "later_row r r1 \<Longrightarrow> later_row r1 r' \<Longrightarrow> later_row r r'"
  by (auto simp: later_row_def same_event_def)

lemma later_row_refl: "later_row r r"
  by (simp add: later_row_def same_event_def)

lemma poller_run_refl: "poller_run [] w w"
  by (auto simp: poller_run_def poller_frame_def log_live_def intro: list_all2_refl later_row_refl)

lemma list_all2_memD2: "list_all2 R xs ys \<Longrightarrow> y \<in> set ys \<Longrightarrow> \<exists>x \<in> set xs. R x y"
  by (induction rule: list_all2_induct) auto

lemma poller_run_trans:
  assumes "poller_run log1 w w1" and "poller_run log2 w1 w'"
  shows "poller_run (log1 @ log2) w w'"
proof -
  have rows: "list_all2 later_row (outbox (tables w)) (outbox (tables w1))"
    "list_all2 later_row (outbox (tables w1)) (outbox (tables w'))"
    using assms by (auto simp: poller_run_def)
  have "\<exists>r \<in> set (outbox (tables w)). \<not> settled_event r \<and> request_for r q"
    if "(q, a) \<in> set log2" for q a
  proof -
    obtain r1 where r1: "r1 \<in> set (outbox (tables w1))" "\<not> settled_event r1" "request_for r1 q"
      using assms(2) \<open>(q, a) \<in> set log2\<close> by (auto simp: poller_run_def log_live_def)
    obtain r where "r \<in> set (outbox (tables w))" "later_row r r1"
      using list_all2_memD2 [OF rows(1) r1(1)] by blast
    with r1 show ?thesis by (auto simp: later_row_def same_event_def request_for_def)
  qed
  then have "log_live (tables w) (log1 @ log2)"
    using assms(1) by (auto simp: poller_run_def log_live_def)
  moreover have "list_all2 later_row (outbox (tables w)) (outbox (tables w'))"
    using list_all2_trans [OF later_row_trans rows] .
  ultimately show ?thesis
    using assms by (auto simp: poller_run_def intro: poller_frame_trans outbox_only_trans)
qed

lemma poll_run:
  assumes run: "run orc poll w = (r, w')" and pk: "pk_ok (tables w)"
  shows "\<exists>log. poller_run log w w' \<and>
    list_all2 (poll_row orc log (o_clock orc (calls w))) (outbox (tables w)) (outbox (tables w'))"
proof -
  define v where "v = pool_env orc (ClaimEvents batchSize staleInFlightThreshold) w"
  obtain log where log: "poller_frame log w w'"
    "log_for (map (event_of \<circ> taken v) (batch v (tables w))) log"
    "tables w' = (tables w)\<lparr>outbox := outbox (tables w')\<rparr>"
    "list_all2 (poll_row orc log (o_clock orc (calls w))) (outbox (tables w)) (outbox (tables w'))"
    using poll_effect [OF run pk v_def] by blast
  have ids: "distinct (map ob_id (outbox (tables w)))" using pk by (simp add: pk_ok_def)
  have "\<not> settled_event r" if "r \<in> set (batch v (tables w))" for r
    using claimable_deliverable [OF ids] deliverable_not_settled that by (fastforce simp: batch_def)
  then have "log_live (tables w) log"
    using log(2) by (fastforce simp: log_live_def log_for_def request_for_def request_of_def event_of_def batch_def)
  moreover have "list_all2 later_row (outbox (tables w)) (outbox (tables w'))"
    using log(4) by (rule list_all2_mono)
      (auto simp: later_row_def poll_row_same dest: poll_row_event_ok poll_row_settled)
  ultimately show ?thesis using log by (auto simp: poller_run_def)
qed

lemma poller_run_pk: "poller_run log w w' \<Longrightarrow> pk_ok (tables w) \<Longrightarrow> pk_ok (tables w')"
proof -
  assume p: "poller_run log w w'" and pk: "pk_ok (tables w)"
  have "list_all2 later_row (outbox (tables w)) (outbox (tables w'))" using p by (simp add: poller_run_def)
  then have "map ob_id (outbox (tables w')) = map ob_id (outbox (tables w))"
    by (induction rule: list_all2_induct) (auto simp: later_row_def same_event_def)
  moreover have "accounts (tables w') = accounts (tables w)" "idem_keys (tables w') = idem_keys (tables w)"
    using p by (auto simp: poller_run_def) (metis db.select_convs db.surjective db.update_convs(5))+
  ultimately show "pk_ok (tables w')" using pk by (simp add: pk_ok_def)
qed

lemma Run_effect:
  "run orc (Run ss) w = (u, w') \<Longrightarrow> pk_ok (tables w) \<Longrightarrow> \<exists>log. poller_run log w w'"
proof (induction ss arbitrary: w)
  case Nil
  then show ?case using poller_run_refl by auto
next
  case (Cons s ss)
  show ?case
  proof (cases s)
    case Done_ctx
    with Cons.prems show ?thesis using poller_run_refl by auto
  next
    case Tick
    obtain r w1 where p: "run orc poll w = (r, w1)" by fastforce
    obtain log1 where 1: "poller_run log1 w w1" using poll_run [OF p] Cons.prems by blast
    have "run orc (Run ss) w1 = (u, w')" using Cons.prems Tick p by (simp add: run_bindp)
    from Cons.IH [OF this poller_run_pk [OF 1 Cons.prems(2)]] 1 show ?thesis
      using poller_run_trans by blast
  qed
qed

section \<open>Merchants that accept\<close>

definition all_accept :: "environ \<Rightarrow> bool" where
  "all_accept orc \<longleftrightarrow>
     (\<forall>n. \<exists>code. o_http orc n = Inr code \<and> 200 \<le> code \<and> code < 300) \<and>
     (\<forall>url. o_bad_url orc url = None)"

definition delivered_row :: "outbox_row \<Rightarrow> outbox_row \<Rightarrow> bool" where
  "delivered_row r r' \<longleftrightarrow> ob_id r' = ob_id r \<and> ob_status r' = Delivered"

lemma exec_deliver: "\<exists>n rows d'. exec_stmt v (DeliverEvent i) d = Inr (n, rows, d')"
proof -
  have "update_rows (\<lambda>r. ob_id r = i) (\<lambda>r. Inr (r\<lparr>ob_status := Delivered,
      ob_delivered := Some (e_now v), ob_next := None\<rparr>)) (outbox d) =
    (Inr (length (filter (\<lambda>r. ob_id r = i) (outbox d)),
      map (\<lambda>r. if ob_id r = i then r\<lparr>ob_status := Delivered,
        ob_delivered := Some (e_now v), ob_next := None\<rparr> else r) (outbox d)) :: err + _)"
    by (rule update_rows_total) simp
  then show ?thesis by (simp add: sql_deliver_event_def update_outbox_def)
qed

lemma MarkDelivered_ok:
  assumes "run orc (MarkDelivered i) w = (r, w')" and "no_faults orc"
  shows "r = Inr () \<and> rows_at i delivered_row (tables w) (tables w')"
proof -
  let ?s = "DeliverEvent i"
  obtain q where run: "run orc (exec Pool ?s) w = (q, w')"
    and r: "r = (case q of Inl e \<Rightarrow> Inl e | Inr n \<Rightarrow> Inr ())"
    using assms(1) by (auto simp: MarkDelivered_def run_tryp split: prod.splits sum.splits)
  let ?v = "pool_env orc ?s w"
  obtain n rows d where x: "exec_stmt ?v ?s (tables w) = Inr (n, rows, d)"
    using exec_deliver by blast
  have "rows_at i delivered_row (tables w) d"
    using x unfolding exec_stmt.simps sql_deliver_event_def
    by (intro rows_at_mono [OF update_outbox_at]) (auto simp: delivered_row_def)
  moreover obtain p where "q = map_sum id fst p" "pool_tables orc ?s w p w'"
    using exec_pool [OF run] by blast
  ultimately show ?thesis
    using x r assms(2) by (auto simp: pool_tables_def no_faults_def simp del: exec_stmt.simps)
qed

lemma deliver_ok:
  assumes run: "run orc (deliver e) w = (u, w')" and orc: "no_faults orc" "all_accept orc"
  shows "rows_at (E_ID e) delivered_row (tables w) (tables w')"
proof (cases "no_url e")
  case True
  then obtain r where "run orc (MarkDelivered (E_ID e)) w = (r, w')"
    using run by (auto simp: deliver_def run_bindp split: prod.splits)
  then show ?thesis using MarkDelivered_ok orc(1) by blast
next
  case False
  then obtain url where url: "E_TargetURL e = Some url" by (auto simp: no_url_def)
  obtain c where c: "o_http orc (Suc (calls w)) = Inr c" "200 \<le> c" "c < 300"
    using orc(2) unfolding all_accept_def by blast
  define w1 where "w1 = tick ((tick w)\<lparr>requests := requests w @ [(request_of e url, Inr c)]\<rparr>)"
  obtain r w2 where m: "run orc (MarkDelivered (E_ID e)) w1 = (r, w2)" by fastforce
  have "o_bad_url orc url = None" using orc(2) by (simp add: all_accept_def)
  then have "run orc (mark_loop 3 (E_ID e)) w1 = (u, w')"
    using run False url c by (simp add: deliver_def mark_answer_def markDeliveredWithRetry_def w1_def)
  then have "w2 = w'"
    using m MarkDelivered_ok [OF m orc(1)] by (simp add: numeral_3_eq_3 run_bindp)
  with MarkDelivered_ok [OF m orc(1)] show ?thesis by (simp add: w1_def)
qed

lemma deliver_all_ok:
  assumes "run orc (deliver_all es) w = (u, w')" and orc: "no_faults orc" "all_accept orc"
  shows "list_all2 (row_step (\<lambda>r. ob_id r \<in> E_ID ` set es) delivered_row)
    (outbox (tables w)) (outbox (tables w'))"
  using assms(1)
proof (induction es arbitrary: w)
  case Nil
  then show ?case by (auto intro: list_all2_refl simp: row_step_def)
next
  case (Cons e es)
  obtain w1 where r1: "run orc (deliver e) w = ((), w1)"
    by (cases "run orc (deliver e) w") simp
  have r2: "run orc (deliver_all es) w1 = (u, w')" using Cons.prems r1 by (simp add: run_bindp)
  have "list_all2 (row_step (\<lambda>r. ob_id r = E_ID e) delivered_row) (outbox (tables w)) (outbox (tables w1))"
    using deliver_ok [OF r1 orc] by (simp add: rows_at_def)
  then show ?case
    by (rule list_all2_trans [OF _ _ Cons.IH [OF r2], rotated])
      (auto simp: row_step_def delivered_row_def split: if_splits)
qed

text \<open>The ids a poll claims, and what becomes of the rows: the claimed ones are delivered.\<close>

definition claimed_ids :: "environ \<Rightarrow> world \<Rightarrow> uuid set" where
  "claimed_ids orc w =
     set (claimable (pool_env orc (ClaimEvents batchSize staleInFlightThreshold) w) (nat batchSize)
       (outbox (tables w)))"

lemma poll_ok:
  assumes run: "run orc poll w = (r, w')" and orc: "no_faults orc" "all_accept orc"
  shows "list_all2 (row_step (\<lambda>r. ob_id r \<in> claimed_ids orc w) delivered_row)
    (outbox (tables w)) (outbox (tables w'))"
proof -
  define v where "v = pool_env orc (ClaimEvents batchSize staleInFlightThreshold) w"
  obtain c w1 where c: "run orc (ClaimPendingEvents batchSize) w = (c, w1)" by fastforce
  have es: "c = Inr (map (event_of \<circ> taken v) (batch v (tables w)))"
    and t1: "tables w1 = claimed_db v (tables w)"
    using ClaimPendingEvents_effect [OF c v_def] orc(1) by (auto simp: no_faults_def)
  have run2: "run orc (deliver_all (map (event_of \<circ> taken v) (batch v (tables w)))) w1 = ((), w')"
    using run c es by (cases "run orc (deliver_all (map (event_of \<circ> taken v) (batch v (tables w)))) w1")
      (simp add: poll_def run_bindp)
  let ?C = "claimed_ids orc w" and ?os = "outbox (tables w)"
  have C: "?C = set (claimable v (nat batchSize) ?os)" by (simp add: claimed_ids_def v_def)
  have ids: "E_ID ` set (map (event_of \<circ> taken v) (batch v (tables w))) = ob_id ` {r \<in> set ?os. ob_id r \<in> ?C}"
    by (auto simp: batch_def C image_image)
  have "list_all2 (row_step (\<lambda>r. ob_id r \<in> ob_id ` {r \<in> set ?os. ob_id r \<in> ?C}) delivered_row)
      (map (\<lambda>r. if ob_id r \<in> ?C then taken v r else r) ?os) (outbox (tables w'))"
    using deliver_all_ok [OF run2 orc] unfolding ids by (simp add: t1 claimed_db_def C)
  then have "list_all2 (\<lambda>r. row_step (\<lambda>r. ob_id r \<in> ob_id ` {r \<in> set ?os. ob_id r \<in> ?C}) delivered_row
      (if ob_id r \<in> ?C then taken v r else r)) ?os (outbox (tables w'))"
    by (simp add: list_all2_map1)
  then show ?thesis
    by (rule list.rel_mono_strong) (auto simp: row_step_def delivered_row_def claim_row_def split: if_splits)
qed

lemma claims_all:
  assumes "o_locked orc (calls w) = []"
    and "length (filter (deliverable (o_clock orc (calls w))) (outbox (tables w))) \<le> nat batchSize"
    and "r \<in> set (outbox (tables w))" and "deliverable (o_clock orc (calls w)) r"
  shows "ob_id r \<in> claimed_ids orc w"
  using assms by (simp add: claimed_ids_def claimable_def)

end
