(* ===== verification/Delivery.thy ===== *)
theory Delivery
  imports Poller Sample
begin

text \<open>
  What the poller guarantees: marks are justified by the merchants' answers, settled events are
  left alone, the books are not touched, no event is stuck, and due events are delivered.
\<close>

lemma rows_same_payloads:
  assumes "list_all2 same_event os os'"
  shows "map ob_payload (filter (\<lambda>r. ob_type r = ty) os') = map ob_payload (filter (\<lambda>r. ob_type r = ty) os) \<and>
    map ob_id os' = map ob_id os"
  using assms by (induction rule: list_all2_induct) (auto simp: same_event_def)

text \<open>The books do not depend on what has become of the events.\<close>

lemma outbox_progress_ledger:
  assumes rows: "list_all2 same_event (outbox d) os" and ok: "ledger_ok seed d"
  shows "ledger_ok seed (d\<lparr>outbox := os\<rparr>)"
proof -
  note same = rows_same_payloads [OF rows]
  have d: "distinct (map ob_id os)"
    using same [of ty] ok by (simp add: ledger_ok_def books_ok_def constraints_ok_def)
  have e: "events_match (d\<lparr>outbox := os\<rparr>)"
    using same [of "''transfer.created''"] ok by (simp add: ledger_ok_def books_ok_def events_match_def)
  show ?thesis
    using ok d e
    by (auto simp: ledger_ok_def books_ok_def constraints_ok_def has_account_def booked_def journal_def
        conserved_def double_entry_def entries_of_def one_currency_def keys_settled_def key_settled_def)
qed

lemma poller_run_ledger:
  assumes p: "poller_run log w w'" and ok: "ledger_ok seed (tables w)"
  shows "ledger_ok seed (tables w')"
proof -
  have "list_all2 later_row (outbox (tables w)) (outbox (tables w'))"
    using p by (simp add: poller_run_def)
  then have rows: "list_all2 same_event (outbox (tables w)) (outbox (tables w'))"
    by (rule list_all2_mono) (simp add: later_row_def)
  have t: "tables w' = (tables w)\<lparr>outbox := outbox (tables w')\<rparr>"
    using p by (simp add: poller_run_def)
  show ?thesis using outbox_progress_ledger [OF rows ok] t by simp
qed

section \<open>Properties\<close>

text \<open>
  C8. After a poll, whatever calls failed, every event is as it was or was due and its new state is
  justified by the requests the poll sent: delivered only if it has no webhook or the merchant
  answered 2xx; dead only after a bad URL, a 4xx answer or the eighth attempt; rescheduled only
  after a failed request, with fewer than eight attempts.
\<close>

theorem poll_marks_justified:
  assumes "pk_ok (tables w)"
  shows "case run orc poll w of (r, w') \<Rightarrow>
    \<exists>log. requests w' = requests w @ log \<and>
      list_all2 (\<lambda>r r'. same_event r r' \<and>
          (r' = r \<or> (deliverable (o_clock orc (calls w)) r \<and> mark_justified orc log r r')))
        (outbox (tables w)) (outbox (tables w'))"
proof -
  obtain r w' where p: "run orc poll w = (r, w')" by fastforce
  obtain log where log: "poller_run log w w'"
    "list_all2 (poll_row orc log (o_clock orc (calls w))) (outbox (tables w)) (outbox (tables w'))"
    using poll_run [OF p assms] by blast
  from log(2) have "list_all2 (\<lambda>r r'. same_event r r' \<and>
          (r' = r \<or> (deliverable (o_clock orc (calls w)) r \<and> mark_justified orc log r r')))
        (outbox (tables w)) (outbox (tables w'))"
    by (rule list_all2_mono) (simp add: poll_row_same poll_row_justified)
  with log(1) p show ?thesis by (auto simp: poller_run_def poller_frame_def)
qed

text \<open>The merchant is down: the event is rescheduled, and the justification is the answer 503.\<close>

definition merchant_down :: environ where
  "merchant_down = calm\<lparr>o_http := (\<lambda>_. Inr 503)\<rparr>"

theorem poll_marks_justified_witness:
  "\<exists>r r' log. outbox (tables paid_world) = [r] \<and>
     outbox (tables (snd (run merchant_down poll paid_world))) = [r'] \<and>
     ob_status r' = Pending \<and> missed log (event_of r) ''Service Unavailable'' \<and>
     requests (snd (run merchant_down poll paid_world)) = requests paid_world @ log"
proof -
  let ?w' = "snd (run merchant_down poll paid_world)"
  have "map ob_status (outbox (tables paid_world)) = [Pending]" and
    "map ob_reason (outbox (tables paid_world)) = [None]"
    unfolding paid_world_eq by code_simp+
  then obtain r where r: "outbox (tables paid_world) = [r]" "ob_reason r = None" by auto
  have "map ob_status (outbox (tables ?w')) = [Pending]"
    "map ob_reason (outbox (tables ?w')) = [Some ''Service Unavailable'']"
    unfolding paid_world_eq by code_simp+
  then obtain r' where r': "outbox (tables ?w') = [r']" "ob_status r' = Pending"
    "ob_reason r' = Some ''Service Unavailable''" by auto
  obtain log where log: "requests ?w' = requests paid_world @ log"
    and rows: "list_all2 (\<lambda>r r'. same_event r r' \<and>
          (r' = r \<or> (deliverable (o_clock merchant_down (calls paid_world)) r \<and>
             mark_justified merchant_down log r r')))
        (outbox (tables paid_world)) (outbox (tables ?w'))"
    using poll_marks_justified [OF paid_pk, of merchant_down] by (auto simp: case_prod_beta)
  from rows have "mark_justified merchant_down log r r'" using r r' by auto
  then have "missed log (event_of r) ''Service Unavailable''" using r' by (simp add: mark_justified_def)
  with log r r' show ?thesis by blast
qed

text \<open>
  C21. However long the poller runs and whatever calls fail, a settled event (delivered or dead)
  stays as it is and is never requested again; every request carries the payload, the id and the
  type of an event that was alive, to the URL recorded with it.
\<close>

theorem settled_events_left_alone:
  assumes "pk_ok (tables w)"
  shows "case run orc (Run ss) w of (u, w') \<Rightarrow>
    \<exists>log. requests w' = requests w @ log \<and> log_live (tables w) log \<and>
      list_all2 (\<lambda>r r'. same_event r r' \<and> (settled_event r \<longrightarrow> r' = r))
        (outbox (tables w)) (outbox (tables w'))"
proof -
  obtain w' where p: "run orc (Run ss) w = ((), w')" by (cases "run orc (Run ss) w") simp
  obtain log where log: "poller_run log w w'" using Run_effect [OF p assms] by blast
  then have "list_all2 later_row (outbox (tables w)) (outbox (tables w'))"
    by (simp add: poller_run_def)
  then have "list_all2 (\<lambda>r r'. same_event r r' \<and> (settled_event r \<longrightarrow> r' = r))
        (outbox (tables w)) (outbox (tables w'))"
    by (rule list_all2_mono) (simp add: later_row_def)
  with log p show ?thesis by (auto simp: poller_run_def poller_frame_def)
qed

text \<open>The event of \<open>pay\<close> is delivered by the first poll; the next ones send nothing.\<close>

definition polled_world :: world where
  "polled_world = snd (run calm poll paid_world)"

lemma polled_pk: "pk_ok (tables polled_world)"
proof -
  obtain r w' where p: "run calm poll paid_world = (r, w')" by fastforce
  then show ?thesis
    using poll_run [OF p paid_pk] poller_run_pk [OF _ paid_pk] by (auto simp: polled_world_def)
qed

theorem settled_events_left_alone_witness:
  "requests (snd (run merchant_down (Run [Tick, Tick, Done_ctx]) polled_world)) = requests polled_world"
proof -
  let ?w' = "snd (run merchant_down (Run [Tick, Tick, Done_ctx]) polled_world)"
  have "list_all settled_event (outbox (tables polled_world))"
    unfolding polled_world_def paid_world_eq by code_simp
  then have s: "\<forall>r \<in> set (outbox (tables polled_world)). settled_event r" by (simp add: list_all_iff)
  obtain log where log: "requests ?w' = requests polled_world @ log" "log_live (tables polled_world) log"
    using settled_events_left_alone [OF polled_pk, of merchant_down "[Tick, Tick, Done_ctx]"]
    by (auto simp: case_prod_beta simp del: Run.simps)
  have "log = []" using log(2) s by (cases log) (auto simp: log_live_def)
  with log(1) show ?thesis by simp
qed

text \<open>
  C22. No event is stuck: the rows keep their invariant however the poller runs (in particular at
  most eight attempts), so that an event is settled or due again from some time on.
\<close>

theorem no_event_stuck:
  assumes "pk_ok (tables w)" and "events_ok (tables w)"
  shows "case run orc (Run ss) w of (u, w') \<Rightarrow> events_ok (tables w') \<and>
    (\<forall>r \<in> set (outbox (tables w')). settled_event r \<or> (\<exists>t. \<forall>now \<ge> t. deliverable now r))"
proof -
  obtain w' where p: "run orc (Run ss) w = ((), w')" by (cases "run orc (Run ss) w") simp
  obtain log where log: "poller_run log w w'" using Run_effect [OF p assms(1)] by blast
  then have rows: "list_all2 later_row (outbox (tables w)) (outbox (tables w'))"
    by (simp add: poller_run_def)
  have ok: "event_row_ok r'" if r': "r' \<in> set (outbox (tables w'))" for r'
    using list_all2_memD2 [OF rows r'] assms(2) by (auto simp: later_row_def events_ok_def)
  then have "settled_event r \<or> (\<exists>t. \<forall>now \<ge> t. deliverable now r)" if "r \<in> set (outbox (tables w'))" for r
    using that live_event_due by blast
  with ok p show ?thesis by (simp add: events_ok_def)
qed

lemma paid_events_ok: "events_ok (tables paid_world)"
proof -
  have "list_all event_row_ok (outbox (tables paid_world))" unfolding paid_world_eq by code_simp
  then show ?thesis by (simp add: events_ok_def list_all_iff)
qed

theorem no_event_stuck_witness:
  "events_ok (tables (snd (run merchant_down (Run [Tick, Tick]) paid_world)))"
  using no_event_stuck [OF paid_pk paid_events_ok, of merchant_down "[Tick, Tick]"]
  by (auto simp: case_prod_beta simp del: Run.simps)

text \<open>
  Due events are delivered: if no call fails, every merchant accepts, nothing is locked and at
  most one batch is due, then after a poll every event that was due is delivered.
\<close>

lemma poll_delivers_due:
  assumes "no_faults orc" and "all_accept orc" and "o_locked orc (calls w) = []"
    and "length (filter (deliverable (o_clock orc (calls w))) (outbox (tables w))) \<le> nat batchSize"
  shows "case run orc poll w of (r, w') \<Rightarrow>
    list_all2 (\<lambda>r r'. ob_id r' = ob_id r \<and>
        (deliverable (o_clock orc (calls w)) r \<longrightarrow> ob_status r' = Delivered))
      (outbox (tables w)) (outbox (tables w'))"
proof -
  obtain r w' where p: "run orc poll w = (r, w')" by fastforce
  have "list_all2 (\<lambda>r r'. ob_id r' = ob_id r \<and>
        (deliverable (o_clock orc (calls w)) r \<longrightarrow> ob_status r' = Delivered))
      (outbox (tables w)) (outbox (tables w'))"
    using poll_ok [OF p assms(1,2)]
    by (rule list.rel_mono_strong)
      (auto simp: row_step_def delivered_row_def dest: claims_all [OF assms(3,4)] split: if_splits)
  with p show ?thesis by simp
qed

text \<open>
  The poller leaves the ledger in order: it writes to the outbox only, and never changes what
  an event is or in which order the events were written, whatever calls fail.
\<close>

lemma poller_keeps_ledger:
  assumes "ledger_ok seed (tables w)"
  shows "case run orc (Run ss) w of (u, w') \<Rightarrow> txn w' = txn w \<and> ledger_ok seed (tables w') \<and>
    accounts (tables w') = accounts (tables w)"
proof -
  obtain w' where p: "run orc (Run ss) w = ((), w')" by (cases "run orc (Run ss) w") simp
  have "pk_ok (tables w)" using assms by (simp add: ledger_ok_def books_ok_def constraints_pk)
  then obtain log where log: "poller_run log w w'" using Run_effect [OF p] by blast
  moreover obtain os where "tables w' = (tables w)\<lparr>outbox := os\<rparr>"
    using log by (auto simp: poller_run_def)
  ultimately show ?thesis
    using poller_run_ledger [OF log assms] p by (simp add: poller_run_def poller_frame_def)
qed

end
