(* ===== verification/Recon.thy ===== *)
theory Recon
  imports Delivery GoText
begin

text \<open>
  \<open>internal/recon\<close> and \<open>cmd/recon\<close>: the three checks, the report, the exit status. The checks are
  shown to find exactly what they look for; on a ledger in order they find the accounts that were
  seeded outside the journal, and nothing else.
\<close>

section \<open>The code\<close>

record drift_account =
  D_ID :: int64
  D_Balance :: int64
  D_PostingsSum :: int64

record recon_result =
  ConservationOK :: bool
  ConservationSum :: int64
  DriftAccounts :: "drift_account list"
  NegativeCount :: int64

definition scan_drift :: "err + sqlval list \<Rightarrow> err + drift_account" where
  "scan_drift = scan_cols (\<lambda>row. case row of
     [i, b, p] \<Rightarrow>
       (case (cell_int i, cell_int b, cell_int p) of
          (Inr i', Inr b', Inr p') \<Rightarrow> Inr \<lparr>D_ID = i', D_Balance = b', D_PostingsSum = p'\<rparr>
        | _ \<Rightarrow> Inl ErrScan)
   | _ \<Rightarrow> Inl ErrScan)"

text \<open>\<open>fmt.Errorf("...: %w", err)\<close> around the error of a query.\<close>

definition wrap_err :: "string \<Rightarrow> err + 'a \<Rightarrow> err + 'a" where
  "wrap_err m r = (case r of Inl e \<Rightarrow> Inl (Wrapped m e) | Inr a \<Rightarrow> Inr a)"

definition recon_Run :: "(err + recon_result) prog" where
  "recon_Run =
     tryp (bindp (query Pool SumPostings)
             (\<lambda>q. Ret (wrap_err ''conservation check'' (scan_int (query_row q)))))
       (\<lambda>total.
     tryp (bindp (query Pool SelectDrift) (\<lambda>q. Ret (wrap_err ''balance integrity check'' q)))
       (\<lambda>rows. case scan_rows scan_drift rows of
          Inl e \<Rightarrow> fail_with e
        | Inr drift \<Rightarrow>
            tryp (bindp (query Pool CountNegative)
                    (\<lambda>q. Ret (wrap_err ''negative balance check'' (scan_int (query_row q)))))
              (\<lambda>negatives. return
                 \<lparr>ConservationOK = (total = 0), ConservationSum = total, DriftAccounts = drift,
                  NegativeCount = negatives\<rparr>)))"

text \<open>The check mark, the cross and the dash of the report, in UTF-8.\<close>

definition tick_mark :: string where
  "tick_mark = [CHR 0xE2, CHR 0x9C, CHR 0x93]"

definition cross_mark :: string where
  "cross_mark = [CHR 0xE2, CHR 0x9C, CHR 0x97]"

definition em_dash :: string where
  "em_dash = [CHR 0xE2, CHR 0x80, CHR 0x94]"

definition newline :: string where
  "newline = [CHR 0x0A]"

definition result_clean :: "recon_result \<Rightarrow> bool" where
  "result_clean r \<longleftrightarrow> ConservationOK r \<and> DriftAccounts r = [] \<and> NegativeCount r = 0"

definition drift_line :: "drift_account \<Rightarrow> string" where
  "drift_line d =
     ''  account '' @ itoa (sint (D_ID d)) @ '': balance='' @ itoa (sint (D_Balance d)) @
     '' postings_sum='' @ itoa (sint (D_PostingsSum d)) @
     '' delta='' @ itoa (sint (D_Balance d - D_PostingsSum d)) @ newline"

definition Report :: "recon_result \<Rightarrow> string" where
  "Report r =
     ''=== Reconciliation Report ==='' @ newline @
     (if ConservationOK r then ''Conservation (SUM postings): 0 '' @ tick_mark @ newline
      else ''Conservation (SUM postings): '' @ itoa (sint (ConservationSum r)) @ '' '' @ cross_mark @
           ''  DRIFT DETECTED'' @ newline) @
     (if DriftAccounts r = []
      then ''Balance integrity:           all accounts clean '' @ tick_mark @ newline
      else ''Balance integrity:           '' @ itoa (int (length (DriftAccounts r))) @
           '' account(s) drifted '' @ cross_mark @ newline @
           concat (map drift_line (DriftAccounts r))) @
     (if NegativeCount r = 0 then ''Negative balances:           0 '' @ tick_mark @ newline
      else ''Negative balances:           '' @ itoa (sint (NegativeCount r)) @ '' '' @ cross_mark @
           ''  INTEGRITY VIOLATION'' @ newline) @
     (if result_clean r then newline @ ''Drift: none '' @ tick_mark @ newline
      else newline @ ''Drift: DETECTED '' @ em_dash @ '' investigate immediately'' @ newline)"

text \<open>\<open>cmd/recon\<close> after it has connected: what it prints and its exit status.\<close>

definition recon_main :: "(string \<times> nat) prog" where
  "recon_main =
     bindp recon_Run (\<lambda>r. case r of
       Inl e \<Rightarrow> Ret ([], 1)
     | Inr result \<Rightarrow>
         Ret (Report result,
              if \<not> ConservationOK result \<or> DriftAccounts result \<noteq> [] \<or>
                 0 < sint (NegativeCount result)
              then 1 else 0))"

section \<open>What the checks find\<close>

text \<open>The numbers the checks read are in the range of their variables.\<close>

definition readable :: "db \<Rightarrow> bool" where
  "readable d \<longleftrightarrow>
     bigint (sum_list (map po_amount (postings d))) \<and> bigint (int (length (accounts d))) \<and>
     (\<forall>a \<in> set (accounts d). bigint (acc_id a) \<and> bigint (acc_balance a) \<and>
        bigint (journal d (acc_id a)))"

definition drift_of :: "db \<Rightarrow> account_row \<Rightarrow> drift_account" where
  "drift_of d a = \<lparr>D_ID = word_of_int (acc_id a), D_Balance = word_of_int (acc_balance a),
     D_PostingsSum = word_of_int (journal d (acc_id a))\<rparr>"

definition drifted :: "db \<Rightarrow> account_row list" where
  "drifted d = filter (\<lambda>a. acc_balance a \<noteq> journal d (acc_id a)) (accounts d)"

definition negative :: "db \<Rightarrow> account_row list" where
  "negative d = filter (\<lambda>a. acc_balance a < 0) (accounts d)"

definition recon_spec :: "db \<Rightarrow> recon_result" where
  "recon_spec d =
     (let total = sum_list (map po_amount (postings d))
      in \<lparr>ConservationOK = (total = 0), ConservationSum = word_of_int total,
          DriftAccounts = map (drift_of d) (drifted d),
          NegativeCount = word_of_int (int (length (negative d)))\<rparr>)"

lemma query_pool_ok:
  assumes "run orc (query Pool s) w = (r, w')" and "no_faults orc"
    and "exec_stmt (pool_env orc s w) s (tables w) = Inr (n, rows, tables w)"
  shows "r = Inr rows \<and> tables w' = tables w \<and> txn w' = txn w \<and> requests w' = requests w"
  using query_pool [OF assms(1)] assms(2,3)
  by (auto simp: pool_tables_def pool_frame_def no_faults_def)

lemma scan_drift_rows:
  assumes "\<forall>a \<in> set rs. bigint (acc_id a) \<and> bigint (acc_balance a) \<and> bigint (journal d (acc_id a))"
  shows "scan_rows scan_drift
      (map (\<lambda>a. [VInt (acc_id a), VInt (acc_balance a), VInt (journal d (acc_id a))]) rs) =
    Inr (map (drift_of d) rs)"
  using assms by (intro scan_rows_map) (auto simp: scan_drift_def drift_of_def)

lemma negative_bigint: "readable d \<Longrightarrow> bigint (int (length (negative d)))"
proof -
  assume "readable d"
  moreover have "length (negative d) \<le> length (accounts d)" by (simp add: negative_def)
  ultimately show ?thesis by (auto simp: readable_def bigint_def)
qed

lemma recon_Run_spec:
  assumes run: "run orc recon_Run w = (r, w')" and orc: "no_faults orc" and d: "readable (tables w)"
  shows "r = Inr (recon_spec (tables w)) \<and> tables w' = tables w \<and> txn w' = txn w"
proof -
  let ?d = "tables w"
  obtain q1 w1 where q1: "run orc (query Pool SumPostings) w = (q1, w1)" by fastforce
  have 1: "q1 = Inr [[VInt (sum_list (map po_amount (postings ?d)))]]" "tables w1 = ?d" "txn w1 = txn w"
    using query_pool_ok [OF q1 orc] by (auto simp: sql_sum_postings_def)
  obtain q2 w2 where q2: "run orc (query Pool SelectDrift) w1 = (q2, w2)" by fastforce
  have 2: "q2 = Inr (map (\<lambda>a. [VInt (acc_id a), VInt (acc_balance a), VInt (journal ?d (acc_id a))])
      (drifted ?d))" "tables w2 = ?d" "txn w2 = txn w"
    using query_pool_ok [OF q2 orc] 1 by (auto simp: sql_select_drift_def drifted_def Let_def)
  have rows: "\<forall>a \<in> set (drifted ?d).
      bigint (acc_id a) \<and> bigint (acc_balance a) \<and> bigint (journal ?d (acc_id a))"
    using d by (simp add: readable_def drifted_def)
  obtain q3 w3 where q3: "run orc (query Pool CountNegative) w2 = (q3, w3)" by fastforce
  have 3: "q3 = Inr [[VInt (int (length (negative ?d)))]]" "tables w3 = ?d" "txn w3 = txn w"
    using query_pool_ok [OF q3 orc] 2 by (auto simp: sql_count_negative_def negative_def)
  have total: "bigint (sum_list (map po_amount (postings ?d)))" using d by (simp add: readable_def)
  have "(word_of_int (sum_list (map po_amount (postings ?d))) = (0 :: int64)) =
      (sum_list (map po_amount (postings ?d)) = 0)"
    using sint_of_bigint [OF total] by (metis of_int_0 signed_0)
  then show ?thesis
    using run q1 q2 q3 1 2 3 negative_bigint [OF d] total scan_drift_rows [OF rows]
    by (auto simp: recon_Run_def recon_spec_def run_tryp run_bindp wrap_err_def Let_def)
qed

text \<open>The exit status.\<close>

lemma recon_spec_clean:
  assumes "readable d"
  shows "result_clean (recon_spec d) \<longleftrightarrow> conserved d \<and> drifted d = [] \<and> negative d = []"
    and "0 < sint (NegativeCount (recon_spec d)) \<longleftrightarrow> negative d \<noteq> []"
proof -
  have n: "sint (word_of_int (int (length (negative d))) :: int64) = int (length (negative d))"
    by (rule sint_of_bigint [OF negative_bigint [OF assms]])
  then show "0 < sint (NegativeCount (recon_spec d)) \<longleftrightarrow> negative d \<noteq> []"
    by (simp add: recon_spec_def Let_def)
  have "(word_of_int (int (length (negative d))) = (0 :: int64)) = (negative d = [])"
    using n by (metis length_0_conv of_int_0 of_nat_eq_0_iff signed_0)
  then show "result_clean (recon_spec d) \<longleftrightarrow> conserved d \<and> drifted d = [] \<and> negative d = []"
    by (auto simp: result_clean_def recon_spec_def conserved_def Let_def)
qed

lemma recon_main_spec:
  assumes run: "run orc recon_main w = (x, w')" and orc: "no_faults orc" and d: "readable (tables w)"
  shows "x = (Report (recon_spec (tables w)),
      if conserved (tables w) \<and> drifted (tables w) = [] \<and> negative (tables w) = [] then 0 else 1) \<and>
    tables w' = tables w"
proof -
  obtain r w1 where r: "run orc recon_Run w = (r, w1)" by fastforce
  note spec = recon_Run_spec [OF r orc d]
  have "ConservationOK (recon_spec (tables w)) = conserved (tables w)"
    "DriftAccounts (recon_spec (tables w)) = map (drift_of (tables w)) (drifted (tables w))"
    by (simp_all add: recon_spec_def conserved_def Let_def)
  then show ?thesis
    using run r spec recon_spec_clean(2) [OF d] by (auto simp: recon_main_def run_bindp)
qed

section \<open>On a ledger in order\<close>

lemma books_ok_found:
  assumes ok: "books_ok seed d"
  shows "conserved d" and "negative d = []"
    and "drifted d = filter (\<lambda>a. seed (acc_id a) \<noteq> 0) (accounts d)"
proof -
  show "conserved d" using ok by (simp add: books_ok_def)
  have "\<forall>a \<in> set (accounts d). 0 \<le> acc_balance a"
    using ok by (auto simp: books_ok_def constraints_ok_def account_row_ok_def)
  then show "negative d = []" by (auto simp: negative_def filter_empty_conv)
  have "\<forall>a \<in> set (accounts d). acc_balance a = seed (acc_id a) + journal d (acc_id a)"
    using ok by (simp add: books_ok_def booked_def)
  then show "drifted d = filter (\<lambda>a. seed (acc_id a) \<noteq> 0) (accounts d)"
    unfolding drifted_def by (intro filter_cong) auto
qed

text \<open>All postings, account by account.\<close>

lemma sum_journal:
  assumes "distinct is" and "\<forall>p \<in> set ps. po_account p \<in> set is"
  shows "sum_list (map (\<lambda>i. sum_where (\<lambda>p. po_account p = i) po_amount ps) is) =
    sum_list (map po_amount ps)"
  using assms(2)
proof (induction ps)
  case Nil
  then show ?case by (induction "is") auto
next
  case (Cons p ps)
  have "sum_list (map (\<lambda>i. if po_account p = i then po_amount p else 0) is) =
      (\<Sum>i \<in> set is. if po_account p = i then po_amount p else 0)"
    by (rule sum_list_distinct_conv_sum_set [OF assms(1)])
  also have "\<dots> = po_amount p" using Cons.prems by simp
  finally have p: "sum_list (map (\<lambda>i. if po_account p = i then po_amount p else 0) is) = po_amount p" .
  have "sum_list (map (\<lambda>i. sum_where (\<lambda>p. po_account p = i) po_amount (p # ps)) is) =
      sum_list (map (\<lambda>i. (if po_account p = i then po_amount p else 0) +
        sum_where (\<lambda>p. po_account p = i) po_amount ps) is)"
    by (rule arg_cong [where f = sum_list], rule map_cong) simp_all
  then show ?case using Cons p by (simp add: sum_list_addf)
qed

lemma total_is_seed:
  assumes ok: "books_ok seed d"
  shows "total_balance d = sum_list (map (\<lambda>a. seed (acc_id a)) (accounts d))"
proof -
  have ids: "distinct (map acc_id (accounts d))"
    and own: "\<forall>p \<in> set (postings d). po_account p \<in> set (map acc_id (accounts d))"
    using ok by (auto simp: books_ok_def constraints_ok_def has_account_def)
  have "sum_list (map (\<lambda>i. journal d i) (map acc_id (accounts d))) = sum_list (map po_amount (postings d))"
    unfolding journal_def by (rule sum_journal [OF ids own])
  also have "\<dots> = 0" using ok by (simp add: books_ok_def conserved_def)
  finally have j: "sum_list (map (\<lambda>a. journal d (acc_id a)) (accounts d)) = 0" by (simp add: comp_def)
  have "map acc_balance (accounts d) = map (\<lambda>a. seed (acc_id a) + journal d (acc_id a)) (accounts d)"
    using ok by (simp add: books_ok_def booked_def)
  then have "total_balance d = sum_list (map (\<lambda>a. seed (acc_id a) + journal d (acc_id a)) (accounts d))"
    by (simp only: total_balance_def)
  then show ?thesis using j by (simp add: sum_list_addf)
qed

text \<open>Without seed there is no money.\<close>

lemma unfunded_balances:
  assumes ok: "books_ok (\<lambda>_. 0) d" and a: "a \<in> set (accounts d)"
  shows "acc_balance a = 0"
proof -
  have "sum_list (map acc_balance (accounts d)) = 0"
    using total_is_seed [OF ok] by (simp add: total_balance_def)
  moreover have "\<forall>x \<in> set (map acc_balance (accounts d)). 0 \<le> x"
    using ok by (auto simp: books_ok_def constraints_ok_def account_row_ok_def)
  ultimately have "\<forall>x \<in> set (map acc_balance (accounts d)). x = 0"
    using sum_list_nonneg_eq_0_iff [of "map acc_balance (accounts d)"] by blast
  then show ?thesis using a by simp
qed

lemma unfunded_not_posted:
  assumes "ledger_ok (\<lambda>_. 0) d"
  shows "\<not> posted_once req d t d'"
proof
  assume "posted_once req d t d'"
  then obtain a where "find_account (sint (T_FromAccount t)) d = Some a" "0 < sint (T_Amount t)"
    "sint (T_Amount t) \<le> acc_balance a"
    by (auto simp: posted_once_def may_post_def postable_def)
  with unfunded_balances [of d a] assms show False
    by (auto simp: ledger_ok_def dest: find_account_Some)
qed

section \<open>Properties\<close>

text \<open>
  C27. The reconciliation job changes nothing, reports what the tables hold, and exits with 0
  exactly if the postings sum to zero, every balance is the sum of its postings and no balance is
  negative (with all numbers in the range of an \<open>int64\<close>).
\<close>

theorem recon_exit_status:
  assumes "no_faults orc" and "readable (tables w)"
  shows "case run orc recon_main w of ((out, code), w') \<Rightarrow>
    tables w' = tables w \<and> out = Report (recon_spec (tables w)) \<and>
    code = (if conserved (tables w) \<and> drifted (tables w) = [] \<and> negative (tables w) = [] then 0 else 1)"
proof -
  obtain x w' where r: "run orc recon_main w = (x, w')" by fastforce
  with recon_main_spec [OF r assms] show ?thesis by simp
qed

lemma sample_readable: "readable sample_db"
  by (simp add: readable_def sample_db_def alice_def bob_def bigint_def journal_def)

text \<open>The sample accounts were seeded outside the journal: they are reported.\<close>

theorem recon_exit_status_witness:
  "snd (fst (run calm recon_main sample_world)) = 1"
proof -
  have "drifted sample_db \<noteq> []" by code_simp
  then show ?thesis
    using recon_exit_status [OF calm_no_faults, of sample_world] sample_readable
    by (auto simp: case_prod_beta)
qed

text \<open>
  C28. On a ledger in order the conservation and the negative-balance checks pass, and the accounts
  reported as drifted are exactly those that were seeded outside the journal.
\<close>

theorem recon_reports_seeded:
  assumes "no_faults orc" and "readable (tables w)" and "ledger_ok seed (tables w)"
  shows "case run orc recon_Run w of (r, w') \<Rightarrow> \<exists>result. r = Inr result \<and>
    ConservationOK result \<and> NegativeCount result = 0 \<and>
    DriftAccounts result =
      map (drift_of (tables w)) (filter (\<lambda>a. seed (acc_id a) \<noteq> 0) (accounts (tables w)))"
proof -
  obtain r w' where r: "run orc recon_Run w = (r, w')" by fastforce
  have "books_ok seed (tables w)" using assms(3) by (simp add: ledger_ok_def)
  from books_ok_found [OF this] recon_Run_spec [OF r assms(1,2)] r show ?thesis
    by (simp add: recon_spec_def conserved_def Let_def)
qed

theorem recon_reports_seeded_witness:
  "\<exists>result. fst (run calm recon_Run sample_world) = Inr result \<and>
     map (\<lambda>d. sint (D_ID d)) (DriftAccounts result) = [1, 2]"
proof -
  have "map (\<lambda>d. sint (D_ID d))
      (map (drift_of sample_db) (filter (\<lambda>a. sample_seed (acc_id a) \<noteq> 0) (accounts sample_db))) = [1, 2]"
    by code_simp
  then show ?thesis
    using recon_reports_seeded [OF calm_no_faults, of sample_world sample_seed]
      sample_readable sample_ledger_ok
    by (auto simp: case_prod_beta simp del: map_map)
qed

text \<open>
  C29. Money enters only from outside the journal: on a ledger without seeds every balance is zero
  and no executor posts anything.
\<close>

theorem unfunded_ledger_posts_nothing:
  assumes "txn w = None" and "ledger_ok (\<lambda>_. 0) (tables w)"
  shows "(\<forall>a \<in> set (accounts (tables w)). acc_balance a = 0) \<and>
    tables (snd (run orc (execute_by s req) w)) = tables w"
proof -
  obtain r w' where r: "run orc (execute_by s req) w = (r, w')" by fastforce
  have "tables w' = tables w"
    using by_strategy.exec_tables [OF assms r] unfunded_not_posted [OF assms(2)] by blast
  moreover have "books_ok (\<lambda>_. 0) (tables w)" using assms(2) by (simp add: ledger_ok_def)
  ultimately show ?thesis using unfunded_balances r by (simp del: execute_by.simps)
qed

text \<open>Two accounts as \<open>POST /accounts\<close> creates them.\<close>

definition unfunded_world :: world where
  "unfunded_world = sample_world\<lparr>tables := sample_db\<lparr>accounts :=
     [alice\<lparr>acc_balance := 0\<rparr>, bob\<lparr>acc_balance := 0\<rparr>]\<rparr>\<rparr>"

theorem unfunded_ledger_posts_nothing_witness:
  "tables (snd (run calm (execute_by ConditionalUpdate pay) unfunded_world)) = tables unfunded_world"
proof -
  have "char3 ''USD'' = Some ''USD''" by code_simp
  then have "ledger_ok (\<lambda>_. 0) (tables unfunded_world)"
    by (simp add: unfunded_world_def ledger_ok_def books_ok_def constraints_ok_def sample_db_def
        alice_def bob_def account_row_ok_def bigint_def booked_def journal_def conserved_def
        double_entry_def events_match_def one_currency_def keys_settled_def)
  then show ?thesis
    using unfunded_ledger_posts_nothing [of unfunded_world calm ConditionalUpdate pay]
    by (simp add: unfunded_world_def sample_world_def del: execute_by.simps run.simps)
qed

end
