(* ===== verification/Queries.thy ===== *)
theory Queries
  imports Recon
begin

text \<open>
  The queries of \<open>internal/store\<close> on the pool: pages of an account's history, the outbox metrics,
  creating and reading an account.
\<close>

section \<open>Lists in descending order\<close>

lemma filter_below_last:
  assumes "sorted_wrt (\<lambda>x y. g x > (g y :: int)) xs" and "take n xs \<noteq> []"
  shows "filter (\<lambda>x. g x < g (last (take n xs))) xs = drop n xs"
proof -
  let ?a = "last (take n xs)"
  have split: "sorted_wrt (\<lambda>x y. g x > g y) (take n xs @ drop n xs)" using assms(1) by simp
  have "g ?a \<le> g x" if "x \<in> set (take n xs)" for x
  proof -
    have "take n xs = butlast (take n xs) @ [?a]" using assms(2) by simp
    then have "sorted_wrt (\<lambda>x y. g x > g y) (butlast (take n xs) @ [?a])"
      using split sorted_wrt_append by metis
    moreover have "x \<in> set (butlast (take n xs)) \<or> x = ?a"
      using that \<open>take n xs = _\<close> by (metis Un_iff empty_iff insert_iff list.set(1,2) set_append)
    ultimately show ?thesis by (auto simp: sorted_wrt_append)
  qed
  then have "filter (\<lambda>x. g x < g ?a) (take n xs) = []" by (force simp: filter_empty_conv)
  moreover have "g x < g ?a" if "x \<in> set (drop n xs)" for x
    using split that last_in_set [OF assms(2)] unfolding sorted_wrt_append by blast
  then have "filter (\<lambda>x. g x < g ?a) (drop n xs) = drop n xs" by simp
  ultimately show ?thesis by (metis append_Nil append_take_drop_id filter_append)
qed

lemma rev_sort_desc:
  assumes "distinct (map g xs)"
  shows "sorted_wrt (\<lambda>x y. g x > (g y :: int)) (rev (sort_key g xs))"
proof -
  have "distinct (map g (sort_key g xs))"
    using assms by (simp add: distinct_map)
  moreover have "sorted (map g (sort_key g xs))" by simp
  ultimately have "sorted_wrt (<) (map g (sort_key g xs))" by (simp add: strict_sorted_iff)
  then show ?thesis by (simp add: sorted_wrt_rev sorted_wrt_map)
qed

section \<open>History\<close>

definition posting_of :: "posting_row \<Rightarrow> posting" where
  "posting_of p = \<lparr>P_ID = word_of_int (po_id p), P_TransferID = po_transfer p,
     P_Amount = word_of_int (po_amount p), P_CreatedAt = po_created p\<rparr>"

text \<open>The postings of an account, newest first.\<close>

definition history :: "int64 \<Rightarrow> db \<Rightarrow> posting_row list" where
  "history i d = rev (sort_key po_id (filter (\<lambda>p. po_account p = sint i) (postings d)))"

definition postings_readable :: "db \<Rightarrow> bool" where
  "postings_readable d \<longleftrightarrow>
     distinct (map po_id (postings d)) \<and>
     (\<forall>p \<in> set (postings d). 0 < po_id p \<and> bigint (po_id p) \<and> bigint (po_amount p))"

lemma history_set: "set (history i d) \<subseteq> set (postings d)"
  by (auto simp: history_def)

lemma history_desc:
  "postings_readable d \<Longrightarrow> sorted_wrt (\<lambda>x y. po_id x > po_id y) (history i d)"
  unfolding history_def postings_readable_def by (intro rev_sort_desc) (simp add: distinct_map_filter)

lemma select_postings:
  assumes "0 \<le> lim"
  shows "exec_stmt v (SelectPostings i after lim) d =
    (let rows = take (nat lim) (filter (\<lambda>p. case after of None \<Rightarrow> True | Some a \<Rightarrow> po_id p < sint a)
           (history i d))
     in Inr (length rows, map (\<lambda>p. [VInt (po_id p), VText (po_transfer p), VInt (po_amount p),
          VTime (po_created p)]) rows, d))"
proof -
  have "rev (sort_key po_id (filter (\<lambda>p. po_account p = sint i \<and> Q p) (postings d))) =
      filter Q (history i d)" for Q
    unfolding history_def rev_filter [symmetric] filter_sort by (simp add: conj_commute)
  then show ?thesis using assms by (simp add: sql_select_postings_def Let_def)
qed

lemma GetPostings_page:
  assumes run: "run orc (GetPostings i after lim) w = (r, w')" and orc: "no_faults orc"
    and d: "postings_readable (tables w)" and lim: "0 \<le> lim"
  shows "r = Inr (map posting_of (take (nat lim)
      (filter (\<lambda>p. 0 < sint after \<longrightarrow> po_id p < sint after) (history i (tables w))))) \<and>
    tables w' = tables w"
proof -
  let ?a = "if 0 < sint after then Some after else None"
  let ?rows = "take (nat lim) (filter (\<lambda>p. 0 < sint after \<longrightarrow> po_id p < sint after) (history i (tables w)))"
  obtain q where q: "run orc (query Pool (SelectPostings i ?a lim)) w = (q, w')"
    and r: "r = (case q of Inl e \<Rightarrow> Inl e | Inr rows \<Rightarrow> scan_rows scan_posting rows)"
    using run by (auto simp: GetPostings_def run_tryp split: prod.splits sum.splits)
  have "exec_stmt (pool_env orc (SelectPostings i ?a lim) w) (SelectPostings i ?a lim) (tables w) =
      Inr (length ?rows, map (\<lambda>p. [VInt (po_id p), VText (po_transfer p), VInt (po_amount p),
          VTime (po_created p)]) ?rows, tables w)"
    unfolding select_postings [OF lim] by (simp add: Let_def)
  from query_pool_ok [OF q orc this]
  have q: "q = Inr (map (\<lambda>p. [VInt (po_id p), VText (po_transfer p), VInt (po_amount p),
          VTime (po_created p)]) ?rows)" and t: "tables w' = tables w" by auto
  have "set ?rows \<subseteq> set (postings (tables w))"
    using history_set by (fastforce dest: in_set_takeD)
  then have "scan_rows scan_posting (map (\<lambda>p. [VInt (po_id p), VText (po_transfer p),
      VInt (po_amount p), VTime (po_created p)]) ?rows) = Inr (map posting_of ?rows)"
    using d by (intro scan_rows_map) (auto simp: postings_readable_def posting_of_def)
  with q r t show ?thesis by simp
qed

text \<open>
  A client that reads \<open>n\<close> pages, passing the id of the last posting of a page as the cursor of the
  next, as the comment of \<open>GetPostings\<close> says.
\<close>

primrec read_pages :: "nat \<Rightarrow> int64 \<Rightarrow> int64 \<Rightarrow> int \<Rightarrow> (err + posting list) prog" where
  "read_pages 0 i after lim = return []"
| "read_pages (Suc n) i after lim =
     tryp (GetPostings i after lim) (\<lambda>page.
       if page = [] then return []
       else tryp (read_pages n i (P_ID (last page)) lim) (\<lambda>rest. return (page @ rest)))"

lemma read_pages_from:
  assumes orc: "no_faults orc" and lim: "0 < lim"
  shows "run orc (read_pages n i after lim) w = (r, w') \<Longrightarrow> postings_readable (tables w) \<Longrightarrow>
    r = Inr (map posting_of (take (n * nat lim)
      (filter (\<lambda>p. 0 < sint after \<longrightarrow> po_id p < sint after) (history i (tables w))))) \<and>
    tables w' = tables w"
proof (induction n arbitrary: after w r w')
  case 0
  then show ?case by simp
next
  case (Suc n)
  let ?h = "filter (\<lambda>p. 0 < sint after \<longrightarrow> po_id p < sint after) (history i (tables w))"
  obtain q w1 where q: "run orc (GetPostings i after lim) w = (q, w1)" by fastforce
  have page: "q = Inr (map posting_of (take (nat lim) ?h))" "tables w1 = tables w"
    using GetPostings_page [OF q orc Suc.prems(2)] lim by auto
  show ?case
  proof (cases "take (nat lim) ?h = []")
    case True
    then have "?h = []" using lim by simp
    with True show ?thesis using Suc.prems q page by (auto simp: run_tryp)
  next
    case False
    let ?p = "last (take (nat lim) ?h)"
    have "?p \<in> set ?h" using False by (metis in_set_takeD last_in_set)
    then have "?p \<in> set (postings (tables w))" using history_set [of i "tables w"] by auto
    then have id: "0 < po_id ?p" "sint (word_of_int (po_id ?p) :: int64) = po_id ?p"
      using Suc.prems(2) by (auto simp: postings_readable_def sint_of_bigint)
    have desc: "sorted_wrt (\<lambda>x y. po_id x > po_id y) ?h"
      using history_desc [OF Suc.prems(2)] by (rule sorted_wrt_filter)
    have "po_id ?p < sint after" if "0 < sint after" using \<open>?p \<in> set ?h\<close> that by auto
    then have "filter (\<lambda>p. po_id p < po_id ?p) (history i (tables w)) = filter (\<lambda>p. po_id p < po_id ?p) ?h"
      by (auto simp: filter_filter intro!: filter_cong)
    also have "\<dots> = drop (nat lim) ?h" by (rule filter_below_last [OF desc False])
    finally have rest: "filter (\<lambda>p. po_id p < po_id ?p) (history i (tables w)) = drop (nat lim) ?h" .
    have last: "P_ID (last (map posting_of (take (nat lim) ?h))) = word_of_int (po_id ?p)"
      using False by (simp add: last_map posting_of_def)
    obtain r2 w2 where r2: "run orc (read_pages n i (word_of_int (po_id ?p)) lim) w1 = (r2, w2)"
      by fastforce
    have "r2 = Inr (map posting_of (take (n * nat lim) (drop (nat lim) ?h)))" "tables w2 = tables w"
      using Suc.IH [OF r2] Suc.prems(2) page(2) id rest by auto
    moreover have "run orc (read_pages (Suc n) i after lim) w =
        (map_sum id (\<lambda>rest. map posting_of (take (nat lim) ?h) @ rest) r2, w2)"
      using q page False last r2 by (auto simp: run_tryp split: sum.splits)
    ultimately show ?thesis
      using Suc.prems(1) by (simp add: take_add map_append)
  qed
qed

section \<open>Metrics\<close>

definition metrics_of :: "db \<Rightarrow> outbox_metrics" where
  "metrics_of d = \<lparr>M_Pending = int (count_status Pending d), M_InFlight = int (count_status InFlight d),
     M_Delivered = int (count_status Delivered d), M_DeadLetter = int (count_status DeadLetter d)\<rparr>"

lemma count_status_bigint:
  "bigint (int (length (outbox d))) \<Longrightarrow> bigint (int (count_status s d))"
proof -
  assume "bigint (int (length (outbox d)))"
  moreover have "count_status s d \<le> length (outbox d)" by (simp add: count_status_def)
  ultimately show ?thesis by (auto simp: bigint_def)
qed

lemma metrics_rows:
  assumes "bigint (int (length (outbox d)))"
  shows "\<exists>n rows. exec_stmt v CountByStatus d = Inr (n, rows, d) \<and>
    metrics_loop rows \<lparr>M_Pending = 0, M_InFlight = 0, M_Delivered = 0, M_DeadLetter = 0\<rparr> =
      Inr (metrics_of d)"
proof -
  have "sint (word_of_int (int (count_status s d)) :: int64) = int (count_status s d)" for s
    by (rule sint_of_bigint [OF count_status_bigint [OF assms]])
  then show ?thesis
    using count_status_bigint [OF assms]
    by (simp add: sql_count_by_status_def Let_def scan_text_int_def set_metric_def metrics_of_def)
qed

lemma GetOutboxMetrics_spec:
  assumes run: "run orc GetOutboxMetrics w = (r, w')" and orc: "no_faults orc"
    and d: "bigint (int (length (outbox (tables w))))"
  shows "r = Inr (metrics_of (tables w)) \<and> tables w' = tables w"
proof -
  obtain q where q: "run orc (query Pool CountByStatus) w = (q, w')"
    and r: "r = (case q of Inl e \<Rightarrow> Inl e | Inr rows \<Rightarrow> metrics_loop rows
      \<lparr>M_Pending = 0, M_InFlight = 0, M_Delivered = 0, M_DeadLetter = 0\<rparr>)"
    using run by (auto simp: GetOutboxMetrics_def run_tryp split: prod.splits sum.splits)
  obtain n rows where "exec_stmt (pool_env orc CountByStatus w) CountByStatus (tables w) =
      Inr (n, rows, tables w)"
    and "metrics_loop rows \<lparr>M_Pending = 0, M_InFlight = 0, M_Delivered = 0, M_DeadLetter = 0\<rparr> =
      Inr (metrics_of (tables w))"
    using metrics_rows [OF d] by blast
  with query_pool_ok [OF q orc] r show ?thesis by auto
qed

lemma metrics_total:
  "M_Pending (metrics_of d) + M_InFlight (metrics_of d) + M_Delivered (metrics_of d) +
     M_DeadLetter (metrics_of d) = int (length (outbox d))"
proof -
  have "length (filter (\<lambda>r. ob_status r = Pending) rs) + length (filter (\<lambda>r. ob_status r = InFlight) rs) +
      length (filter (\<lambda>r. ob_status r = Delivered) rs) +
      length (filter (\<lambda>r. ob_status r = DeadLetter) rs) = length rs" for rs
  proof (induction rs)
    case Nil
    then show ?case by simp
  next
    case (Cons r rs)
    then show ?case by (cases "ob_status r") auto
  qed
  then show ?thesis
    by (simp add: metrics_of_def count_status_def flip: of_nat_add)
qed

section \<open>Accounts\<close>

definition account_of :: "account_row \<Rightarrow> account" where
  "account_of a = \<lparr>A_ID = word_of_int (acc_id a), A_Name = acc_name a, A_Currency = acc_currency a,
     A_Balance = word_of_int (acc_balance a), A_CreatedAt = acc_created a\<rparr>"

definition new_account :: "int \<Rightarrow> string \<Rightarrow> string \<Rightarrow> string option \<Rightarrow> timestamp \<Rightarrow> account_row" where
  "new_account i name c url now = \<lparr>acc_id = i, acc_name = name, acc_currency = c, acc_balance = 0,
     acc_version = 0, acc_created = now, acc_webhook = url\<rparr>"

lemma scan_account_row:
  assumes "bigint (acc_id a)" and "bigint (acc_balance a)"
  shows "scan_account (Inr [VInt (acc_id a), VText (acc_name a), VText (acc_currency a),
    VInt (acc_balance a), VTime (acc_created a)]) = Inr (account_of a)"
  using assms by (simp add: account_of_def)

text \<open>A new account keeps the ledger in order; it has no seed and no postings.\<close>

lemma no_account_no_postings:
  "constraints_ok d \<Longrightarrow> \<not> has_account i d \<Longrightarrow> journal d i = 0"
proof -
  assume "constraints_ok d" and "\<not> has_account i d"
  then have "filter (\<lambda>p. po_account p = i) (postings d) = []"
    by (auto simp: constraints_ok_def filter_empty_conv)
  then show ?thesis by (simp add: journal_def sum_where_def)
qed

lemma new_account_ledger:
  assumes ok: "ledger_ok seed d" and new: "\<not> has_account i d" and seed: "seed i = 0"
    and c: "char3 c = Some c"
  shows "ledger_ok seed (d\<lparr>accounts := accounts d @ [new_account i name c url now]\<rparr>)"
proof -
  let ?a = "new_account i name c url now" let ?d = "d\<lparr>accounts := accounts d @ [?a]\<rparr>"
  have con: "constraints_ok d" using ok by (simp add: ledger_ok_def books_ok_def)
  have a: "acc_id ?a = i" "acc_balance ?a = 0" "account_row_ok ?a"
    using c by (simp_all add: new_account_def account_row_ok_def bigint_def)
  have "constraints_ok ?d"
    using con new a by (auto simp: constraints_ok_def has_account_def)
  moreover have "booked seed ?d"
    using ok a seed no_account_no_postings [OF con new]
    by (simp add: ledger_ok_def books_ok_def booked_def) (simp add: journal_def)
  moreover have "one_currency ?d"
    using ok con new a by (fastforce simp: ledger_ok_def books_ok_def one_currency_def constraints_ok_def)
  ultimately show ?thesis
    using ok by (simp add: ledger_ok_def books_ok_def conserved_def double_entry_def entries_of_def
        events_match_def keys_settled_def key_settled_def)
qed

definition add_account :: "account_row \<Rightarrow> db \<Rightarrow> db" where
  "add_account a d = d\<lparr>accounts := accounts d @ [a]\<rparr>"

lemma exec_insert_account:
  "exec_stmt v (InsertAccount name cur url) d =
    (case char3 cur of
       None \<Rightarrow> Inl string_truncation
     | Some c \<Rightarrow>
         if has_account (e_id v) d then Inl unique_violation
         else
           (let a = new_account (e_id v) name c url (e_now v)
            in Inr (1, [[VInt (acc_id a), VText name, VText c, VInt 0, VTime (e_now v)]], add_account a d)))"
  by (simp add: sql_insert_account_def new_account_def add_account_def Let_def split: option.splits)

lemma pool_env_account_id:
  "e_id (pool_env orc (InsertAccount name cur url) w) = acc_seq w"
  by (simp add: pool_env_def stmt_env_def)

lemma CreateAccount_run:
  assumes "run orc (CreateAccount name cur url) w = (r, w')"
  shows "\<exists>q. run orc (query Pool (InsertAccount name cur url)) w = (q, w') \<and> r = scan_account (query_row q)"
  using assms by (auto simp: CreateAccount_def run_bindp split: prod.splits)

lemma CreateAccount_tables:
  assumes run: "run orc (CreateAccount name cur url) w = (r, w')"
  shows "txn w' = txn w \<and> (tables w' = tables w \<or>
    (\<exists>c now. char3 cur = Some c \<and> \<not> has_account (acc_seq w) (tables w) \<and>
       tables w' = add_account (new_account (acc_seq w) name c url now) (tables w)))"
proof -
  let ?s = "InsertAccount name cur url"
  obtain q where q: "run orc (query Pool ?s) w = (q, w')" using CreateAccount_run [OF run] by blast
  obtain x where "pool_frame w w'" and t: "pool_tables orc ?s w x w'" using query_pool [OF q] by blast
  then show ?thesis
    by (auto simp: pool_tables_def pool_frame_def exec_insert_account pool_env_account_id Let_def
        simp del: exec_stmt.simps split: option.splits if_splits)
qed

lemma CreateAccount_ok:
  assumes run: "run orc (CreateAccount name cur url) w = (r, w')" and orc: "no_faults orc"
    and c: "char3 cur = Some c" and new: "\<not> has_account (acc_seq w) (tables w)" "bigint (acc_seq w)"
  shows "\<exists>now \<in> range (o_clock orc). r = Inr (account_of (new_account (acc_seq w) name c url now)) \<and>
    tables w' = add_account (new_account (acc_seq w) name c url now) (tables w)"
proof -
  let ?s = "InsertAccount name cur url"
  let ?now = "o_clock orc (calls w)" let ?a = "new_account (acc_seq w) name c url ?now"
  obtain q where q: "run orc (query Pool ?s) w = (q, w')" and r: "r = scan_account (query_row q)"
    using CreateAccount_run [OF run] by blast
  obtain x where x: "q = map_sum id snd x" "pool_tables orc ?s w x w'" using query_pool [OF q] by blast
  have "q = Inr [[VInt (acc_id ?a), VText (acc_name ?a), VText (acc_currency ?a), VInt (acc_balance ?a),
      VTime (acc_created ?a)]]" and t: "tables w' = add_account ?a (tables w)"
    using x c new orc
    by (auto simp: pool_tables_def exec_insert_account pool_env_account_id Let_def no_faults_def
        new_account_def simp del: exec_stmt.simps)
  then have "r = Inr (account_of ?a)"
    unfolding r using scan_account_row [of ?a] new(2)
    by (simp add: new_account_def bigint_def del: store_scan_defs)
  with t show ?thesis by blast
qed

lemma find_add_account:
  "\<not> has_account i d \<Longrightarrow>
     find_account i (add_account (new_account i name c url now) d) = Some (new_account i name c url now)"
proof -
  assume "\<not> has_account i d"
  then have "find (\<lambda>a. acc_id a = i) (accounts d) = None"
    using find_account_None by (simp add: find_account_def)
  then show ?thesis by (simp add: find_account_def add_account_def find_append new_account_def)
qed

lemma rows_ok_add_account:
  assumes "rows_ok d" and "char3 cur = Some c" and "\<not> has_account i d"
  shows "rows_ok (add_account (new_account i name c url now) d)"
  using assms char3_idem [OF assms(2)]
  by (auto simp: rows_ok_def pk_ok_def add_account_def new_account_def account_row_ok_def bigint_def
      has_account_def)

lemma GetAccount_spec:
  assumes run: "run orc (GetAccount i) w = (r, w')" and orc: "no_faults orc"
    and ok: "rows_ok (tables w)"
  shows "tables w' = tables w \<and>
    r = (case find_account (sint i) (tables w) of
           None \<Rightarrow> Inl ErrNotFound | Some a \<Rightarrow> Inr (account_of a))"
proof -
  let ?s = "SelectAccount i" let ?rows = "filter (\<lambda>a. acc_id a = sint i) (accounts (tables w))"
  obtain q where q: "run orc (query Pool ?s) w = (q, w')"
    and r: "r = (case scan_account (query_row q) of
        Inl e \<Rightarrow> Inl (if errors_is e ErrNoRows then ErrNotFound else e) | Inr a \<Rightarrow> Inr a)"
    using run by (auto simp: GetAccount_def run_bindp split: prod.splits sum.splits)
  have "exec_stmt (pool_env orc ?s w) ?s (tables w) = Inr (length ?rows,
      map (\<lambda>a. [VInt (acc_id a), VText (acc_name a), VText (acc_currency a), VInt (acc_balance a),
        VTime (acc_created a)]) ?rows, tables w)"
    by (simp add: sql_select_account_def Let_def)
  from query_pool_ok [OF q orc this]
  have q: "q = Inr (map (\<lambda>a. [VInt (acc_id a), VText (acc_name a), VText (acc_currency a),
      VInt (acc_balance a), VTime (acc_created a)]) ?rows)" and t: "tables w' = tables w" by auto
  show ?thesis
  proof (cases "find_account (sint i) (tables w)")
    case None
    then have "?rows = []" using accounts_with_id [of "tables w" "sint i"] ok by auto
    with None q r t show ?thesis by simp
  next
    case (Some a)
    then have "?rows = [a]" using accounts_with_id [of "tables w" "sint i"] ok by auto
    moreover have "bigint (acc_id a)"
      using find_account_Some [OF Some] bigint_sint [of i] by simp
    moreover have "bigint (acc_balance a)" using rows_ok_find [OF ok Some] by (simp add: account_row_ok_def)
    ultimately show ?thesis
      using Some q r t scan_account_row [of a] by (simp del: store_scan_defs)
  qed
qed

section \<open>Properties\<close>

text \<open>
  C36. Paging through an account's history as the comment of \<open>GetPostings\<close> prescribes yields its
  postings newest first, none twice and none left out: \<open>n\<close> pages of \<open>lim\<close> are the first
  \<open>n * lim\<close> postings.
\<close>

theorem history_pages:
  assumes "no_faults orc" and "0 < lim" and "postings_readable (tables w)"
  shows "case run orc (read_pages n i 0 lim) w of (r, w') \<Rightarrow>
    r = Inr (map posting_of (take (n * nat lim) (history i (tables w)))) \<and> tables w' = tables w"
proof -
  obtain r w' where r: "run orc (read_pages n i 0 lim) w = (r, w')" by fastforce
  with read_pages_from [OF assms(1,2) r assms(3)] show ?thesis by simp
qed

theorem history_pages_witness:
  "map_sum id (map (\<lambda>p. sint (P_Amount p))) (fst (run calm (read_pages 3 2 0 1) paid_world)) = Inr [300]"
proof -
  have "list_all (\<lambda>p. 0 < po_id p \<and> bigint (po_id p) \<and> bigint (po_amount p)) (postings (tables paid_world))"
    and "distinct (map po_id (postings (tables paid_world)))"
    unfolding paid_world_eq by code_simp+
  then have "postings_readable (tables paid_world)"
    by (simp add: postings_readable_def list_all_iff)
  moreover have "map (\<lambda>p. sint (P_Amount p)) (map posting_of (take 3 (history 2 (tables paid_world)))) = [300]"
    unfolding paid_world_eq by code_simp
  ultimately show ?thesis
    using history_pages [OF calm_no_faults, where lim = 1 and w = paid_world and n = 3 and i = 2]
    by (auto simp: case_prod_beta simp del: read_pages.simps map_map)
qed

text \<open>
  The metrics count the events by their status, and the four counts add up to all events.
\<close>

lemma metrics_count_events:
  assumes "no_faults orc" and "bigint (int (length (outbox (tables w))))"
  shows "case run orc GetOutboxMetrics w of (r, w') \<Rightarrow>
    r = Inr (metrics_of (tables w)) \<and> tables w' = tables w \<and>
    M_Pending (metrics_of (tables w)) + M_InFlight (metrics_of (tables w)) +
      M_Delivered (metrics_of (tables w)) + M_DeadLetter (metrics_of (tables w)) =
    int (length (outbox (tables w)))"
proof -
  obtain r w' where r: "run orc GetOutboxMetrics w = (r, w')" by fastforce
  with GetOutboxMetrics_spec [OF r assms] metrics_total [of "tables w"] show ?thesis by simp
qed

text \<open>
  An account reads back as it was created: with the given name, the currency padded to three
  characters, and a balance of zero.
\<close>

lemma create_then_get:
  assumes "no_faults orc" and "no_faults orc'" and "rows_ok (tables w)" and "char3 cur = Some c"
    and "\<not> has_account (acc_seq w) (tables w)" and "bigint (acc_seq w)"
  shows "case run orc (CreateAccount name cur url) w of (r, w1) \<Rightarrow>
    \<exists>a. r = Inr a \<and> A_Name a = name \<and> A_Currency a = c \<and> A_Balance a = 0 \<and>
      fst (run orc' (GetAccount (A_ID a)) w1) = Inr a"
proof -
  obtain r w1 where r: "run orc (CreateAccount name cur url) w = (r, w1)" by fastforce
  obtain now where now: "r = Inr (account_of (new_account (acc_seq w) name c url now))"
    "tables w1 = add_account (new_account (acc_seq w) name c url now) (tables w)"
    using CreateAccount_ok [OF r assms(1,4,5,6)] by blast
  let ?a = "new_account (acc_seq w) name c url now"
  have id: "sint (A_ID (account_of ?a)) = acc_seq w"
    using sint_of_bigint [OF assms(6)] by (simp add: account_of_def new_account_def)
  have "rows_ok (tables w1)" "find_account (acc_seq w) (tables w1) = Some ?a"
    using find_add_account [OF assms(5)] rows_ok_add_account [OF assms(3,4,5)] by (simp_all add: now)
  moreover obtain r2 w2 where r2: "run orc' (GetAccount (A_ID (account_of ?a))) w1 = (r2, w2)" by fastforce
  ultimately have "r2 = Inr (account_of ?a)"
    using GetAccount_spec [OF r2 assms(2)] id by simp
  with r r2 now show ?thesis by (simp add: account_of_def new_account_def)
qed

text \<open>
  Creating an account keeps the ledger in order, whatever calls fail, when the identity sequence
  yields a new id: the new account has no seed and no postings.
\<close>

lemma create_keeps_ledger:
  assumes "ledger_ok seed (tables w)" and "seed (acc_seq w) = 0"
  shows "case run orc (CreateAccount name cur url) w of (r, w') \<Rightarrow>
    txn w' = txn w \<and> ledger_ok seed (tables w')"
proof -
  obtain r w' where r: "run orc (CreateAccount name cur url) w = (r, w')" by fastforce
  have "ledger_ok seed (add_account (new_account (acc_seq w) name c url now) (tables w))"
    if "char3 cur = Some c" "\<not> has_account (acc_seq w) (tables w)" for c now
    unfolding add_account_def
    by (rule new_account_ledger [OF assms(1) that(2) assms(2) char3_idem [OF that(1)]])
  with CreateAccount_tables [OF r] assms(1) r show ?thesis by auto
qed

end
