(* ===== verification/Bank.thy ===== *)
theory Bank
  imports Sample
begin

text \<open>
  The abstract specification of the executors. A \<open>bank\<close> knows each account's currency and balance,
  the keys it has answered with the hash of their request, and the keys of the posted transfers; no
  rows, transactions, journal or outbox. \<open>bank_transfer\<close> decides a keyed request in one step. The
  executors refine it: what they answer and what they leave in the tables is what the bank does.
  Both strategies therefore answer alike.
\<close>

section \<open>The specification\<close>

record bank =
  bk_account :: "int \<Rightarrow> (string \<times> int) option"
  bk_answered :: "string \<Rightarrow> string option"
  bk_used :: "string set"

datatype verdict = Refuse err | Replayed | Posting

definition bank_verdict :: "transfer_request \<Rightarrow> bank \<Rightarrow> verdict" where
  "bank_verdict req b =
     (case bk_answered b (IdempotencyKey req) of
        Some h \<Rightarrow> if h \<noteq> RequestHash req then Refuse ErrDuplicateRequest else Replayed
      | None \<Rightarrow>
          (case (bk_account b (sint (FromAccount req)), bk_account b (sint (ToAccount req))) of
             (Some (c1, b1), Some (c2, b2)) \<Rightarrow>
               if c1 \<noteq> Currency req \<or> c2 \<noteq> Currency req then Refuse ErrCurrencyMismatch
               else if b1 < sint (Amount req) then Refuse ErrInsufficientFunds
               else if \<not> bigint (b2 + sint (Amount req)) then Refuse numeric_out_of_range
               else if IdempotencyKey req \<in> bk_used b then Refuse unique_violation
               else Posting
           | _ \<Rightarrow> Refuse ErrAccountNotFound))"

definition bank_post :: "transfer_request \<Rightarrow> bank \<Rightarrow> bank" where
  "bank_post req b =
     \<lparr>bk_account = (\<lambda>i. map_option (\<lambda>(c, n).
          (c, n + funds_delta (sint (FromAccount req)) (sint (ToAccount req)) (sint (Amount req)) i))
        (bk_account b i)),
      bk_answered = (bk_answered b)(IdempotencyKey req \<mapsto> RequestHash req),
      bk_used = insert (IdempotencyKey req) (bk_used b)\<rparr>"

definition bank_transfer :: "transfer_request \<Rightarrow> bank \<Rightarrow> verdict \<times> bank" where
  "bank_transfer req b =
     (bank_verdict req b, if bank_verdict req b = Posting then bank_post req b else b)"

section \<open>The abstraction\<close>

definition bank_of :: "db \<Rightarrow> bank" where
  "bank_of d =
     \<lparr>bk_account = (\<lambda>i. map_option (\<lambda>a. (acc_currency a, acc_balance a)) (find_account i d)),
      bk_answered = (\<lambda>k. map_option ik_hash (find_key k d)),
      bk_used = tr_key ` set (transfers d)\<rparr>"

fun verdict_of :: "err + transfer \<times> stored_response option \<Rightarrow> verdict" where
  "verdict_of (Inl e) = Refuse e"
| "verdict_of (Inr (t, Some s)) = Replayed"
| "verdict_of (Inr (t, None)) = Posting"

text \<open>A request as the API passes it on: it has a key and has passed the checks on its fields.\<close>

definition proper :: "transfer_request \<Rightarrow> bool" where
  "proper req \<longleftrightarrow> IdempotencyKey req \<noteq> [] \<and> 0 < sint (Amount req) \<and>
     FromAccount req \<noteq> ToAccount req \<and> length (Currency req) = 3"

lemma proper_not_invalid: "proper req \<Longrightarrow> \<not> invalid req e"
  by (auto simp: proper_def invalid_def)

lemma bank_account_simps [simp]:
  "bk_account (bank_of d) i = map_option (\<lambda>a. (acc_currency a, acc_balance a)) (find_account i d)"
  "bk_answered (bank_of d) k = map_option ik_hash (find_key k d)"
  "bk_used (bank_of d) = tr_key ` set (transfers d)"
  by (simp_all add: bank_of_def)

section \<open>Refinement\<close>

text \<open>The bank turns down whatever the body turns down, with the same error.\<close>

lemma exec_spec_verdict:
  assumes ok: "rows_ok d" and p: "proper req" and new: "find_key (IdempotencyKey req) d' = None"
    and d': "accounts d' = accounts d" "transfers d' = transfers d"
    and fresh: "fresh_sources \<sigma> d" "drawn \<sigma> req tid key pid ev" "rfc3339_ok now"
    and x: "exec_spec tid key pid ev req now d = Inl e"
  shows "bank_verdict req (bank_of d') = Refuse e"
proof -
  let ?f = "sint (FromAccount req)" and ?t = "sint (ToAccount req)" and ?n = "sint (Amount req)"
  have find: "find_account i d' = find_account i d" for i using d' by (simp add: find_account_def)
  have ft: "?f \<noteq> ?t" and n: "0 < ?n" using p by (auto simp: proper_def sint_eq_iff)
  have key: "key = IdempotencyKey req" using fresh(2) p by (simp add: drawn_def proper_def)
  show ?thesis
  proof (cases "\<exists>a b. find_account ?f d = Some a \<and> find_account ?t d = Some b")
    case False
    with x show ?thesis
      by (auto simp: exec_spec_def bank_verdict_def new find split: option.splits)
  next
    case True
    then obtain a b where a: "find_account ?f d = Some a" and b: "find_account ?t d = Some b" by auto
    have oka: "account_row_ok a" and okb: "account_row_ok b" using ok a b by (auto dest: rows_ok_find)
    have ida: "acc_id a = ?f" using find_account_Some [OF a] by simp
    show ?thesis
    proof (cases "acc_currency a \<noteq> Currency req \<or> acc_currency b \<noteq> Currency req \<or> acc_balance a < ?n")
      case True
      with x a b show ?thesis
        by (auto simp: exec_spec_def debit_spec_def bank_verdict_def new find split: if_splits)
    next
      case False
      let ?d1 = "put_account (a\<lparr>acc_balance := acc_balance a - ?n\<rparr>) d"
      have d1: "debit_spec (Amount req) (FromAccount req) d = Inr ((), ?d1)"
        using a False n oka
        by (auto simp: debit_spec_def change_balance_def set_balance_def account_row_ok_def bigint_def)
      have b1: "find_account ?t ?d1 = Some b" using b ft ida by (simp add: find_put_account)
      show ?thesis
      proof (cases "bigint (acc_balance b + ?n)")
        case big: False
        with x a b False d1 b1 show ?thesis
          by (simp add: exec_spec_def credit_spec_def change_balance_def set_balance_def
              bank_verdict_def new find)
      next
        case big: True
        then obtain d2 where d2: "credit_spec (Amount req) (ToAccount req) ?d1 = Inr ((), d2)"
          "d2 = put_account (b\<lparr>acc_balance := acc_balance b + ?n\<rparr>) ?d1"
          using b1 n okb by (simp add: credit_spec_def change_balance_def set_balance_def account_row_ok_def)
        have ins: "insert_spec tid key pid ev req now d2 = Inl e"
          using x a b False d1 d2 by (simp add: exec_spec_def)
        have "char3 (Currency req) = Some (Currency req)" using oka False by (auto simp: account_row_ok_def)
        then have "key \<in> tr_key ` set (transfers d) \<and> e = unique_violation"
          using ins n p drawn_fresh [OF fresh(1,2)] fresh(3) a b
          by (auto simp: insert_spec_def Let_def d2(2) proper_def find_put_account
              split: if_splits option.splits)
        then show ?thesis using a b False big key d' by (simp add: bank_verdict_def new find)
      qed
    qed
  qed
qed

lemma refused_verdict:
  assumes ok: "ledger_ok seed d" and p: "proper req" and fresh: "fresh_sources \<sigma> d"
    and r: "refused \<sigma> req now d e"
  shows "bank_verdict req (bank_of d) = Refuse e"
proof -
  have keys: "keys_settled d" and rows: "rows_ok d"
    using ok ledger_rows_ok by (auto simp: ledger_ok_def)
  have now: "rfc3339_ok now" using fresh r by (auto simp: fresh_sources_def refused_def)
  from r consider "claim_post (IdempotencyKey req) (RequestHash req) now d (Inl e)"
    | d1 tid key pid ev where "claimed req now d d1" "drawn \<sigma> req tid key pid ev"
      "exec_spec tid key pid ev req now d1 = Inl e"
    by (auto simp: refused_def)
  then show ?thesis
  proof cases
    case 1
    then show ?thesis
      using keys_settled_find [OF keys]
      by (fastforce simp: claim_post_def key_settled_def bank_verdict_def split: option.splits if_splits)
  next
    case 2
    have new: "find_key (IdempotencyKey req) d = None"
      and d1: "d1 = d\<lparr>idem_keys := idem_keys d @ [new_key (IdempotencyKey req) (RequestHash req) now]\<rparr>"
      using claimed_settled [OF 2(1) keys] p by (auto simp: proper_def)
    have "fresh_sources \<sigma> d1" using fresh by (simp add: d1 fresh_sources_def)
    then show ?thesis
      by (intro exec_spec_verdict [OF claimed_rows_ok [OF 2(1) rows] p new _ _ _ 2(2) now 2(3)])
        (simp_all add: d1)
  qed
qed

lemma posted_verdict:
  assumes p: "proper req" and post: "posted_once req d t d'"
  shows "bank_transfer req (bank_of d) = (Posting, bank_of d')"
proof -
  obtain now pid ev where m: "may_post req now pid ev t d" and d': "d' = post pid ev req t d"
    using post by (auto simp: posted_once_def)
  have key: "IdempotencyKey req \<noteq> []" using p by (simp add: proper_def)
  have new: "find_key (IdempotencyKey req) d = None" and tk: "T_IdempotencyKey t = IdempotencyKey req"
    and t: "t = new_transfer (T_ID t) (T_IdempotencyKey t) (Currency req) req now"
    and pt: "postable pid ev t d"
    using m key by (auto simp: may_post_def)
  have f: "T_FromAccount t = FromAccount req" "T_ToAccount t = ToAccount req"
    "T_Amount t = Amount req" "T_Currency t = Currency req"
    using t by (metis new_transfer_sel)+
  have v: "bank_verdict req (bank_of d) = Posting"
    using pt new tk f by (auto simp: postable_def bank_verdict_def fresh_ids_def)
  have "find_account i d' = find_account i (move_funds (sint (FromAccount req))
      (sint (ToAccount req)) (sint (Amount req)) d)" for i
    by (simp add: find_account_def d' post_def f)
  then have "bk_account (bank_of d') = bk_account (bank_post req (bank_of d))"
    by (simp add: bank_post_def find_move_funds option.map_comp comp_def fun_eq_iff)
  moreover have "find_key k d' = (if k = IdempotencyKey req then Some (done_row req t) else find_key k d)"
    for k
    using key new
    by (cases "find_key k d") (auto simp: find_key_def d' post_def find_append done_row_def)
  then have "bk_answered (bank_of d') = bk_answered (bank_post req (bank_of d))"
    by (auto simp: bank_post_def fun_eq_iff done_row_def)
  moreover have "bk_used (bank_of d') = bk_used (bank_post req (bank_of d))"
    by (simp add: bank_post_def d' post_def transfer_row_of_def tk)
  ultimately have "bank_post req (bank_of d) = bank_of d'" by (simp add: bank.equality)
  with v show ?thesis by (simp add: bank_transfer_def)
qed

lemma replayed_verdict:
  "replays req d s \<Longrightarrow> bank_transfer req (bank_of d) = (Replayed, bank_of d)"
  by (auto simp: replays_def bank_transfer_def bank_verdict_def)

text \<open>An executor refines the bank.\<close>

context executor
begin

lemma exec_refines:
  assumes w: "txn w = None" and ok: "ledger_ok seed (tables w)" and orc: "no_faults orc"
    and p: "proper req" and fresh: "fresh_sources (sources_of orc w) (tables w)"
    and run: "run orc (exec req) w = (r, w')"
  shows "(verdict_of r, bank_of (tables w')) = bank_transfer req (bank_of (tables w))"
proof (cases "(\<exists>e. r = Inl e)")
  case True
  then obtain e where r: "r = Inl e" by blast
  have "settles (outcome (sources_of orc w) req)
      (\<lambda>now d e. refused (sources_of orc w) req now d e \<or> invalid req e) orc w r w'"
    by (rule exec_settles [OF w ledger_rows_ok [OF ok] fits_sources_of run])
  then obtain now where "refused (sources_of orc w) req now (tables w) e \<or> invalid req e"
    and t: "tables w' = tables w"
    using r orc by (elim settles_no_faults) auto
  then have "bank_verdict req (bank_of (tables w)) = Refuse e"
    using refused_verdict [OF ok p fresh] proper_not_invalid [OF p] by blast
  then show ?thesis by (simp add: r t bank_transfer_def)
next
  case False
  then obtain t s where r: "r = Inr (t, s)" by (cases r) auto
  show ?thesis
    using exec_effect [OF w ok run] posted_verdict [OF p] replayed_verdict r
    by (cases s) auto
qed

end

section \<open>Properties\<close>

text \<open>
  C15. The executors refine the bank: without failing calls, what either of them answers to a proper
  request and what it leaves in the tables is what \<open>bank_transfer\<close> does in one step.
\<close>

theorem executors_refine_bank:
  assumes "txn w = None" and "ledger_ok seed (tables w)" and "no_faults orc" and "proper req"
    and "fresh_sources (sources_of orc w) (tables w)"
  shows "case run orc (execute_by s req) w of (r, w') \<Rightarrow>
    (verdict_of r, bank_of (tables w')) = bank_transfer req (bank_of (tables w))"
proof -
  obtain r w' where r: "run orc (execute_by s req) w = (r, w')" by fastforce
  with by_strategy.exec_refines [OF assms r] show ?thesis by simp
qed

lemma proper_pay: "proper pay"
  by (simp add: proper_def pay_def)

theorem executors_refine_bank_witness:
  "bk_account (bank_of (tables (snd (run calm (execute_by SelectForUpdate pay) sample_world)))) 2 =
     Some (''USD'', 800)"
proof -
  have f: "find_account 1 sample_db = Some alice" "find_account 2 sample_db = Some bob"
    "find_key ''k1'' sample_db = None" "transfers sample_db = []"
    by code_simp+
  then have v: "bank_verdict pay (bank_of sample_db) = Posting"
    by (simp add: bank_verdict_def pay_def alice_def bob_def bigint_def)
  have "bk_account (bank_post pay (bank_of sample_db)) 2 = Some (''USD'', 800)"
    using f by (simp add: bank_post_def funds_delta_def pay_def bob_def)
  moreover have "bank_of (tables (snd (run calm (execute_by SelectForUpdate pay) sample_world))) =
      bank_post pay (bank_of sample_db)"
    using executors_refine_bank [where w = sample_world and orc = calm and req = pay
        and s = SelectForUpdate, OF _ _ calm_no_faults proper_pay, of sample_seed]
      sample_ledger_ok calm_fresh v
    by (auto simp: case_prod_beta bank_transfer_def simp del: execute_by.simps)
  ultimately show ?thesis by simp
qed

text \<open>
  The strategies are equivalent: without failing calls, the conditional update and the locking
  strategy give the same verdict on a proper request, and leave the same balances, the same
  answered keys and the same transfers, whatever the clocks and the generators of ids supply.
\<close>

lemma strategies_agree:
  assumes "txn w = None" and "ledger_ok seed (tables w)" and "proper req"
    and "no_faults orc" and "fresh_sources (sources_of orc w) (tables w)"
    and "no_faults orc'" and "fresh_sources (sources_of orc' w) (tables w)"
  shows "case (run orc (Execute req) w, run orc' (ExecuteWithForUpdate req) w) of
    ((r1, w1), (r2, w2)) \<Rightarrow>
      verdict_of r1 = verdict_of r2 \<and> bank_of (tables w1) = bank_of (tables w2)"
proof -
  obtain r1 w1 where r1: "run orc (Execute req) w = (r1, w1)" by fastforce
  obtain r2 w2 where r2: "run orc' (ExecuteWithForUpdate req) w = (r2, w2)" by fastforce
  show ?thesis
    using execute.exec_refines [OF assms(1,2,4,3,5) r1] forUpdate.exec_refines [OF assms(1,2,6,3,7) r2]
      r1 r2 by (auto simp: prod_eq_iff)
qed

end
