(* ===== verification/Api.thy ===== *)
theory Api
  imports Webhook Config Queries Bank
begin

text \<open>
  \<open>cmd/api\<close>: the HTTP handlers, from the request as the router hands it over to the response. A
  handler is a program like the functions it calls. Bodies are JSON values; \<open>err.Error()\<close> and the
  log lines are modelled as far as the response depends on them. Two deadlines (2 s for the health
  check, the client's own) show as failing calls.
\<close>

section \<open>Responses\<close>

record http_response =
  rs_status :: int
  rs_replayed :: bool
  rs_body :: "json option"

text \<open>\<open>json.Encoder\<close> writes nothing if a time in the value is out of the range of RFC 3339.\<close>

fun encodable :: "json \<Rightarrow> bool" where
  "encodable (JTime t) = rfc3339_ok t"
| "encodable (JArr xs) = list_all encodable xs"
| "encodable (JObj ms) = list_all (\<lambda>m. encodable (snd m)) ms"
| "encodable _ = True"

definition writeJSON :: "int \<Rightarrow> json \<Rightarrow> http_response" where
  "writeJSON status v =
     \<lparr>rs_status = status, rs_replayed = False, rs_body = (if encodable v then Some v else None)\<rparr>"

definition error_json :: "int \<Rightarrow> string \<Rightarrow> http_response" where
  "error_json status msg = writeJSON status (JObj [(''error'', JStr msg)])"

definition internal_error :: http_response where
  "internal_error = error_json 500 ''internal server error''"

text \<open>\<open>err.Error()\<close>.\<close>

fun err_text :: "web \<Rightarrow> err \<Rightarrow> string" where
  "err_text W ErrInsufficientFunds = ''insufficient funds''"
| "err_text W ErrAccountNotFound = ''account not found''"
| "err_text W ErrCurrencyMismatch =
     ''currency mismatch: from_account, to_account, and transfer currency must all match''"
| "err_text W ErrInvalidAmount = ''amount must be positive''"
| "err_text W ErrSameAccount = ''from_account and to_account must differ''"
| "err_text W ErrInvalidCurrency = ''currency must be a 3-letter ISO 4217 code''"
| "err_text W ErrNotFound = ''not found''"
| "err_text W (NewErr m) = m"
| "err_text W (Wrapped m e) = m @ '': '' @ err_text W e"
| "err_text W e = driver_text W e"

section \<open>Request bodies\<close>

text \<open>\<open>http.MaxBytesReader\<close>: a longer body ends with an error after \<open>n\<close> bytes.\<close>

definition MaxBytesReader :: "nat \<Rightarrow> http_body \<Rightarrow> http_body" where
  "MaxBytesReader n b =
     \<lparr>bd_bytes = take n (bd_bytes b), bd_eof = (bd_eof b \<and> length (bd_bytes b) \<le> n)\<rparr>"

definition ReadAll :: "http_body \<Rightarrow> string option" where
  "ReadAll b = (if bd_eof b then Some (bd_bytes b) else None)"

section \<open>Handlers\<close>

definition get_health :: "web \<Rightarrow> http_response prog" where
  "get_health W =
     bindp (exec Pool Ping) (\<lambda>r. Ret (case r of
       Inl e \<Rightarrow> writeJSON 503 (JObj [(''error'', JStr (err_text W e)), (''status'', JStr ''db_unavailable'')])
     | Inr _ \<Rightarrow> writeJSON 200 (JObj [(''status'', JStr ''ok'')])))"

definition account_json :: "account \<Rightarrow> json" where
  "account_json a = JObj
     [(''id'', JInt (sint (A_ID a))), (''name'', JStr (A_Name a)), (''currency'', JStr (A_Currency a)),
      (''balance'', JInt (sint (A_Balance a))), (''created_at'', JTime (A_CreatedAt a))]"

definition create_account :: "string \<Rightarrow> string \<Rightarrow> string option \<Rightarrow> http_response prog" where
  "create_account name cur url =
     bindp (CreateAccount name cur url) (\<lambda>r. Ret (case r of
       Inl _ \<Rightarrow> internal_error
     | Inr a \<Rightarrow> writeJSON 201 (account_json a)))"

definition post_accounts :: "web \<Rightarrow> http_body \<Rightarrow> http_response prog" where
  "post_accounts W body =
     (case Decode_account W (MaxBytesReader 65536 body) of
        None \<Rightarrow> Ret (error_json 400 ''invalid request body'')
      | Some (n, c, url) \<Rightarrow>
          let name = TrimSpace n;
              cur = ToUpper (unicode_upper W) (TrimSpace c)
          in if name = [] then Ret (error_json 422 ''name is required'')
             else if length cur \<noteq> 3 then
               Ret (error_json 422 ''currency must be a 3-letter ISO 4217 code'')
             else if url \<noteq> [] then
               (case validateWebhookURL W url of
                  Some e \<Rightarrow> Ret (error_json 422 (err_text W e))
                | None \<Rightarrow> create_account name cur (Some url))
             else create_account name cur None)"

definition get_account :: "string \<Rightarrow> http_response prog" where
  "get_account path_id =
     (case ParseInt path_id of
        None \<Rightarrow> Ret (error_json 400 ''invalid account id'')
      | Some i \<Rightarrow>
          bindp (GetAccount i) (\<lambda>r. Ret (case r of
            Inl e \<Rightarrow> if errors_is e ErrNotFound then error_json 404 ''account not found''
                     else internal_error
          | Inr a \<Rightarrow> writeJSON 200 (account_json a))))"

definition posting_json :: "posting \<Rightarrow> json" where
  "posting_json p = JObj
     [(''id'', JInt (sint (P_ID p))), (''transfer_id'', JStr (P_TransferID p)),
      (''amount'', JInt (sint (P_Amount p))), (''created_at'', JTime (P_CreatedAt p))]"

definition get_history :: "string \<Rightarrow> string \<Rightarrow> http_response prog" where
  "get_history path_id after =
     (case ParseInt path_id of
        None \<Rightarrow> Ret (error_json 400 ''invalid account id'')
      | Some i \<Rightarrow>
          bindp (GetAccount i) (\<lambda>r. case r of
            Inl e \<Rightarrow> Ret (if errors_is e ErrNotFound then error_json 404 ''account not found''
                          else internal_error)
          | Inr _ \<Rightarrow>
              (case (if after \<noteq> [] then ParseInt after else Some 0) of
                 None \<Rightarrow> Ret (error_json 400 ''invalid after cursor'')
               | Some afterID \<Rightarrow>
                   bindp (GetPostings i afterID 50) (\<lambda>q. Ret (case q of
                     Inl _ \<Rightarrow> internal_error
                   | Inr ps \<Rightarrow> writeJSON 200 (JObj [(''postings'', JArr (map posting_json ps))]))))))"

text \<open>
  \<open>POST /transfers\<close>: the checks before the executor is called, which yield its request, the call,
  and the switch on its result.
\<close>

definition decode_transfer :: "web \<Rightarrow> string \<Rightarrow> http_body \<Rightarrow> http_response + transfer_request" where
  "decode_transfer W idemKey b =
     (if idemKey = [] then Inl (error_json 422 ''Idempotency-Key header is required'')
      else
        (case ReadAll (MaxBytesReader 65536 b) of
           None \<Rightarrow> Inl (error_json 400 ''failed to read request body'')
         | Some body \<Rightarrow>
             (case Unmarshal_transfer W body of
                None \<Rightarrow> Inl (error_json 400 ''invalid request body'')
              | Some (from, to, amount, cur) \<Rightarrow>
                  if sint amount \<le> 0 then Inl (error_json 422 ''amount must be positive'')
                  else if from = to then Inl (error_json 422 ''from_account and to_account must differ'')
                  else if length cur \<noteq> 3 then
                    Inl (error_json 422 ''currency must be a 3-letter ISO 4217 code'')
                  else Inr \<lparr>FromAccount = from, ToAccount = to, Amount = amount,
                            Currency = ToUpper (unicode_upper W) cur, IdempotencyKey = idemKey,
                            RequestHash = HashRequest (normal_form W) body\<rparr>)))"

definition respond :: "web \<Rightarrow> err + transfer \<times> stored_response option \<Rightarrow> http_response" where
  "respond W r =
     (case r of
        Inl err \<Rightarrow>
          if errors_is err ErrDuplicateRequest then
            error_json 422 ''idempotency key already used with a different request''
          else if errors_is err ErrInProgress then error_json 409 ''request already in progress''
          else if errors_is err ErrInsufficientFunds then error_json 422 ''insufficient funds''
          else if errors_is err ErrAccountNotFound then error_json 404 ''account not found''
          else if errors_is err ErrCurrencyMismatch \<or> errors_is err ErrInvalidAmount \<or>
                  errors_is err ErrSameAccount \<or> errors_is err ErrInvalidCurrency then
            error_json 422 (err_text W err)
          else internal_error
      | Inr (t, Some stored) \<Rightarrow>
          \<lparr>rs_status = SR_Code stored, rs_replayed = True, rs_body = SR_Body stored\<rparr>
      | Inr (t, None) \<Rightarrow> writeJSON 201 (transfer_json t))"

definition optimistic_answer :: http_response where
  "optimistic_answer = error_json 422
     (''optimistic strategy does not support idempotency keys; set '' @
      ''STRATEGY=conditional_update or STRATEGY=select_for_update'')"

definition post_transfers :: "config \<Rightarrow> web \<Rightarrow> string \<Rightarrow> http_body \<Rightarrow> http_response prog" where
  "post_transfers cfg W idemKey b =
     (case decode_transfer W idemKey b of
        Inl resp \<Rightarrow> Ret resp
      | Inr lreq \<Rightarrow>
          if Strategy cfg = ''select_for_update'' then
            bindp (ExecuteWithForUpdate lreq) (\<lambda>r. Ret (respond W r))
          else if Strategy cfg = ''optimistic'' then Ret optimistic_answer
          else bindp (Execute lreq) (\<lambda>r. Ret (respond W r)))"

definition metrics_json :: "outbox_metrics \<Rightarrow> json" where
  "metrics_json m = JObj
     [(''pending'', JInt (M_Pending m)), (''in_flight'', JInt (M_InFlight m)),
      (''delivered'', JInt (M_Delivered m)), (''dead_letter'', JInt (M_DeadLetter m))]"

definition get_metrics :: "http_response prog" where
  "get_metrics =
     bindp GetOutboxMetrics (\<lambda>r. Ret (case r of
       Inl _ \<Rightarrow> internal_error
     | Inr m \<Rightarrow> writeJSON 200 (JObj [(''outbox'', metrics_json m)])))"

text \<open>The routes of \<open>main\<close>, with what the handlers read of the request.\<close>

datatype api_request =
    Get_health
  | Post_accounts http_body
  | Get_account string                    \<comment> \<open>id of the path\<close>
  | Get_history string string             \<comment> \<open>id of the path, \<open>after\<close> of the query\<close>
  | Post_transfers string http_body       \<comment> \<open>\<open>Idempotency-Key\<close> header, body\<close>
  | Get_metrics

primrec serve :: "config \<Rightarrow> web \<Rightarrow> api_request \<Rightarrow> http_response prog" where
  "serve cfg W Get_health = get_health W"
| "serve cfg W (Post_accounts b) = post_accounts W b"
| "serve cfg W (Get_account i) = get_account i"
| "serve cfg W (Get_history i after) = get_history i after"
| "serve cfg W (Post_transfers key b) = post_transfers cfg W key b"
| "serve cfg W Get_metrics = get_metrics"

end
