(* ===== verification/Frames.thy ===== *)
theory Frames
  imports Debit
begin

text \<open>
  What any program of the source leaves alone, by induction on its calls: identity values are only
  drawn upwards and accounts keep the ids they were created with; a program that sends nothing but
  queries leaves the tables as they are, whatever calls fail.
\<close>

section \<open>Account ids\<close>

lemma update_accounts_ids:
  assumes "update_accounts P f d = Inr (n, rows, d')"
    and "\<And>a a'. f a = Inr a' \<Longrightarrow> acc_id a' = acc_id a"
  shows "acc_id ` set (accounts d') = acc_id ` set (accounts d)"
proof -
  obtain as where u: "update_rows P f (accounts d) = Inr (n, as)" and d': "d' = d\<lparr>accounts := as\<rparr>"
    using assms(1) by (auto simp: update_accounts_def split: sum.splits prod.splits)
  have f: "acc_id (projr (f a)) = acc_id a" if "a \<in> set (accounts d)" "P a" for a
    using update_rows_Inr [OF u] that assms(2) by blast
  have "map acc_id as = map acc_id (accounts d)"
    using update_rows_Inr [OF u] f by auto
  then have "set (map acc_id as) = set (map acc_id (accounts d))" by simp
  then show ?thesis by (simp add: d')
qed

definition account_ids :: "db \<Rightarrow> int set" where
  "account_ids d = acc_id ` set (accounts d)"

lemmas account_stmt_defs = sql_debit_if_funds_def sql_debit_by_id_def sql_debit_if_version_def
  sql_credit_by_id_def sql_update_webhook_def sql_set_balance_def

lemma exec_stmt_ids:
  assumes "exec_stmt v s d = Inr (n, rows, d')"
  shows "account_ids d' = account_ids d \<or>
    ((\<exists>name cur url. s = InsertAccount name cur url) \<and> account_ids d' = insert (e_id v) (account_ids d))"
proof (cases s)
  case (DebitIfVersion amt i ver)
  then show ?thesis using assms unfolding account_ids_def
    by (auto simp: account_stmt_defs dest!: update_accounts_ids set_balance_id split: if_splits)
next
  case (InsertAccount name cur url)
  then show ?thesis using assms unfolding account_ids_def
    by (auto simp: sql_insert_account_def Let_def split: option.splits if_splits)
qed (use assms in \<open>auto simp: account_ids_def account_stmt_defs update_keys_def update_outbox_def
       sql_steal_key_def sql_complete_key_def sql_deliver_event_def sql_kill_event_def
       sql_fail_event_def other_stmt_defs Let_def
       dest!: update_accounts_ids set_balance_id split: sum.splits option.splits if_splits prod.splits\<close>)


text \<open>Every id in use was drawn from the sequence.\<close>

definition ids_below :: "world \<Rightarrow> bool" where
  "ids_below w \<longleftrightarrow>
     (\<forall>i \<in> account_ids (tables w). i < acc_seq w) \<and>
     (case txn w of None \<Rightarrow> True | Some t \<Rightarrow> \<forall>i \<in> account_ids (view t). i < acc_seq w)"

definition ids_step :: "world \<Rightarrow> world \<Rightarrow> bool" where
  "ids_step w w' \<longleftrightarrow> acc_seq w \<le> acc_seq w' \<and> (ids_below w \<longrightarrow> ids_below w')"

lemma ids_step_refl [simp]: "ids_step w w"
  by (simp add: ids_step_def)

lemma ids_step_trans: "ids_step w w1 \<Longrightarrow> ids_step w1 w' \<Longrightarrow> ids_step w w'"
  by (auto simp: ids_step_def)

lemma draw_ids_seq:
  "acc_seq (draw_ids orc s w) =
     (if \<exists>name cur url. s = InsertAccount name cur url then acc_seq w + 1 else acc_seq w)"
  by (cases s) (auto simp: draw_ids_def)

lemma draw_ids_mono [simp]: "acc_seq w \<le> acc_seq (draw_ids orc s w)"
  by (simp add: draw_ids_seq)

lemma stmt_env_account_id: "e_id (stmt_env orc now (InsertAccount name cur url) w) = acc_seq w"
  by (simp add: stmt_env_def)

text \<open>A statement adds no account id but the one it draws.\<close>

lemma exec_stmt_below:
  assumes "exec_stmt (stmt_env orc now s w) s d = Inr (n, rows, d')"
    and "\<forall>i \<in> account_ids d. i < acc_seq w"
  shows "\<forall>i \<in> account_ids d'. i < acc_seq (draw_ids orc s w)"
  using exec_stmt_ids [OF assms(1)] assms(2) by (force simp: draw_ids_seq stmt_env_account_id)

lemma ids_below_drawn:
  assumes "\<forall>i \<in> account_ids d. i < acc_seq w"
  shows "\<forall>i \<in> account_ids d. i < acc_seq (draw_ids orc s w)"
  using assms by (force simp: draw_ids_seq)

lemma draw_ids_upd [simp]:
  "acc_seq (draw_ids orc s (w\<lparr>tables := d\<rparr>)) = acc_seq (draw_ids orc s w)"
  "acc_seq (draw_ids orc s (w\<lparr>txn := t\<rparr>)) = acc_seq (draw_ids orc s w)"
  by (simp_all add: draw_ids_seq)

lemma call_tx_ids: "call_tx orc s w = (r, w') \<Longrightarrow> ids_step w w'"
proof -
  assume c: "call_tx orc s w = (r, w')"
  have exec: "\<forall>i \<in> account_ids d'. i < acc_seq (draw_ids orc s w)"
    if "exec_stmt (stmt_env orc (tx_now t) s w) s (view t) = Inr (n, rows, d')"
      "\<forall>i \<in> account_ids (view t). i < acc_seq w" for t n rows d'
    using exec_stmt_below that by blast
  show ?thesis
    using c ids_below_drawn [of "tables w" w orc s] ids_below_drawn [of _ w orc s] exec
    by (fastforce simp: call_tx_def ids_step_def ids_below_def
        split: option.splits if_splits sum.splits prod.splits)
qed

lemma call_pool_ids: "call_pool orc s w = (r, w') \<Longrightarrow> ids_step w w'"
  using ids_below_drawn [of _ w orc s]
  by (auto simp: call_pool_def ids_step_def ids_below_def
      split: option.splits if_splits sum.splits prod.splits dest: exec_stmt_below)

lemma call_ids: "call orc c s w = (r, w') \<Longrightarrow> ids_step w w'"
  by (cases c) (auto simp: call_def call_tx_ids call_pool_ids)

lemma begin_commit_ids:
  "begin_tx orc w = (e, w') \<Longrightarrow> ids_step w w'"
  "commit_tx orc w = (e, w') \<Longrightarrow> ids_step w w'"
  by (auto simp: begin_tx_def commit_tx_def ids_step_def ids_below_def split: option.splits if_splits)

lemma tick_ids: "ids_step w (tick w)" "ids_step w (rollback_tx w)"
  "ids_step w (tick (w\<lparr>requests := l\<rparr>))"
  by (auto simp: ids_step_def ids_below_def rollback_tx_def split: option.splits)

lemma run_ids: "run orc p w = (a, w') \<Longrightarrow> ids_step w w'"
proof (induction p arbitrary: w)
  case (Exec c s k)
  obtain r w1 where r: "call orc c s w = (r, w1)" by fastforce
  with Exec have "ids_step w1 w'" by auto
  with call_ids [OF r] show ?case by (rule ids_step_trans)
next
  case (Query c s k)
  obtain r w1 where r: "call orc c s w = (r, w1)" by fastforce
  with Query have "ids_step w1 w'" by auto
  with call_ids [OF r] show ?case by (rule ids_step_trans)
next
  case (BeginTx k)
  obtain r w1 where r: "begin_tx orc w = (r, w1)" by fastforce
  with BeginTx have "ids_step w1 w'" by auto
  with begin_commit_ids(1) [OF r] show ?case by (rule ids_step_trans)
next
  case (CommitTx k)
  obtain r w1 where r: "commit_tx orc w = (r, w1)" by fastforce
  with CommitTx have "ids_step w1 w'" by auto
  with begin_commit_ids(2) [OF r] show ?case by (rule ids_step_trans)
next
  case (NewUUID k)
  then have "ids_step (tick w) w'" by auto
  with tick_ids(1) show ?case by (rule ids_step_trans)
next
  case (TimeNow k)
  then have "ids_step (tick w) w'" by auto
  with tick_ids(1) show ?case by (rule ids_step_trans)
next
  case (NewRequest u k)
  then have "ids_step (tick w) w'" by auto
  with tick_ids(1) show ?case by (rule ids_step_trans)
next
  case (DoRequest q k)
  let ?w1 = "tick (w\<lparr>requests := requests w @ [(q, o_http orc (calls w))]\<rparr>)"
  from DoRequest have "ids_step ?w1 w'" by auto
  with tick_ids(3) show ?case by (rule ids_step_trans)
qed (auto intro: ids_step_trans [OF tick_ids(1)] ids_step_trans [OF tick_ids(2)])

section \<open>Programs that only read\<close>

definition read_stmt :: "stmt \<Rightarrow> bool" where
  "read_stmt s \<longleftrightarrow>
     (case s of
        SelectAccount _ \<Rightarrow> True | SelectPostings _ _ _ \<Rightarrow> True | CountByStatus \<Rightarrow> True
      | SumPostings \<Rightarrow> True | SelectDrift \<Rightarrow> True | CountNegative \<Rightarrow> True | Ping \<Rightarrow> True
      | SelectSeedDrift _ _ \<Rightarrow> True | CountNegativeOf _ \<Rightarrow> True | CountUnsettled \<Rightarrow> True
      | _ \<Rightarrow> False)"

lemma read_stmt_tables: "read_stmt s \<Longrightarrow> exec_stmt v s d = Inr (n, rows, d') \<Longrightarrow> d' = d"
  by (cases s) (auto simp: read_stmt_def other_stmt_defs sql_ping_def sql_select_seed_drift_def
      sql_count_negative_of_def sql_count_unsettled_def Let_def split: if_splits)

lemma read_stmt_draws: "read_stmt s \<Longrightarrow> draw_ids orc s w = w"
  by (cases s) (auto simp: read_stmt_def draw_ids_def)

primrec reading :: "'a prog \<Rightarrow> bool" where
  "reading (Ret a) = True"
| "reading (BeginTx k) = False"
| "reading (CommitTx k) = False"
| "reading (RollbackTx p) = False"
| "reading (Exec c s k) = (c = Pool \<and> read_stmt s \<and> (\<forall>r. reading (k r)))"
| "reading (Query c s k) = (c = Pool \<and> read_stmt s \<and> (\<forall>r. reading (k r)))"
| "reading (NewUUID k) = (\<forall>r. reading (k r))"
| "reading (TimeNow k) = (\<forall>r. reading (k r))"
| "reading (NewRequest u k) = (\<forall>r. reading (k r))"
| "reading (DoRequest q k) = False"
| "reading (Sleep d p) = reading p"

lemma reading_bindp: "reading p \<Longrightarrow> (\<And>a. reading (f a)) \<Longrightarrow> reading (bindp p f)"
  by (induction p) auto

lemma reading_tryp: "reading p \<Longrightarrow> (\<And>a. reading (f a)) \<Longrightarrow> reading (tryp p f)"
  unfolding tryp_def by (rule reading_bindp) (auto split: sum.splits)

lemma reading_prims [simp]:
  "read_stmt s \<Longrightarrow> reading (exec Pool s)" "read_stmt s \<Longrightarrow> reading (query Pool s)"
  "reading time_Now"
  by (simp_all add: exec_def query_def time_Now_def)

lemma read_stmts [simp]:
  "read_stmt (SelectAccount i)" "read_stmt (SelectPostings i a l)" "read_stmt CountByStatus"
  "read_stmt SumPostings" "read_stmt SelectDrift" "read_stmt CountNegative" "read_stmt Ping"
  "read_stmt (SelectSeedDrift ids b)" "read_stmt (CountNegativeOf ids)" "read_stmt CountUnsettled"
  by (simp_all add: read_stmt_def)

definition same_data :: "world \<Rightarrow> world \<Rightarrow> bool" where
  "same_data w w' \<longleftrightarrow> tables w' = tables w \<and> txn w' = txn w \<and> requests w' = requests w"

lemma call_read:
  assumes "call orc Pool s w = (r, w')" and "read_stmt s"
  shows "same_data w w'"
  using assms read_stmt_tables [OF assms(2)] read_stmt_draws [OF assms(2)]
  by (auto simp: call_def call_pool_def same_data_def split: sum.splits option.splits if_splits)

lemma reading_run: "run orc p w = (a, w') \<Longrightarrow> reading p \<Longrightarrow> same_data w w'"
proof (induction p arbitrary: w)
  case (Exec c s k)
  obtain r w1 where r: "call orc Pool s w = (r, w1)" by fastforce
  with Exec have "same_data w1 w'" by auto
  moreover have "same_data w w1" using call_read [OF r] Exec.prems by simp
  ultimately show ?case by (simp add: same_data_def)
next
  case (Query c s k)
  obtain r w1 where r: "call orc Pool s w = (r, w1)" by fastforce
  with Query have "same_data w1 w'" by auto
  moreover have "same_data w w1" using call_read [OF r] Query.prems by simp
  ultimately show ?case by (simp add: same_data_def)
next
  case (NewUUID k)
  then have "same_data (tick w) w'" by auto
  then show ?case by (simp add: same_data_def)
next
  case (TimeNow k)
  then have "same_data (tick w) w'" by auto
  then show ?case by (simp add: same_data_def)
next
  case (NewRequest u k)
  then have "same_data (tick w) w'" by auto
  then show ?case by (simp add: same_data_def)
next
  case (Sleep d p)
  then have "same_data (tick w) w'" by auto
  then show ?case by (simp add: same_data_def)
qed (auto simp: same_data_def)

end
