(* ===== verification/Http.thy ===== *)
theory Http
  imports Api Frames
begin

text \<open>
  What the API guarantees to its clients: one posting per idempotency key however often a request is
  sent, statuses that follow from the tables, no effect behind an error, accounts that read back as
  created, pages of history.
\<close>

section \<open>\<open>POST /transfers\<close>\<close>

lemma error_json_sel [simp]:
  "rs_status (error_json s m) = s" "rs_replayed (error_json s m) = False"
  "rs_body (error_json s m) = Some (JObj [(''error'', JStr m)])"
  by (simp_all add: error_json_def writeJSON_def)

lemma writeJSON_sel [simp]:
  "rs_status (writeJSON s v) = s" "rs_replayed (writeJSON s v) = False"
  "encodable v \<Longrightarrow> rs_body (writeJSON s v) = Some v"
  by (simp_all add: writeJSON_def)

lemma internal_error_status [simp]: "rs_status internal_error = 500" "rs_replayed internal_error = False"
  by (simp_all add: internal_error_def)

lemma optimistic_answer_status [simp]: "rs_status optimistic_answer = 422"
  by (simp add: optimistic_answer_def)

lemma decode_transfer_Inr:
  assumes "decode_transfer W key b = Inr req"
  shows "IdempotencyKey req = key" "key \<noteq> []" "0 < sint (Amount req)" "FromAccount req \<noteq> ToAccount req"
  using assms by (auto simp: decode_transfer_def split: if_splits option.splits)

lemma decode_transfer_Inl:
  "decode_transfer W key b = Inl resp \<Longrightarrow> rs_status resp = 400 \<or> rs_status resp = 422"
  by (auto simp: decode_transfer_def split: if_splits option.splits)

lemma respond_error: "rs_status (respond W (Inl e)) \<in> {404, 409, 422, 500}"
  by (auto simp: respond_def)

lemma post_transfers_run:
  assumes "run orc (post_transfers cfg W key b) w = (resp, w')"
  obtains (turned_down) "decode_transfer W key b = Inl resp" "w' = w"
    | (optimistic) req where "decode_transfer W key b = Inr req" "resp = optimistic_answer" "w' = w"
        "Strategy cfg = ''optimistic''"
    | (executed) req s r where "decode_transfer W key b = Inr req"
        "run orc (execute_by s req) w = (r, w')" "resp = respond W r"
proof (cases "decode_transfer W key b")
  case (Inl e)
  with assms that(1) show ?thesis by (simp add: post_transfers_def)
next
  case (Inr req)
  let ?s = "if Strategy cfg = ''select_for_update'' then SelectForUpdate else ConditionalUpdate"
  show ?thesis
  proof (cases "Strategy cfg = ''optimistic''")
    case True
    with assms Inr that(2) show ?thesis by (auto simp: post_transfers_def)
  next
    case False
    obtain r w1 where "run orc (execute_by ?s req) w = (r, w1)" by fastforce
    moreover from this have "resp = respond W r \<and> w1 = w'"
      using assms Inr False by (auto simp: post_transfers_def run_bindp split: if_splits)
    ultimately show ?thesis using that(3) Inr by blast
  qed
qed

text \<open>
  A client that sends one request again and again; between two tries the server may have been
  restarted with another strategy.
\<close>

primrec http_tries ::
  "web \<Rightarrow> string \<Rightarrow> http_body \<Rightarrow> (config \<times> environ) list \<Rightarrow> world \<Rightarrow> http_response list \<times> world" where
  "http_tries W key b [] w = ([], w)"
| "http_tries W key b (se # ses) w =
     (case run (snd se) (serve (fst se) W (Post_transfers key b)) w of (resp, w1) \<Rightarrow>
       (case http_tries W key b ses w1 of (resps, w') \<Rightarrow> (resp # resps, w')))"

lemma http_tries_turned_down:
  assumes "decode_transfer W key b = Inl resp"
  shows "http_tries W key b ses w = (replicate (length ses) resp, w)"
  using assms by (induction ses) (auto simp: post_transfers_def)

lemma http_tries_client:
  assumes "decode_transfer W key b = Inr req"
  shows "http_tries W key b ses w = (resps, w') \<Longrightarrow>
    \<exists>rs ses'. client_tries req ses' w = (rs, w') \<and>
      set resps \<subseteq> insert optimistic_answer (respond W ` set rs)"
proof (induction ses arbitrary: w resps)
  case Nil
  then have "client_tries req [] w = ([], w')" "resps = []" by auto
  then show ?case by fastforce
next
  case (Cons se ses)
  obtain resp w1 where r: "run (snd se) (post_transfers (fst se) W key b) w = (resp, w1)" by fastforce
  obtain resps1 where rest: "http_tries W key b ses w1 = (resps1, w')" "resps = resp # resps1"
    using Cons.prems r by (auto split: prod.splits)
  obtain rs ses' where IH: "client_tries req ses' w1 = (rs, w')"
      "set resps1 \<subseteq> insert optimistic_answer (respond W ` set rs)"
    using Cons.IH [OF rest(1)] by blast
  from r show ?case
  proof (cases rule: post_transfers_run)
    case turned_down
    with assms show ?thesis by simp
  next
    case optimistic
    with IH rest(2) show ?thesis by auto
  next
    case (executed req' s x)
    then have "client_tries req ((s, snd se) # ses') w = (x # rs, w')"
      using IH(1) assms by simp
    moreover have "set resps \<subseteq> insert optimistic_answer (respond W ` set (x # rs))"
      using IH(2) rest(2) executed(3) by auto
    ultimately show ?thesis by blast
  qed
qed

lemma encodable_transfer: "rfc3339_ok (T_CreatedAt t) \<Longrightarrow> encodable (transfer_json t)"
  by (simp add: transfer_json_def)

lemma posted_encodable: "posted_once req d t d' \<Longrightarrow> encodable (transfer_json t)"
proof -
  assume "posted_once req d t d'"
  then obtain now where "rfc3339_ok now"
    "t = new_transfer (T_ID t) (T_IdempotencyKey t) (Currency req) req now"
    by (auto simp: posted_once_def may_post_def)
  moreover from this(2) have "T_CreatedAt t = now" by (metis new_transfer_sel)
  ultimately show ?thesis by (simp add: encodable_transfer)
qed


text \<open>What a success says of the answer, given what the executor has done.\<close>

lemma posted_answer:
  "posted_once req d t d' \<Longrightarrow> respond W (Inr (t, None)) =
     \<lparr>rs_status = 201, rs_replayed = False, rs_body = Some (transfer_json t)\<rparr>"
  using posted_encodable by (simp add: respond_def writeJSON_def)

lemma replayed_answer:
  "respond W (Inr (zero_transfer, Some (response_of t))) =
     \<lparr>rs_status = 201, rs_replayed = True, rs_body = Some (transfer_json t)\<rparr>"
  by (simp add: respond_def response_of_def)

lemma settled_answers:
  assumes "settled_once req d X d'" and "set resps \<subseteq> insert optimistic_answer (respond W ` X)"
  shows "(d' = d \<and> (\<forall>resp \<in> set resps. rs_status resp \<noteq> 201)) \<or>
    (\<exists>t. posted_once req d t d' \<and>
       (\<forall>resp \<in> set resps. rs_status resp = 201 \<longrightarrow> rs_body resp = Some (transfer_json t)))"
proof -
  have err: "rs_status (respond W (Inl e)) \<noteq> 201" for e using respond_error [of W e] by auto
  from assms(1) consider "d' = d" "\<forall>x. Inr x \<notin> X"
    | t where "posted_once req d t d'"
      "\<forall>x. Inr x \<in> X \<longrightarrow> x = (t, None) \<or> x = (zero_transfer, Some (response_of t))"
    by (auto simp: settled_once_def)
  then show ?thesis
  proof cases
    case 1
    have "rs_status resp \<noteq> 201" if "resp \<in> set resps" for resp
    proof -
      have "resp = optimistic_answer \<or> (\<exists>x \<in> X. resp = respond W x)" using that assms(2) by auto
      moreover have "\<exists>e. x = Inl e" if "x \<in> X" for x using 1(2) that by (cases x) auto
      ultimately show ?thesis using err by auto
    qed
    with 1 show ?thesis by blast
  next
    case (2 t)
    have "rs_body resp = Some (transfer_json t)" if resp: "resp \<in> set resps" "rs_status resp = 201" for resp
    proof -
      have "resp \<noteq> optimistic_answer" using resp(2) by auto
      then obtain x where x: "x \<in> X" "resp = respond W x" using resp(1) assms(2) by auto
      moreover from this obtain y where y: "x = Inr y" using err resp(2) by (cases x) auto
      ultimately have "y = (t, None) \<or> y = (zero_transfer, Some (response_of t))" using 2(2) by blast
      then show ?thesis using x(2) y posted_answer [OF 2(1), of W] replayed_answer [of W t] by auto
    qed
    with 2 show ?thesis by blast
  qed
qed

text \<open>The status and the replay header that a verdict of the bank calls for.\<close>

fun verdict_answer :: "verdict \<Rightarrow> int \<times> bool" where
  "verdict_answer Posting = (201, False)"
| "verdict_answer Replayed = (201, True)"
| "verdict_answer (Refuse ErrAccountNotFound) = (404, False)"
| "verdict_answer (Refuse ErrDuplicateRequest) = (422, False)"
| "verdict_answer (Refuse ErrCurrencyMismatch) = (422, False)"
| "verdict_answer (Refuse ErrInsufficientFunds) = (422, False)"
| "verdict_answer (Refuse e) = (500, False)"

lemma bank_refusals:
  "bank_verdict req b = Refuse e \<Longrightarrow>
     e \<in> {ErrDuplicateRequest, ErrCurrencyMismatch, ErrInsufficientFunds, ErrAccountNotFound,
       numeric_out_of_range, unique_violation}"
  by (auto simp: bank_verdict_def split: option.splits if_splits prod.splits)

lemma refused_answer:
  "bank_verdict req b = Refuse e \<Longrightarrow>
     (rs_status (respond W (Inl e)), rs_replayed (respond W (Inl e))) = verdict_answer (Refuse e)"
  by (drule bank_refusals) (auto simp: respond_def)

lemma replayed_status: "replays req d s \<Longrightarrow> keys_settled d \<Longrightarrow> SR_Code s = 201"
  by (auto simp: replays_def key_settled_def dest: keys_settled_find)

text \<open>An executor's answer, as the client sees it, is the bank's.\<close>

lemma executed_answer:
  assumes w: "txn w = None" and ok: "ledger_ok seed (tables w)" and orc: "no_faults orc"
    and p: "proper req" and fresh: "fresh_sources (sources_of orc w) (tables w)"
    and run: "run orc (execute_by s req) w = (r, w')"
  shows "(rs_status (respond W r), rs_replayed (respond W r)) =
      verdict_answer (bank_verdict req (bank_of (tables w))) \<and>
    bank_of (tables w') = snd (bank_transfer req (bank_of (tables w)))"
proof -
  have b: "verdict_of r = bank_verdict req (bank_of (tables w))"
    "bank_of (tables w') = snd (bank_transfer req (bank_of (tables w)))"
    using by_strategy.exec_refines [OF w ok orc p fresh run] by (auto simp: bank_transfer_def prod_eq_iff)
  have keys: "keys_settled (tables w)" using ok by (simp add: ledger_ok_def)
  note eff = by_strategy.exec_effect [OF w ok run]
  have "(rs_status (respond W r), rs_replayed (respond W r)) = verdict_answer (verdict_of r)"
  proof (cases "(r)" rule: verdict_of.cases)
    case (1 e)
    then show ?thesis using refused_answer [of req "bank_of (tables w)" e W] b(1) by simp
  next
    case (2 t s)
    then show ?thesis using eff replayed_status [OF _ keys] by (auto simp: respond_def)
  next
    case (3 t)
    then show ?thesis using eff posted_answer by auto
  qed
  with b show ?thesis by simp
qed


section \<open>Accounts and history\<close>

text \<open>The currency of the request fits its column: three bytes are at most three characters.\<close>

lemma char3_three: "length s = 3 \<Longrightarrow> \<exists>c. char3 s = Some c"
proof -
  assume "length s = 3"
  moreover have "utf8_len s \<le> length s" by (simp add: utf8_len_def)
  ultimately have "utf8_len s \<le> 3" by simp
  then show ?thesis by (simp add: char3_def)
qed

text \<open>What \<open>POST /accounts\<close> makes of a body: the name, the currency and the webhook to store.\<close>

definition account_order :: "web \<Rightarrow> http_body \<Rightarrow> (string \<times> string \<times> string option) option" where
  "account_order W b =
     (case Decode_account W (MaxBytesReader 65536 b) of
        None \<Rightarrow> None
      | Some (n, c, url) \<Rightarrow>
          let name = TrimSpace n; cur = ToUpper (unicode_upper W) (TrimSpace c)
          in if name \<noteq> [] \<and> length cur = 3 \<and> (url = [] \<or> url_ok W url)
             then Some (name, cur, if url = [] then None else Some url) else None)"

lemma post_accounts_run:
  assumes "run orc (post_accounts W b) w = (resp, w')"
  obtains (turned_down) "account_order W b = None" "w' = w" "rs_status resp = 400 \<or> rs_status resp = 422"
    | (ordered) name cur url r where "account_order W b = Some (name, cur, url)" "length cur = 3"
        "url = None \<or> (\<exists>u. url = Some u \<and> url_ok W u)"
        "run orc (CreateAccount name cur url) w = (r, w')"
        "resp = (case r of Inl _ \<Rightarrow> internal_error | Inr a \<Rightarrow> writeJSON 201 (account_json a))"
proof (cases "account_order W b")
  case None
  then have "w' = w \<and> (rs_status resp = 400 \<or> rs_status resp = 422)"
    using assms validate_ok
    by (auto simp: post_accounts_def account_order_def Let_def split: option.splits if_splits prod.splits)
  with None that(1) show ?thesis by blast
next
  case (Some x)
  obtain name cur url where x: "x = (name, cur, url)" by (cases x)
  have "length cur = 3" "url = None \<or> (\<exists>u. url = Some u \<and> url_ok W u)"
    using Some x by (auto simp: account_order_def Let_def split: option.splits if_splits prod.splits)
  moreover have "run orc (create_account name cur url) w = (resp, w')"
    using assms Some x
    by (auto simp: post_accounts_def account_order_def Let_def simp flip: validate_ok
        split: option.splits if_splits prod.splits)
  then have "\<exists>r. run orc (CreateAccount name cur url) w = (r, w') \<and>
      resp = (case r of Inl _ \<Rightarrow> internal_error | Inr a \<Rightarrow> writeJSON 201 (account_json a))"
    by (auto simp: create_account_def run_bindp split: prod.splits)
  ultimately show ?thesis using that(2) Some x by blast
qed

lemma get_account_run:
  assumes i: "ParseInt s = Some i" and orc: "no_faults orc" and ok: "rows_ok (tables w)"
    and run: "run orc (get_account s) w = (resp, w')"
  shows "resp = (case find_account (sint i) (tables w) of
      None \<Rightarrow> error_json 404 ''account not found''
    | Some a \<Rightarrow> writeJSON 200 (account_json (account_of a)))"
proof -
  obtain r w1 where "run orc (GetAccount i) w = (r, w1)" by fastforce
  with GetAccount_spec [OF this orc ok] run i show ?thesis
    by (auto simp: get_account_def run_bindp split: option.splits)
qed

lemma get_history_run:
  assumes i: "ParseInt s = Some i" and a: "(if after \<noteq> [] then ParseInt after else Some 0) = Some n"
    and orc: "no_faults orc" and ok: "rows_ok (tables w)" and d: "postings_readable (tables w)"
    and run: "run orc (get_history s after) w = (resp, w')"
  shows "resp = (case find_account (sint i) (tables w) of
      None \<Rightarrow> error_json 404 ''account not found''
    | Some _ \<Rightarrow> writeJSON 200 (JObj [(''postings'', JArr (map (posting_json \<circ> posting_of)
        (take 50 (filter (\<lambda>p. 0 < sint n \<longrightarrow> po_id p < sint n) (history i (tables w))))))]))"
proof -
  obtain r w1 where r: "run orc (GetAccount i) w = (r, w1)" by fastforce
  have r': "tables w1 = tables w" "r = (case find_account (sint i) (tables w) of
      None \<Rightarrow> Inl ErrNotFound | Some a \<Rightarrow> Inr (account_of a))"
    using GetAccount_spec [OF r orc ok] by auto
  obtain q w2 where q: "run orc (GetPostings i n 50) w1 = (q, w2)" by fastforce
  have "q = Inr (map posting_of (take 50 (filter (\<lambda>p. 0 < sint n \<longrightarrow> po_id p < sint n)
      (history i (tables w)))))"
    using GetPostings_page [OF q orc] d r' by simp
  then show ?thesis
    using run i a r r' q by (auto simp: get_history_def run_bindp split: option.splits)
qed

text \<open>The \<open>GET\<close> handlers only read.\<close>

lemma reading_handlers:
  "reading (get_health W)" "reading (get_account s)" "reading (get_history s after)" "reading get_metrics"
proof -
  have get: "reading (GetAccount i)" for i
    unfolding GetAccount_def by (auto intro!: reading_bindp split: sum.splits)
  have page: "reading (GetPostings i n lim)" for i n lim
    unfolding GetPostings_def by (auto intro!: reading_tryp)
  show "reading (get_health W)" unfolding get_health_def by (auto intro!: reading_bindp)
  show "reading (get_account s)"
    unfolding get_account_def by (auto intro!: reading_bindp get split: option.splits)
  show "reading (get_history s after)"
    unfolding get_history_def by (auto intro!: reading_bindp get page split: option.splits sum.splits)
  show "reading get_metrics"
    unfolding get_metrics_def GetOutboxMetrics_def by (auto intro!: reading_bindp reading_tryp)
qed


text \<open>Without failing calls, only an answer 201 stands for a change of the tables.\<close>

lemma create_unsuccessful:
  assumes run: "run orc (CreateAccount name cur url) w = (r, w')" and orc: "no_faults orc"
    and seq: "bigint (acc_seq w)" and err: "r = Inl e"
  shows "tables w' = tables w"
proof (rule ccontr)
  assume "tables w' \<noteq> tables w"
  then obtain c where "char3 cur = Some c" "\<not> has_account (acc_seq w) (tables w)"
    using CreateAccount_tables [OF run] by blast
  from CreateAccount_ok [OF run orc this seq] err show False by auto
qed

lemma serve_unsuccessful:
  assumes w: "txn w = None" and ok: "ledger_ok seed (tables w)" and orc: "no_faults orc"
    and seq: "bigint (acc_seq w)" and run: "run orc (serve cfg W rq) w = (resp, w')"
    and resp: "rs_status resp \<noteq> 201"
  shows "tables w' = tables w"
proof (cases rq)
  case (Post_accounts b)
  with run have "run orc (post_accounts W b) w = (resp, w')" by simp
  then show ?thesis
  proof (cases rule: post_accounts_run)
    case (ordered name cur url r)
    then obtain e where "r = Inl e" using resp by (cases r) auto
    with create_unsuccessful [OF ordered(4) orc seq] show ?thesis by simp
  qed simp
next
  case (Post_transfers key b)
  with run have "run orc (post_transfers cfg W key b) w = (resp, w')" by simp
  then show ?thesis
  proof (cases rule: post_transfers_run)
    case (executed req s r)
    have "posted_once req d t d' \<Longrightarrow> r \<noteq> Inr (t, None)" for d t d'
      using posted_answer resp executed(3) by force
    then have no: "r = Inr (t, None) \<Longrightarrow> \<not> posted_once req d t d'" for d t d' by blast
    show ?thesis
      using by_strategy.exec_no_faults [OF w ok orc executed(2)] no
      by (cases r; cases "snd (projr r)") auto
  qed auto
qed (use run reading_run [OF _ reading_handlers(1)] reading_run [OF _ reading_handlers(2)]
       reading_run [OF _ reading_handlers(3)] reading_run [OF _ reading_handlers(4)]
       in \<open>auto simp: same_data_def\<close>)

section \<open>Properties\<close>


text \<open>A web in which every body asks for 300 dollars to be moved from account 1 to account 2.\<close>

definition demo_web :: web where
  "demo_web = \<lparr>url_Parse = (\<lambda>_. Some (''https'', ''shop.example'')),
     LookupHost = (\<lambda>_. Some [''93.184.216.34'']), unicode_upper = id,
     Decode_account = (\<lambda>_. Some ('' Carol '', ''eur'', ''https://shop.example/hook'')),
     Unmarshal_transfer = (\<lambda>_. Some (1, 2, 300, ''usd'')), normal_form = (\<lambda>_. None),
     driver_text = (\<lambda>_. [])\<rparr>"

definition demo_body :: http_body where
  "demo_body = \<lparr>bd_bytes = ''{}'', bd_eof = True\<rparr>"

abbreviation demo_config :: config where
  "demo_config \<equiv> Load (\<lambda>_. [])"

definition demo_request :: transfer_request where
  "demo_request = pay\<lparr>RequestHash := HashRequest (\<lambda>_. None) ''{}''\<rparr>"

lemma demo_decode: "decode_transfer demo_web ''k1'' demo_body = Inr demo_request"
proof -
  have "ToUpper id ''usd'' = ''USD''" by code_simp
  then show ?thesis
    by (simp add: decode_transfer_def demo_web_def demo_body_def demo_request_def pay_def
        ReadAll_def MaxBytesReader_def)
qed

lemma demo_admissible: "admissible demo_request sample_db" "proper demo_request"
  using pay_admissible by (simp_all add: admissible_def transfer_checks_def demo_request_def
      proper_def pay_def)


text \<open>
  C16. Without failing calls the answer to a posted transfer is decided by the accounts, the keys and
  the request alone: the status and the replay header are those the bank's verdict calls for, and
  the tables change as the bank does.
\<close>

theorem http_answers_by_bank:
  assumes "txn w = None" and "ledger_ok seed (tables w)" and "no_faults orc"
    and "decode_transfer W key b = Inr req" and "length (Currency req) = 3"
    and "Strategy cfg \<noteq> ''optimistic''"
    and "fresh_sources (sources_of orc w) (tables w)"
  shows "case run orc (serve cfg W (Post_transfers key b)) w of (resp, w') \<Rightarrow>
    (rs_status resp, rs_replayed resp) = verdict_answer (bank_verdict req (bank_of (tables w))) \<and>
    bank_of (tables w') = snd (bank_transfer req (bank_of (tables w)))"
proof -
  obtain resp w' where r: "run orc (post_transfers cfg W key b) w = (resp, w')" by fastforce
  have p: "proper req" using decode_transfer_Inr [OF assms(4)] assms(5) by (simp add: proper_def)
  from r show ?thesis
  proof (cases rule: post_transfers_run)
    case (executed req' s x)
    then show ?thesis using executed_answer [OF assms(1-3) p assms(7)] assms(4) r by simp
  qed (use assms in auto)
qed

theorem http_answers_by_bank_witness:
  "rs_status (fst (run calm (serve demo_config demo_web (Post_transfers ''k1'' demo_body)) sample_world)) = 201"
proof -
  have f: "find_account 1 sample_db = Some alice" "find_account 2 sample_db = Some bob"
    "find_key ''k1'' sample_db = None" "transfers sample_db = []"
    by code_simp+
  then have "bank_verdict demo_request (bank_of sample_db) = Posting"
    by (simp add: bank_verdict_def demo_request_def pay_def alice_def bob_def bigint_def)
  moreover have "length (Currency demo_request) = 3" "Strategy demo_config \<noteq> ''optimistic''"
    by (simp_all add: demo_request_def pay_def Load_def)
  ultimately show ?thesis
    using http_answers_by_bank [where w = sample_world and seed = sample_seed and orc = calm,
        OF _ _ _ demo_decode, of demo_config]
      sample_ledger_ok calm_no_faults calm_fresh
    by (auto simp: case_prod_beta simp del: serve.simps)
qed



text \<open>
  C37. An account reads back over HTTP as it was created: \<open>POST /accounts\<close> answers 201 with the
  account, which has the trimmed name, the upper-case currency and a balance of 0, and \<open>GET\<close> of the
  decimal text of its id answers 200 with the same body.
\<close>

theorem account_reads_back:
  assumes "no_faults orc" and "no_faults orc'" and "rows_ok (tables w)"
    and "account_order W b = Some (name, cur, url)" and "char3 cur = Some c"
    and "\<not> has_account (acc_seq w) (tables w)" and "bigint (acc_seq w)"
    and "\<forall>n. rfc3339_ok (o_clock orc n)"
  shows "case run orc (serve cfg W (Post_accounts b)) w of (resp, w1) \<Rightarrow>
    \<exists>a. rs_status resp = 201 \<and> rs_body resp = Some (account_json a) \<and>
      A_ID a = word_of_int (acc_seq w) \<and> A_Name a = name \<and> A_Currency a = c \<and> A_Balance a = 0 \<and>
      fst (run orc' (serve cfg W (Get_account (itoa (acc_seq w)))) w1) = writeJSON 200 (account_json a)"
proof -
  obtain resp w1 where r: "run orc (post_accounts W b) w = (resp, w1)" by fastforce
  then obtain x where x: "run orc (CreateAccount name cur url) w = (x, w1)"
    "resp = (case x of Inl _ \<Rightarrow> internal_error | Inr a \<Rightarrow> writeJSON 201 (account_json a))"
    by (cases rule: post_accounts_run) (use assms(4) in auto)
  let ?a = "\<lambda>now. new_account (acc_seq w) name c url now"
  obtain now where now: "x = Inr (account_of (?a now))" "tables w1 = add_account (?a now) (tables w)"
    "rfc3339_ok now"
    using CreateAccount_ok [OF x(1) assms(1,5,6,7)] assms(8) by blast
  have "find_account (acc_seq w) (tables w1) = Some (?a now)" "rows_ok (tables w1)"
    using find_add_account [OF assms(6)] rows_ok_add_account [OF assms(3,5,6)] by (simp_all add: now)
  moreover obtain resp2 w2 where r2: "run orc' (get_account (itoa (acc_seq w))) w1 = (resp2, w2)"
    by fastforce
  ultimately have "resp2 = writeJSON 200 (account_json (account_of (?a now)))"
    using get_account_run [OF ParseInt_itoa [OF assms(7)] assms(2) _ r2] sint_of_bigint [OF assms(7)]
    by simp
  moreover have "encodable (account_json (account_of (?a now)))"
    using now(3) by (simp add: account_json_def account_of_def new_account_def)
  ultimately show ?thesis
    using r r2 x(2) now
    by (auto intro!: exI [of _ "account_of (?a now)"] simp: account_of_def new_account_def)
qed

theorem account_reads_back_witness:
  "\<exists>a. A_Name a = ''Carol'' \<and> A_Currency a = ''EUR'' \<and>
     fst (run calm (serve demo_config demo_web (Get_account ''3''))
       (snd (run calm (serve demo_config demo_web (Post_accounts demo_body)) sample_world))) =
     writeJSON 200 (account_json a)"
proof -
  have "ParseIP ''93.184.216.34'' = Some (v4_prefix @ [93, 184, 216, 34])"
    "\<not> reserved (v4_prefix @ [93, 184, 216, 34])"
    by code_simp+
  then have "url_ok demo_web ''https://shop.example/hook''" by (auto simp: url_ok_def demo_web_def)
  moreover have "TrimSpace '' Carol '' = ''Carol''" "ToUpper id (TrimSpace ''eur'') = ''EUR''"
    "char3 ''EUR'' = Some ''EUR''" "itoa 3 = ''3''"
    by code_simp+
  moreover have "rfc3339_ok (o_clock calm n)" for n by (simp add: calm_def rfc3339_ok_def)
  moreover have "\<not> has_account 3 sample_db" "bigint 3" "acc_seq sample_world = 3"
    by (simp_all add: has_account_def sample_db_def sample_world_def alice_def bob_def bigint_def)
  ultimately show ?thesis
    using account_reads_back [OF calm_no_faults calm_no_faults, where w = sample_world and W = demo_web
        and b = demo_body and cfg = demo_config and name = "''Carol''" and cur = "''EUR''" and c = "''EUR''"
        and url = "Some ''https://shop.example/hook''"] ledger_rows_ok [OF sample_ledger_ok]
    by (auto simp: case_prod_beta account_order_def demo_web_def simp del: serve.simps)
qed

text \<open>
  \<open>GET /accounts/{id}/history\<close> answers with the newest fifty postings of the account before the
  cursor, newest first, and with 404 for an account that does not exist.
\<close>

lemma history_page_served:
  assumes "no_faults orc" and "rows_ok (tables w)" and "postings_readable (tables w)"
    and "bigint i" and "after = [] \<and> n = 0 \<or> after = itoa n \<and> bigint n"
  shows "fst (run orc (serve cfg W (Get_history (itoa i) after)) w) =
    (case find_account i (tables w) of
       None \<Rightarrow> error_json 404 ''account not found''
     | Some _ \<Rightarrow> writeJSON 200 (JObj [(''postings'', JArr (map (posting_json \<circ> posting_of)
         (take 50 (filter (\<lambda>p. 0 < n \<longrightarrow> po_id p < n) (history (word_of_int i) (tables w))))))]))"
proof -
  obtain resp w' where r: "run orc (get_history (itoa i) after) w = (resp, w')" by fastforce
  have "itoa n \<noteq> []" using digits_ne by (simp add: itoa_def)
  then have n: "(if after \<noteq> [] then ParseInt after else Some 0) = Some (word_of_int n)" "bigint n"
    using assms(5) ParseInt_itoa [of n] by (auto simp: bigint_def)
  show ?thesis
    using get_history_run [OF ParseInt_itoa [OF assms(4)] n(1) assms(1-3) r,
        unfolded sint_of_bigint [OF assms(4)] sint_of_bigint [OF n(2)]] r by simp
qed

end
