(* ===== verification/System.thy ===== *)
theory System
  imports Http
begin

text \<open>
  The running system: API requests, polls of the outbox and reconciliation runs in any order and
  number, each in an environment of its own, so that any call may fail and a server may die at any
  point (all its later calls fail) and be restarted with another configuration. A step is a whole
  handler, poll or reconciliation. The invariants hold in every reachable state.
\<close>

section \<open>Steps\<close>

datatype activity =
    Served config web api_request http_response
  | Polled "err option"
  | Reconciled "string \<times> nat"

inductive step :: "world \<Rightarrow> activity \<Rightarrow> world \<Rightarrow> bool" where
  serving: "run orc (serve cfg W rq) w = (resp, w') \<Longrightarrow> step w (Served cfg W rq resp) w'"
| polling: "run orc poll w = (e, w') \<Longrightarrow> step w (Polled e) w'"
| reconciling: "run orc recon_main w = (out, w') \<Longrightarrow> step w (Reconciled out) w'"

inductive_cases served_step: "step w (Served cfg W rq resp) w'"
inductive_cases polled_step: "step w (Polled e) w'"
inductive_cases reconciled_step: "step w (Reconciled out) w'"

inductive steps :: "world \<Rightarrow> activity list \<Rightarrow> world \<Rightarrow> bool" where
  none: "steps w [] w"
| more: "steps w as w1 \<Longrightarrow> step w1 a w' \<Longrightarrow> steps w (as @ [a]) w'"

section \<open>What a step does to the tables\<close>

text \<open>A handler changes nothing, creates one account or posts one transfer.\<close>

inductive api_effect :: "web \<Rightarrow> api_request \<Rightarrow> world \<Rightarrow> db \<Rightarrow> bool" where
  nothing: "api_effect W rq w (tables w)"
| created: "account_order W b = Some (name, cur, url) \<Longrightarrow> char3 cur = Some c \<Longrightarrow>
    \<not> has_account (acc_seq w) (tables w) \<Longrightarrow>
    api_effect W (Post_accounts b) w (add_account (new_account (acc_seq w) name c url now) (tables w))"
| transferred: "decode_transfer W key b = Inr req \<Longrightarrow> posted_once req (tables w) t d' \<Longrightarrow>
    api_effect W (Post_transfers key b) w d'"

context executor
begin

lemma exec_requests:
  assumes "txn w = None" and "ledger_ok seed (tables w)" and "run orc (exec req) w = (r, w')"
  shows "txn w' = None \<and> requests w' = requests w"
  using exec_settles [OF assms(1) ledger_rows_ok [OF assms(2)] fits_sources_of assms(3)]
  by (simp add: settles_def)

end

lemma serve_effect:
  assumes w: "txn w = None" and ok: "ledger_ok seed (tables w)"
    and run: "run orc (serve cfg W rq) w = (resp, w')"
  shows "api_effect W rq w (tables w') \<and> txn w' = None \<and> requests w' = requests w"
proof -
  have read: ?thesis if "reading (serve cfg W rq)"
    using reading_run [OF run that] w by (auto simp: same_data_def intro: api_effect.nothing)
  show ?thesis
  proof (cases rq)
    case (Post_accounts b)
    with run have "run orc (post_accounts W b) w = (resp, w')" by simp
    then show ?thesis
    proof (cases rule: post_accounts_run)
      case turned_down
      then show ?thesis using w by (auto intro: api_effect.nothing)
    next
      case (ordered name cur url r)
      have "txn w' = None" "requests w' = requests w"
        using CreateAccount_tables [OF ordered(4)] CreateAccount_run [OF ordered(4)] query_pool w
        by (auto simp: pool_frame_def dest: query_pool)
      with CreateAccount_tables [OF ordered(4)] ordered(1) Post_accounts show ?thesis
        by (auto intro: api_effect.intros)
    qed
  next
    case (Post_transfers key b)
    with run have "run orc (post_transfers cfg W key b) w = (resp, w')" by simp
    then show ?thesis
    proof (cases rule: post_transfers_run)
      case (executed req s r)
      show ?thesis
        using by_strategy.exec_tables [OF w ok executed(2)] by_strategy.exec_requests [OF w ok executed(2)]
          executed(1) Post_transfers by (auto intro: api_effect.intros)
    qed (use w in \<open>auto intro: api_effect.nothing\<close>)
  qed (use read reading_handlers in auto)
qed

section \<open>The invariant\<close>

text \<open>
  Between two steps no transaction is open, the ledger and the events are in order, and every
  account id was drawn from the sequence; accounts created from now on have no seed.
\<close>

definition system_ok :: "(int \<Rightarrow> int) \<Rightarrow> world \<Rightarrow> bool" where
  "system_ok seed w \<longleftrightarrow>
     txn w = None \<and> ledger_ok seed (tables w) \<and> events_ok (tables w) \<and> ids_below w \<and>
     (\<forall>i \<ge> acc_seq w. seed i = 0)"

lemma add_account_frame [simp]:
  "idem_keys (add_account a d) = idem_keys d" "outbox (add_account a d) = outbox d"
  "accounts (add_account a d) = accounts d @ [a]"
  by (simp_all add: add_account_def)

lemma posted_outbox:
  assumes "posted_once req d t d'"
  shows "\<exists>ev url. outbox d' = outbox d @ [transfer_event ev t url] \<and>
    url = webhook_of (sint (T_ToAccount t)) d"
  using assms by (auto simp: posted_once_def post_def posted_db_def record_transfer_def)

lemma posted_accounts:
  assumes "posted_once req d t d'"
  shows "map acc_webhook (accounts d') = map acc_webhook (accounts d)"
proof -
  obtain f t' amt where "accounts d' = accounts (move_funds f t' amt d)"
    using assms by (auto simp: posted_once_def post_def posted_db_def record_transfer_def)
  then show ?thesis by (simp add: move_funds_def)
qed

lemma posted_keeps_keys:
  "posted_once req d t d' \<Longrightarrow> find_key k d = Some r \<Longrightarrow> find_key k d' = Some r"
  by (auto simp: posted_once_def post_def find_key_def find_append)

lemma transfer_event_ok: "event_row_ok (transfer_event ev t url)"
  by (simp add: event_row_ok_def transfer_event_def settled_event_def poller_maxRetries_def)

lemma poll_step:
  assumes "run orc poll w = (e, w')" and "ledger_ok seed (tables w)"
  obtains log where "poller_run log w w'"
  using poll_run [OF assms(1)] assms(2) by (auto simp: ledger_ok_def books_ok_def constraints_pk)

lemma reading_recon: "reading recon_main"
  unfolding recon_main_def recon_Run_def
  by (auto intro!: reading_bindp reading_tryp split: sum.splits)

text \<open>What a handler leaves: the ledger in order, and at most new pending events behind the old ones.\<close>

lemma api_keeps:
  assumes api: "api_effect W rq w d" and led: "ledger_ok seed (tables w)"
    and zero: "\<forall>i \<ge> acc_seq w. seed i = 0"
  shows "ledger_ok seed d \<and> total_balance d = total_balance (tables w) \<and>
    (\<exists>new. outbox d = outbox (tables w) @ new \<and> (\<forall>r \<in> set new. event_row_ok r \<and> ob_status r = Pending))"
  using api
proof cases
  case nothing
  then show ?thesis using led by simp
next
  case (created b name cur url c now)
  have "ledger_ok seed d"
    using new_account_ledger [OF led created(5)] zero char3_idem [OF created(4)] created(2)
    by (simp add: add_account_def)
  then show ?thesis using created by (simp add: total_balance_def new_account_def)
next
  case (transferred key b req t)
  have "ledger_ok seed d" "total_balance d = total_balance (tables w)"
    using transferred(3) led post_ledger_ok post_total [OF ledger_rows_ok [OF led]]
    by (auto simp: posted_once_def)
  moreover obtain ev url where "outbox d = outbox (tables w) @ [transfer_event ev t url]"
    using posted_outbox [OF transferred(3)] by blast
  moreover have "ob_status (transfer_event ev t url) = Pending" by (simp add: transfer_event_def)
  ultimately show ?thesis using transfer_event_ok by simp
qed

text \<open>What a step does: an effect of the API, a poll, or nothing.\<close>

lemma step_cases:
  assumes st: "step w a w'" and w: "txn w = None" and ok: "ledger_ok seed (tables w)"
  obtains (api) cfg W rq resp where "a = Served cfg W rq resp" "api_effect W rq w (tables w')"
      "txn w' = None" "requests w' = requests w"
    | (poll) e log where "a = Polled e" "poller_run log w w'"
    | (idle) out where "a = Reconciled out" "same_data w w'"
  using st
proof cases
  case (serving orc cfg W rq resp)
  then show ?thesis using serve_effect [OF w ok] api by blast
next
  case (polling orc e)
  then show ?thesis using poll_step [OF _ ok] poll by blast
next
  case (reconciling orc out)
  then show ?thesis using reading_run [OF _ reading_recon] idle by blast
qed

lemma step_ids: "step w a w' \<Longrightarrow> ids_step w w'"
  by (induction rule: step.induct) (auto intro: run_ids)

lemma step_keeps:
  assumes st: "step w a w'" and ok: "system_ok seed w"
  shows "system_ok seed w' \<and> total_balance (tables w') = total_balance (tables w)"
proof -
  have w: "txn w = None" and led: "ledger_ok seed (tables w)" and ev: "events_ok (tables w)"
    and seq: "acc_seq w \<le> acc_seq w'" "ids_below w'" "\<forall>i \<ge> acc_seq w. seed i = 0"
    using ok step_ids [OF st] by (auto simp: system_ok_def ids_step_def)
  have later: "\<forall>i \<ge> acc_seq w'. seed i = 0" using seq by auto
  from st w led show ?thesis
  proof (cases rule: step_cases)
    case (api cfg W rq resp)
    from api_keeps [OF api(2) led seq(3)]
    have "ledger_ok seed (tables w')" "events_ok (tables w')" "total_balance (tables w') = total_balance (tables w)"
      using ev by (auto simp: events_ok_def)
    with api seq later show ?thesis by (simp add: system_ok_def)
  next
    case (poll e log)
    have rows: "list_all2 later_row (outbox (tables w)) (outbox (tables w'))"
      and t: "tables w' = (tables w)\<lparr>outbox := outbox (tables w')\<rparr>" and "txn w' = None"
      using poll(2) w by (auto simp: poller_run_def poller_frame_def)
    moreover have "events_ok (tables w')"
      using ev list_all2_memD2 [OF rows] by (fastforce simp: later_row_def events_ok_def)
    moreover have "accounts (tables w') = accounts (tables w)" by (subst t) simp
    ultimately show ?thesis
      using poller_run_ledger [OF poll(2) led] seq later by (simp add: system_ok_def total_balance_def)
  next
    case (idle out)
    with led ev w seq later show ?thesis by (simp add: system_ok_def same_data_def)
  qed
qed

lemma steps_keep:
  "steps w as w' \<Longrightarrow> system_ok seed w \<Longrightarrow>
     system_ok seed w' \<and> total_balance (tables w') = total_balance (tables w)"
  by (induction rule: steps.induct) (auto dest: step_keeps)

section \<open>Keys over time\<close>

lemma step_keeps_keys:
  assumes st: "step w a w'" and ok: "system_ok seed w" and k: "find_key k (tables w) = Some r"
  shows "find_key k (tables w') = Some r"
proof -
  have "txn w = None" and "ledger_ok seed (tables w)" using ok by (auto simp: system_ok_def)
  with st show ?thesis
  proof (cases rule: step_cases)
    case (api cfg W rq resp)
    from api(2) show ?thesis
    proof cases
      case nothing
      then show ?thesis using k by simp
    next
      case (created b name cur url c now)
      then show ?thesis using k by (simp add: find_key_def)
    next
      case (transferred key b req t)
      then show ?thesis using posted_keeps_keys k by blast
    qed
  next
    case (poll e log)
    then have "idem_keys (tables w') = idem_keys (tables w)"
      by (auto simp: poller_run_def) (metis db.select_convs(4) db.surjective db.update_convs(5))
    with k show ?thesis by (simp add: find_key_def)
  next
    case (idle out)
    with k show ?thesis by (simp add: same_data_def)
  qed
qed

text \<open>An answer 201 to a transfer is the response that is on record from then on.\<close>

lemma created_on_record:
  assumes ok: "system_ok seed w" and st: "step w (Served cfg W (Post_transfers key b) resp) w'"
    and s: "rs_status resp = 201"
  shows "\<exists>r. find_key key (tables w') = Some r \<and> rs_body resp = ik_body r"
proof -
  have w: "txn w = None" and led: "ledger_ok seed (tables w)" using ok by (auto simp: system_ok_def)
  from st obtain orc where "run orc (post_transfers cfg W key b) w = (resp, w')"
    by (auto elim: served_step)
  then show ?thesis
  proof (cases rule: post_transfers_run)
    case turned_down
    then show ?thesis using decode_transfer_Inl s by fastforce
  next
    case optimistic
    then show ?thesis using s by simp
  next
    case (executed req sg r)
    have "r \<noteq> Inl e" for e using executed(3) s respond_error [of W e] by auto
    then obtain t x where r: "r = Inr (t, x)" by (cases r) auto
    note key = decode_transfer_Inr(1,2) [OF executed(1)]
    show ?thesis
    proof (cases x)
      case None
      then have p: "posted_once req (tables w) t (tables w')"
        using by_strategy.exec_effect [OF w led executed(2)] r by simp
      then show ?thesis
        using posted_on_record [OF p] posted_answer [OF p, of W] key executed(3) r None
        by (auto simp: done_row_def)
    next
      case (Some y)
      then have "tables w' = tables w" "replays req (tables w) y"
        using by_strategy.exec_effect [OF w led executed(2)] r by auto
      then show ?thesis
        using key executed(3) r Some by (auto simp: replays_def respond_def)
    qed
  qed
qed

text \<open>The answers 201 to transfers in a run, with the key they answer.\<close>

definition created_transfer :: "activity \<Rightarrow> string \<Rightarrow> json option \<Rightarrow> bool" where
  "created_transfer a key body \<longleftrightarrow>
     (\<exists>cfg W b resp. a = Served cfg W (Post_transfers key b) resp \<and> rs_status resp = 201 \<and>
        body = rs_body resp)"

lemma run_on_record:
  assumes "steps w as w'" and "system_ok seed w"
  shows "\<forall>a \<in> set as. \<forall>key body. created_transfer a key body \<longrightarrow>
    (\<exists>r. find_key key (tables w') = Some r \<and> body = ik_body r)"
  using assms
proof (induction rule: steps.induct)
  case (none w)
  then show ?case by simp
next
  case (more w as w1 a w')
  have ok: "system_ok seed w1" using steps_keep [OF more(1)] more.prems by simp
  have "\<exists>r. find_key key (tables w') = Some r \<and> body = ik_body r"
    if "x \<in> set as" "created_transfer x key body" for x key body
    using more.IH more.prems that step_keeps_keys [OF more(2) ok] by blast
  moreover have "\<exists>r. find_key key (tables w') = Some r \<and> body = ik_body r"
    if "created_transfer a key body" for key body
    using that created_on_record [OF ok] more(2) by (auto simp: created_transfer_def)
  ultimately show ?case by auto
qed

section \<open>Where requests go\<close>

text \<open>The webhooks accepted in a run, by the check of \<open>POST /accounts\<close> at the time.\<close>

definition accepted_url :: "activity list \<Rightarrow> string \<Rightarrow> bool" where
  "accepted_url as u \<longleftrightarrow>
     (\<exists>cfg W b resp. Served cfg W (Post_accounts b) resp \<in> set as \<and> url_ok W u)"

definition urls_within :: "(string \<Rightarrow> bool) \<Rightarrow> world \<Rightarrow> bool" where
  "urls_within P w \<longleftrightarrow>
     (\<forall>x \<in> set (map acc_webhook (accounts (tables w))). \<forall>u. x = Some u \<longrightarrow> P u) \<and>
     (\<forall>r \<in> set (outbox (tables w)). \<forall>u. ob_target r = Some u \<longrightarrow> P u) \<and>
     (\<forall>q \<in> set (requests w). P (rq_url (fst q)))"

lemma urls_within_mono: "urls_within P w \<Longrightarrow> (\<And>u. P u \<Longrightarrow> Q u) \<Longrightarrow> urls_within Q w"
  unfolding urls_within_def by blast

lemma account_order_url: "account_order W b = Some (name, cur, Some u) \<Longrightarrow> url_ok W u"
  by (auto simp: account_order_def Let_def split: option.splits if_splits)

lemma webhook_of_within: "urls_within P w \<Longrightarrow> webhook_of i (tables w) = Some u \<Longrightarrow> P u"
  by (auto simp: urls_within_def webhook_of_def dest!: find_account_Some split: option.splits)

lemma step_urls:
  assumes st: "step w a w'" and ok: "system_ok seed w" and P: "urls_within P w"
    and new: "\<And>u. accepted_url [a] u \<Longrightarrow> P u"
  shows "urls_within P w'"
proof -
  have "txn w = None" and "ledger_ok seed (tables w)" using ok by (auto simp: system_ok_def)
  with st show ?thesis
  proof (cases rule: step_cases)
    case (api cfg W rq resp)
    from api(2) show ?thesis
    proof cases
      case nothing
      with P api(4) show ?thesis by (simp add: urls_within_def)
    next
      case (created b name cur url c now)
      have "P u" if "url = Some u" for u
        using new account_order_url created(1,3) api(1) that by (auto simp: accepted_url_def)
      with P api(4) created(2) show ?thesis by (auto simp: urls_within_def new_account_def)
    next
      case (transferred key b req t)
      have "P u" if "webhook_of (sint (T_ToAccount t)) (tables w) = Some u" for u
        using webhook_of_within [OF P that] .
      with P api(4) posted_outbox [OF transferred(3)] posted_accounts [OF transferred(3)]
      show ?thesis by (auto simp: urls_within_def transfer_event_def)
    qed
  next
    case (poll e log)
    have rows: "list_all2 later_row (outbox (tables w)) (outbox (tables w'))"
      and t: "tables w' = (tables w)\<lparr>outbox := outbox (tables w')\<rparr>"
      and log: "requests w' = requests w @ log" "log_live (tables w) log"
      using poll(2) by (auto simp: poller_run_def poller_frame_def)
    have "accounts (tables w') = accounts (tables w)" by (subst t) simp
    moreover have "P u" if "r' \<in> set (outbox (tables w'))" "ob_target r' = Some u" for r' u
      using list_all2_memD2 [OF rows that(1)] that(2) P
      by (auto simp: urls_within_def later_row_def same_event_def)
    moreover have "P (rq_url (fst q))" if "q \<in> set log" for q
      using log(2) that P by (fastforce simp: log_live_def request_for_def urls_within_def)
    ultimately show ?thesis using P log(1) by (auto simp: urls_within_def)
  next
    case (idle out)
    with P show ?thesis by (simp add: urls_within_def same_data_def)
  qed
qed

lemma steps_urls:
  assumes "steps w as w'" and "system_ok seed w" and "urls_within P w"
  shows "urls_within (\<lambda>u. P u \<or> accepted_url as u) w'"
  using assms
proof (induction rule: steps.induct)
  case (none w)
  then show ?case by (auto simp: accepted_url_def)
next
  case (more w as w1 a w')
  let ?Q = "\<lambda>u. P u \<or> accepted_url (as @ [a]) u"
  have ok: "system_ok seed w1" using steps_keep [OF more(1)] more.prems by simp
  have "urls_within (\<lambda>u. P u \<or> accepted_url as u) w1" using more.IH more.prems by blast
  then have "urls_within ?Q w1" by (rule urls_within_mono) (auto simp: accepted_url_def)
  then show ?case
    by (rule step_urls [OF more(2) ok]) (auto simp: accepted_url_def)
qed

section \<open>Properties\<close>

text \<open>
  C10. In every state the system reaches, through any sequence of requests, polls and reconciliations
  and any failing calls, no transaction is open, the ledger is in order (constraints, balances that
  match the journal, double entry, one event per transfer, settled keys), every event is in a valid
  state, and the sum of all balances is the one at the start.
\<close>

theorem system_keeps_ledger:
  assumes "steps w as w'" and "system_ok seed w"
  shows "txn w' = None \<and> ledger_ok seed (tables w') \<and> events_ok (tables w') \<and>
    total_balance (tables w') = total_balance (tables w) \<and>
    sum_list (map po_amount (postings (tables w'))) = 0"
  using steps_keep [OF assms]
  by (simp add: system_ok_def ledger_ok_def books_ok_def conserved_def)

lemma sample_system: "system_ok sample_seed sample_world"
  using sample_ledger_ok
  by (simp add: system_ok_def events_ok_def ids_below_def account_ids_def sample_world_def sample_seed_def)
    (simp add: sample_db_def alice_def bob_def)

lemma paid_system: "system_ok sample_seed paid_world"
  using paid_world_ok paid_events_ok
  by (simp add: system_ok_def ids_below_def account_ids_def sample_seed_def)
    (simp add: paid_world_eq paid_db_def alice_def bob_def)

lemma one_step: "step w a w' \<Longrightarrow> steps w [a] w'"
  using steps.more [OF steps.none] by fastforce

lemma two_steps: "step w a w1 \<Longrightarrow> step w1 b w' \<Longrightarrow> steps w [a, b] w'"
  using steps.more [OF one_step] by fastforce

text \<open>A transfer is posted while a connection breaks, then the outbox is polled.\<close>

theorem system_keeps_ledger_witness:
  "\<exists>as w'. steps sample_world as w' \<and> as \<noteq> [] \<and> total_balance (tables w') = 1500"
proof -
  obtain resp w1 where "run (losing 11) (serve demo_config demo_web (Post_transfers ''k1'' demo_body))
      sample_world = (resp, w1)" by fastforce
  then have 1: "step sample_world (Served demo_config demo_web (Post_transfers ''k1'' demo_body) resp) w1"
    by (rule step.serving)
  obtain e w2 where "run calm poll w1 = (e, w2)" by fastforce
  then have 2: "step w1 (Polled e) w2" by (rule step.polling)
  have "total_balance sample_db = 1500" by code_simp
  then show ?thesis
    using two_steps [OF 1 2] system_keeps_ledger [OF two_steps [OF 1 2] sample_system] by force
qed





end
