(* ===== verification/Optimistic.thy ===== *)
theory Optimistic
  imports Sample
begin

text \<open>
  \<open>ExecuteOptimistic\<close> (Fix C): the balance and its version are read, checked, and written only if
  the version still stands. It settles every request like the other executors, but it keeps less
  of the books: it never looks at the currencies of the accounts.
\<close>

section \<open>An attempt\<close>

text \<open>The statements between \<open>pool.Begin\<close> and the end of the transaction; \<open>None\<close> is a stale version.\<close>

definition optimistic_body :: "transfer_request \<Rightarrow> (err + transfer option) prog" where
  "optimistic_body req =
     bindp (query InTx (SelectBalanceVersion (FromAccount req))) (\<lambda>q.
       case scan_int_int (query_row q) of
         Inl e \<Rightarrow> fail_with (if errors_is e ErrNoRows then ErrAccountNotFound else e)
       | Inr (balance, version) \<Rightarrow>
           if sint balance < sint (Amount req) then fail_with ErrInsufficientFunds
           else
             tryp (exec InTx (DebitIfVersion (Amount req) (FromAccount req) version)) (\<lambda>m.
               if m = 0 then return None
               else
                 tryp (exec InTx (CreditById (Amount req) (ToAccount req))) (\<lambda>m.
                   if m = 0 then fail_with ErrAccountNotFound
                   else tryp (insertTransferAndPostings req) (\<lambda>t. return (Some t)))))"

lemma confined_optimistic: "confined (optimistic_body req)"
  unfolding optimistic_body_def insertTransferAndPostings_def write_postings_and_event_def
  by (auto intro!: confined_tryp confined_bindp split: sum.splits)

definition bump_spec :: "int64 \<Rightarrow> int64 \<Rightarrow> db \<Rightarrow> err + unit \<times> db" where
  "bump_spec amt i d =
     (case find_account (sint i) d of
        None \<Rightarrow> Inl ErrAccountNotFound
      | Some a \<Rightarrow>
          if acc_balance a < sint amt then Inl ErrInsufficientFunds
          else if \<not> bigint (acc_version a + 1) then Inl numeric_out_of_range
          else change_balance (acc_balance a - sint amt) (a\<lparr>acc_version := acc_version a + 1\<rparr>) d)"

definition optimistic_spec ::
  "uuid \<Rightarrow> string \<Rightarrow> int \<Rightarrow> uuid \<Rightarrow> transfer_request \<Rightarrow> timestamp \<Rightarrow> db \<Rightarrow> err + transfer \<times> db" where
  "optimistic_spec tid key pid ev req now d =
     (case bump_spec (Amount req) (FromAccount req) d of
        Inl e \<Rightarrow> Inl e
      | Inr (_, d1) \<Rightarrow> finish_spec tid key pid ev req now d1)"

lemma select_balance_version_outcome:
  assumes "pk_ok d"
  shows "stmt_outcome v (SelectBalanceVersion i) d snd =
    (case find_account (sint i) d of
       None \<Rightarrow> Inr ([], d)
     | Some a \<Rightarrow> Inr ([[VInt (acc_balance a), VInt (acc_version a)]], d))"
  by (auto simp: stmt_outcome_def sql_select_balance_version_def accounts_with_id [OF assms] Let_def
      split: option.splits)

lemma debit_if_version_outcome:
  assumes ok: "rows_ok d" and a: "find_account (sint i) d = Some a"
    and v: "sint ver = acc_version a" and funds: "sint amt \<le> acc_balance a"
  shows "stmt_outcome v (DebitIfVersion amt i ver) d fst =
    map_sum id (\<lambda>(u, d'). (1, d')) (bump_spec amt i d)"
proof -
  let ?f = "\<lambda>a. if \<not> bigint (acc_version a + 1) then Inl numeric_out_of_range
            else set_balance (acc_balance a - sint amt) (a\<lparr>acc_version := acc_version a + 1\<rparr>)"
  have id: "?f b = Inr b' \<Longrightarrow> acc_id b' = acc_id b" for b b'
    by (auto simp: set_balance_def split: if_splits)
  have "pk_ok d" using ok by auto
  from update_accounts_by_id [OF this a id, where Q = "\<lambda>b. acc_version b = sint ver"]
  show ?thesis
    using a v funds
    by (auto simp: stmt_outcome_def sql_debit_if_version_def bump_spec_def change_balance_def
        split: sum.splits)
qed

lemma bump_rows_ok:
  assumes ok: "rows_ok d" and x: "bump_spec amt i d = Inr (u, d')"
  shows "rows_ok d'"
proof -
  obtain a where a: "find_account (sint i) d = Some a"
    using x by (auto simp: bump_spec_def split: option.splits)
  with rows_ok_find [OF ok a] x show ?thesis
    by (auto simp: bump_spec_def account_row_ok_def split: if_splits
        intro!: change_balance_rows_ok [OF _ ok])
qed

lemma wp_optimistic:
  assumes ok: "rows_ok d" and now: "now \<in> times_of \<sigma>"
  shows "wp \<sigma> (optimistic_body req) now d (\<lambda>x. \<exists>tid key pid ev. drawn \<sigma> req tid key pid ev \<and>
    x = map_sum id (\<lambda>(t, d'). (Some t, d')) (optimistic_spec tid key pid ev req now d))"
    (is "wp _ _ _ _ ?Q")
  unfolding optimistic_body_def
proof (rule wp_bindp_query [where g = "\<lambda>e. if errors_is e ErrNoRows then ErrAccountNotFound else e"],
    goal_cases)
  case (1 v)
  have pk: "pk_ok d" using ok by auto
  have key: "\<exists>tid key pid ev. drawn \<sigma> req tid key pid ev"
    using 1 by (intro drawn_ex [of "e_uuid v"]) (simp add: env_fits_def)
  let ?bump = "bump_spec (Amount req) (FromAccount req) d"
  show ?case
  proof (cases "find_account (sint (FromAccount req)) d")
    case None
    with key show ?thesis
      by (auto simp: select_balance_version_outcome [OF pk] optimistic_spec_def bump_spec_def intro!: wp_Ret)
  next
    case (Some a)
    have row: "bigint (acc_balance a)" "bigint (acc_version a)"
      using rows_ok_find [OF ok Some] by (auto simp: account_row_ok_def)
    then have sint: "sint (word_of_int (acc_balance a) :: int64) = acc_balance a"
      "sint (word_of_int (acc_version a) :: int64) = acc_version a"
      by (simp_all add: sint_of_bigint)
    show ?thesis
    proof (cases "acc_balance a < sint (Amount req)")
      case True
      with Some key row sint show ?thesis
        by (auto simp: select_balance_version_outcome [OF pk] optimistic_spec_def bump_spec_def intro!: wp_Ret)
    next
      case False
      let ?rest = "tryp (exec InTx (CreditById (Amount req) (ToAccount req))) (\<lambda>m.
        if m = 0 then fail_with ErrAccountNotFound
        else tryp (insertTransferAndPostings req) (\<lambda>t. return (Some t)))"
      have rest: "wp \<sigma> ?rest now d1 ?Q" if d1: "?bump = Inr (u, d1)" for u d1
      proof -
        have "?rest = tryp (tryp (exec InTx (CreditById (Amount req) (ToAccount req))) (\<lambda>n.
            if n = 0 then fail_with ErrAccountNotFound else insertTransferAndPostings req))
          (\<lambda>t. return (Some t))"
          by (simp add: tryp_def bindp_assoc exec_def) (auto simp: tryp_def fun_eq_iff split: sum.splits)
        also have "wp \<sigma> \<dots> now d1 ?Q"
        proof (rule wp_tryp, rule wp_mono [OF wp_credit_and_insert [OF bump_rows_ok [OF ok d1]]], elim exE conjE)
          fix x tid key pid ev
          assume drawn: "drawn \<sigma> req tid key pid ev" and x: "x = finish_spec tid key pid ev req now d1"
          then have "?Q (map_sum id (\<lambda>(t, d'). (Some t, d')) x)" by (auto simp: optimistic_spec_def d1)
          then show "case x of Inl e \<Rightarrow> ?Q (Inl e)
            | Inr (t, d') \<Rightarrow> wp \<sigma> (return (Some t)) now d' ?Q"
            by (cases x) (simp, simp add: wp_Ret case_prod_beta)
        qed
        finally show ?thesis .
      qed
      have "wp \<sigma> (tryp (exec InTx (DebitIfVersion (Amount req) (FromAccount req) (word_of_int (acc_version a))))
          (\<lambda>m. if m = 0 then return None else ?rest)) now d ?Q"
      proof (rule wp_tryp, rule wp_exec)
        fix v
        show "case stmt_outcome v (DebitIfVersion (Amount req) (FromAccount req)
              (word_of_int (acc_version a))) d fst of
            Inl e \<Rightarrow> ?Q (Inl e)
          | Inr (m, d1) \<Rightarrow> wp \<sigma> (if m = 0 then return None else ?rest) now d1 ?Q"
          using debit_if_version_outcome [OF ok Some sint(2)] False key rest
          by (cases ?bump) (auto simp: optimistic_spec_def)
      qed
      with Some False row sint show ?thesis by (simp add: select_balance_version_outcome [OF pk])
    qed
  qed
qed auto

section \<open>ExecuteOptimistic settles\<close>

definition optimistic_posts ::
  "sources \<Rightarrow> transfer_request \<Rightarrow> timestamp \<Rightarrow> db \<Rightarrow> transfer \<Rightarrow> db \<Rightarrow> bool" where
  "optimistic_posts \<sigma> req now d t d' \<longleftrightarrow> now \<in> times_of \<sigma> \<and>
     (\<exists>tid key pid ev. drawn \<sigma> req tid key pid ev \<and> optimistic_spec tid key pid ev req now d = Inr (t, d'))"

definition optimistic_refused ::
  "sources \<Rightarrow> transfer_request \<Rightarrow> timestamp \<Rightarrow> db \<Rightarrow> err \<Rightarrow> bool" where
  "optimistic_refused \<sigma> req now d e \<longleftrightarrow> now \<in> times_of \<sigma> \<and>
     (\<exists>tid key pid ev. drawn \<sigma> req tid key pid ev \<and> optimistic_spec tid key pid ev req now d = Inl e)"

lemma optimistic_postsI:
  "now \<in> times_of \<sigma> \<Longrightarrow> drawn \<sigma> req tid key pid ev \<Longrightarrow>
     optimistic_spec tid key pid ev req now d = Inr (t, d') \<Longrightarrow> optimistic_posts \<sigma> req now d t d'"
  unfolding optimistic_posts_def by blast

lemma optimistic_refusedI:
  "now \<in> times_of \<sigma> \<Longrightarrow> drawn \<sigma> req tid key pid ev \<Longrightarrow>
     optimistic_spec tid key pid ev req now d = Inl e \<Longrightarrow> optimistic_refused \<sigma> req now d e"
  unfolding optimistic_refused_def by blast

interpretation optimistic_tx: tx_attempt \<sigma> "optimistic_body req"
  "\<lambda>now d x d'. \<exists>t. x = Some t \<and> optimistic_posts \<sigma> req now d t d'" "optimistic_refused \<sigma> req" for \<sigma> req
proof unfold_locales
  show "confined (optimistic_body req)" by (rule confined_optimistic)
next
  fix d now
  assume "rows_ok d" and "now \<in> times_of \<sigma>"
  then show "wp \<sigma> (optimistic_body req) now d (\<lambda>x. case x of
      Inl e \<Rightarrow> optimistic_refused \<sigma> req now d e
    | Inr (a, d') \<Rightarrow> \<exists>t. a = Some t \<and> optimistic_posts \<sigma> req now d t d')"
  proof (elim wp_mono [OF wp_optimistic] exE conjE)
    fix x tid key pid ev
    assume "drawn \<sigma> req tid key pid ev"
      and "x = map_sum id (\<lambda>(t, d'). (Some t, d')) (optimistic_spec tid key pid ev req now d)"
    then show "case x of Inl e \<Rightarrow> optimistic_refused \<sigma> req now d e
      | Inr (a, d') \<Rightarrow> \<exists>t. a = Some t \<and> optimistic_posts \<sigma> req now d t d'"
      using \<open>now \<in> times_of \<sigma>\<close>
      by (cases "optimistic_spec tid key pid ev req now d")
        (auto intro: optimistic_postsI optimistic_refusedI)
  qed
qed

lemma change_balance_error:
  "change_balance b a d = Inl e \<Longrightarrow> e = numeric_out_of_range \<or> e = check_violation"
  by (auto simp: change_balance_def set_balance_def split: sum.splits if_splits)

lemma insert_not_retriable: "insert_spec tid key pid ev req now d = Inl e \<Longrightarrow> \<not> isRetriableConflict e"
  by (auto simp: insert_spec_def marshal_error_def isRetriableConflict_def Let_def
      split: option.splits if_splits)

lemma finish_not_retriable: "finish_spec tid key pid ev req now d = Inl e \<Longrightarrow> \<not> isRetriableConflict e"
  using change_balance_error insert_not_retriable
  by (fastforce simp: finish_spec_def credit_spec_def isRetriableConflict_def
      split: option.splits sum.splits)

lemma bump_not_retriable: "bump_spec amt i d = Inl e \<Longrightarrow> \<not> isRetriableConflict e"
  using change_balance_error
  by (fastforce simp: bump_spec_def isRetriableConflict_def split: option.splits if_splits)

lemma optimistic_not_retriable:
  assumes "optimistic_refused \<sigma> req now d e"
  shows "\<not> isRetriableConflict e"
proof -
  obtain tid key pid ev where "optimistic_spec tid key pid ev req now d = Inl e"
    using assms by (auto simp: optimistic_refused_def)
  then show ?thesis
    using bump_not_retriable finish_not_retriable
    by (cases "bump_spec (Amount req) (FromAccount req) d") (auto simp: optimistic_spec_def)
qed

lemma optimistic_round:
  assumes b: "begin_tx orc w = (None, w1)" and q: "run orc (optimistic_body req) w1 = (q, w2)"
    and run: "run orc (optimistic_loop (Suc n) req) w = (r, w')"
  shows "case q of
      Inl e \<Rightarrow> (r, w') = (Inl e, rollback_tx w2) \<or>
        (isRetriableConflict e \<and> run orc (optimistic_loop n req) (rollback_tx w2) = (r, w'))
    | Inr None \<Rightarrow> run orc (optimistic_loop n req) (rollback_tx w2) = (r, w')
    | Inr (Some t) \<Rightarrow>
        (case commit_tx orc w2 of
           (None, w3) \<Rightarrow> (r, w') = (Inr t, w3)
         | (Some e, w3) \<Rightarrow>
             if isRetriableConflict e then run orc (optimistic_loop n req) (rollback_tx w3) = (r, w')
             else (r, w') = (Inl e, rollback_tx w3))"
  using assms
  by (auto simp: optimistic_body_def retry_or_def run_bindp run_tryp
      split: prod.splits sum.splits if_splits option.splits)

interpretation optimistic: retry_loop \<sigma> "\<lambda>n. optimistic_loop n req" "optimistic_posts \<sigma> req"
  "optimistic_refused \<sigma> req" for \<sigma> req
proof unfold_locales
  show "\<exists>m. optimistic_loop 0 req = fail_with (NewErr m)" by simp
next
  fix w orc n r w'
  assume w: "txn w = None" and ok: "rows_ok (tables w)" and fit: "fits \<sigma> orc w"
    and run: "run orc (optimistic_loop (Suc n) req) w = (r, w')"
  let ?settles = "settles (optimistic_posts \<sigma> req) (optimistic_refused \<sigma> req) orc w r w'"
  let ?again = "\<exists>w1. unchanged w w1 \<and> some_fault orc w w1 \<and> run orc (optimistic_loop n req) w1 = (r, w')"
  obtain b w1 where b: "begin_tx orc w = (b, w1)" by fastforce
  show "?settles \<or> ?again"
  proof (cases b)
    case (Some e)
    with b run begin_failed [OF w] show ?thesis by (auto intro!: settles_error)
  next
    case None
    note b = b [unfolded None]
    obtain q w2 where q: "run orc (optimistic_body req) w1 = (q, w2)" by fastforce
    note round = optimistic_round [OF b q run]
    consider e where "q = Inl e" | "q = Inr None" | t where "q = Inr (Some t)"
      by (metis sum.exhaust option.exhaust)
    then show ?thesis
    proof cases
      case (1 e)
      with optimistic_tx.failed_att [OF w ok fit b q [unfolded 1]] round show ?thesis
        by (auto intro: settles_error dest: optimistic_not_retriable)
    next
      case 2
      with optimistic_tx.att_run [OF w ok fit b q] show ?thesis by auto
    next
      case (3 t)
      obtain c w3 where c: "commit_tx orc w2 = (c, w3)" by fastforce
      have "txn w3 = None" using optimistic_tx.commit_att [OF w ok fit b q [unfolded 3] c] by simp
      then have "unchanged w3 w3" "unchanged w3 (rollback_tx w3)"
        by (simp_all add: unchanged_refl unchanged_rollback)
      then show ?thesis
        using optimistic_tx.committed_att [OF w ok fit b q [unfolded 3] c, where x = t
            and eff = "optimistic_posts \<sigma> req" and ref = "optimistic_refused \<sigma> req"] 3 round c
        by (fastforce split: option.splits if_splits)
    qed
  qed
qed

section \<open>The effect\<close>

definition bump_version :: "int \<Rightarrow> db \<Rightarrow> db" where
  "bump_version i d = d\<lparr>accounts :=
     map (\<lambda>a. if acc_id a = i then a\<lparr>acc_version := acc_version a + 1\<rparr> else a) (accounts d)\<rparr>"

lemma bump_version_frame [simp]:
  "transfers (bump_version i d) = transfers d" "postings (bump_version i d) = postings d"
  "idem_keys (bump_version i d) = idem_keys d" "outbox (bump_version i d) = outbox d"
  "map acc_id (accounts (bump_version i d)) = map acc_id (accounts d)"
  "map acc_balance (accounts (bump_version i d)) = map acc_balance (accounts d)"
  by (auto simp: bump_version_def)

lemma find_bump_version:
  "find_account j (bump_version i d) =
    map_option (\<lambda>a. if j = i then a\<lparr>acc_version := acc_version a + 1\<rparr> else a) (find_account j d)"
proof -
  have "find (\<lambda>a. acc_id a = j) (map (\<lambda>a. if acc_id a = i then a\<lparr>acc_version := acc_version a + 1\<rparr> else a) rs) =
    map_option (\<lambda>a. if j = i then a\<lparr>acc_version := acc_version a + 1\<rparr> else a)
      (find (\<lambda>a. acc_id a = j) rs)" for rs
    by (induction rs) auto
  then show ?thesis by (simp add: find_account_def bump_version_def)
qed

text \<open>A transfer posted by the optimistic strategy: its currency is the one of the request.\<close>

definition optimistic_posted :: "transfer_request \<Rightarrow> db \<Rightarrow> transfer \<Rightarrow> db \<Rightarrow> bool" where
  "optimistic_posted req d t d' \<longleftrightarrow>
     (\<exists>now c tid key pid ev a. char3 (Currency req) = Some c \<and> t = new_transfer tid key c req now \<and>
        fundable pid ev t d \<and> find_account (sint (FromAccount req)) d = Some a \<and>
        bigint (acc_version a + 1) \<and>
        d' = bump_version (sint (FromAccount req)) (posted_db pid ev t d))"

lemma optimistic_spec_Inr:
  assumes ok: "rows_ok d" and x: "optimistic_spec tid key pid ev req now d = Inr (t, d')"
  shows "optimistic_posted req d t d'"
proof -
  let ?f = "sint (FromAccount req)" and ?t = "sint (ToAccount req)" and ?n = "sint (Amount req)"
  have pk: "pk_ok d" using ok by auto
  obtain d1 where d1: "bump_spec (Amount req) (FromAccount req) d = Inr ((), d1)"
    and fin: "finish_spec tid key pid ev req now d1 = Inr (t, d')"
    using x by (auto simp: optimistic_spec_def split: sum.splits)
  obtain d2 where d2: "credit_spec (Amount req) (ToAccount req) d1 = Inr ((), d2)"
    and ins: "insert_spec tid key pid ev req now d2 = Inr (t, d')"
    using fin by (auto simp: finish_spec_def split: sum.splits)
  obtain a where a: "find_account ?f d = Some a" and funds: "?n \<le> acc_balance a"
    and ver: "bigint (acc_version a + 1)"
    and d1': "d1 = put_account (a\<lparr>acc_version := acc_version a + 1, acc_balance := acc_balance a - ?n\<rparr>) d"
    using d1 by (auto simp: bump_spec_def split: option.splits if_splits dest!: change_balance_ok)
  have ida: "acc_id a = ?f" using find_account_Some [OF a] by simp
  obtain c where c: "char3 (Currency req) = Some c"
    using ins by (auto simp: insert_spec_def split: option.splits)
  have chk: "0 < ?n" "FromAccount req \<noteq> ToAccount req" "find_account ?t d2 \<noteq> None"
    "fresh_ids tid key pid ev d2" and t: "t = new_transfer tid key c req now"
    and d': "d' = record_transfer pid ev t d2"
    using ins c by (auto simp: insert_spec_def Let_def fresh_ids_def split: if_splits)
  then have ft: "?f \<noteq> ?t" by (simp add: sint_eq_iff)
  obtain b where b1: "find_account ?t d1 = Some b" and big: "bigint (acc_balance b + ?n)"
    and d2': "d2 = put_account (b\<lparr>acc_balance := acc_balance b + ?n\<rparr>) d1"
    using d2 by (auto simp: credit_spec_def split: option.splits dest!: change_balance_ok)
  have b: "find_account ?t d = Some b" using b1 ft ida by (simp add: d1' find_put_account split: option.splits if_splits)
  have idb: "acc_id b = ?t" using find_account_Some [OF b] by simp
  have "d2 = bump_version ?f (move_funds ?f ?t ?n d)"
  proof -
    have "(\<lambda>r. if acc_id r = ?t then b\<lparr>acc_balance := acc_balance b + ?n\<rparr> else r)
          (if acc_id r = ?f then a\<lparr>acc_version := acc_version a + 1, acc_balance := acc_balance a - ?n\<rparr> else r) =
        (\<lambda>a. if acc_id a = ?f then a\<lparr>acc_version := acc_version a + 1\<rparr> else a)
          (r\<lparr>acc_balance := acc_balance r + funds_delta ?f ?t ?n (acc_id r)\<rparr>)"
      if "r \<in> set (accounts d)" for r
      using find_account_unique [OF pk a that] find_account_unique [OF pk b that] ft ida idb
      by (auto simp: funds_delta_def)
    with ida idb show ?thesis
      by (simp add: d2' d1' put_account_def move_funds_def bump_version_def)
  qed
  moreover have "fresh_ids tid key pid ev d" using chk(4) by (simp add: d2' d1' fresh_ids_def)
  then have "fundable pid ev t d"
    using a b chk funds big by (auto simp: fundable_def t new_transfer_def)
  moreover have "record_transfer pid ev t (bump_version ?f (move_funds ?f ?t ?n d)) =
      bump_version ?f (posted_db pid ev t d)"
    using t by (simp add: posted_db_def record_transfer_def bump_version_def webhook_of_def
        find_bump_version [unfolded bump_version_def] option.case_eq_if option.map_sel)
  ultimately show ?thesis
    unfolding optimistic_posted_def using c t d' a ver by blast
qed

section \<open>The books\<close>

definition sound_ledger :: "(int \<Rightarrow> int) \<Rightarrow> db \<Rightarrow> bool" where
  "sound_ledger seed d \<longleftrightarrow> sound_books seed d \<and> keys_settled d"

lemma ledger_ok_sound: "ledger_ok seed d \<longleftrightarrow> sound_ledger seed d \<and> one_currency d"
  by (auto simp: ledger_ok_def sound_ledger_def books_ok_sound)

lemma sound_bump:
  assumes ok: "sound_books seed d" and a: "find_account i d = Some a" and v: "bigint (acc_version a + 1)"
  shows "sound_books seed (bump_version i d)"
proof -
  have pk: "pk_ok d" using ok by (simp add: sound_books_def constraints_pk)
  have has: "has_account j (bump_version i d) = has_account j d" for j
    unfolding has_account_def by (metis bump_version_frame(5) list.set_map)
  have rows: "r \<in> set (accounts (bump_version i d)) \<Longrightarrow> \<exists>r0 \<in> set (accounts d).
      r = r0 \<or> (acc_id r0 = i \<and> r = r0\<lparr>acc_version := acc_version r0 + 1\<rparr>)" for r
    by (auto simp: bump_version_def)
  have "account_row_ok r" if r: "r \<in> set (accounts (bump_version i d))" for r
  proof -
    obtain r0 where r0: "r0 \<in> set (accounts d)"
      and "r = r0 \<or> (acc_id r0 = i \<and> r = r0\<lparr>acc_version := acc_version r0 + 1\<rparr>)"
      using rows [OF r] by blast
    moreover have "account_row_ok r0" using ok r0 by (simp add: sound_books_def constraints_ok_def)
    ultimately show ?thesis using find_account_unique [OF pk a r0] v by (auto simp: account_row_ok_def)
  qed
  then have "constraints_ok (bump_version i d)"
    using ok unfolding sound_books_def constraints_ok_def has bump_version_frame by simp
  moreover have "booked seed (bump_version i d)"
    using ok rows by (fastforce simp: sound_books_def booked_def journal_def)
  ultimately show ?thesis
    using ok by (simp add: sound_books_def conserved_def double_entry_def entries_of_def events_match_def)
qed

lemma optimistic_keeps_sound:
  assumes ok: "sound_ledger seed d" and p: "optimistic_posted req d t d'"
  shows "sound_ledger seed d' \<and> total_balance d' = total_balance d"
proof -
  obtain pid ev a where f: "fundable pid ev t d" and a: "find_account (sint (FromAccount req)) d = Some a"
    and v: "bigint (acc_version a + 1)"
    and d': "d' = bump_version (sint (FromAccount req)) (posted_db pid ev t d)"
    using p by (auto simp: optimistic_posted_def)
  have rows: "rows_ok d" using ok by (simp add: sound_ledger_def sound_books_def constraints_rows)
  have "sound_books seed (posted_db pid ev t d)"
    using ok by (intro posted_sound [OF _ f]) (simp add: sound_ledger_def)
  moreover have "\<exists>a'. find_account (sint (FromAccount req)) (posted_db pid ev t d) = Some a' \<and>
      acc_version a' = acc_version a"
    using a find_move_funds [of _ "sint (T_FromAccount t)" "sint (T_ToAccount t)" "sint (T_Amount t)" d]
    by (simp add: find_account_def)
  ultimately have "sound_books seed d'" unfolding d' using sound_bump v by metis
  moreover have "keys_settled d'"
    using ok by (auto simp: sound_ledger_def keys_settled_def key_settled_def d')
  moreover have "total_balance d' = total_balance d"
    using posted_total [OF rows f] by (simp add: total_balance_def d' del: posted_db_frame)
  ultimately show ?thesis by (simp add: sound_ledger_def)
qed

lemma optimistic_settles:
  assumes w: "txn w = None" and ok: "rows_ok (tables w)" and fit: "fits \<sigma> orc w"
    and run: "run orc (ExecuteOptimistic req) w = (r, w')" and key: "IdempotencyKey req = []"
  shows "settles (optimistic_posts \<sigma> req) (optimistic_refused \<sigma> req) orc w r w'"
  using run key
  by (intro optimistic.loop_settles [OF w ok fit]) (auto simp: ExecuteOptimistic_def maxRetries_def)

lemma optimistic_posts_posted: "rows_ok d \<Longrightarrow> optimistic_posts \<sigma> req now d t d' \<Longrightarrow> optimistic_posted req d t d'"
  unfolding optimistic_posts_def using optimistic_spec_Inr by blast

lemma optimistic_effect:
  assumes w: "txn w = None" and ok: "sound_ledger seed (tables w)"
    and run: "run orc (ExecuteOptimistic req) w = (r, w')"
  shows "txn w' = None \<and>
    (case r of
       Inl e \<Rightarrow> tables w' = tables w \<or>
         (lost_reply orc w w' \<and> (\<exists>t. optimistic_posted req (tables w) t (tables w')))
     | Inr t \<Rightarrow> optimistic_posted req (tables w) t (tables w'))"
proof (cases "IdempotencyKey req = []")
  case False
  with run w show ?thesis by (auto simp: ExecuteOptimistic_def)
next
  case True
  have rows: "rows_ok (tables w)" using ok by (simp add: sound_ledger_def sound_books_def constraints_rows)
  from optimistic_settles [OF w rows fits_sources_of run True] optimistic_posts_posted [OF rows]
  show ?thesis by (fastforce simp: settles_def split: sum.splits)
qed

text \<open>The funds and the accounts are there; nothing is said of their currencies.\<close>

definition covered :: "transfer_request \<Rightarrow> db \<Rightarrow> bool" where
  "covered req d \<longleftrightarrow>
     (\<exists>a b. find_account (sint (FromAccount req)) d = Some a \<and>
            find_account (sint (ToAccount req)) d = Some b \<and>
            FromAccount req \<noteq> ToAccount req \<and> 0 < sint (Amount req) \<and>
            sint (Amount req) \<le> acc_balance a \<and> bigint (acc_balance b + sint (Amount req)) \<and>
            bigint (acc_version a + 1))"

lemma optimistic_not_refused:
  assumes ok: "rows_ok d" and chk: "covered req d" and c: "char3 (Currency req) = Some c"
    and key: "IdempotencyKey req = []" and fresh: "fresh_sources \<sigma> d"
  shows "\<not> optimistic_refused \<sigma> req now d e"
proof
  assume "optimistic_refused \<sigma> req now d e"
  then obtain tid key pid ev where k: "drawn \<sigma> req tid key pid ev" and now: "now \<in> times_of \<sigma>"
    and x: "optimistic_spec tid key pid ev req now d = Inl e"
    by (auto simp: optimistic_refused_def)
  let ?f = "sint (FromAccount req)" and ?t = "sint (ToAccount req)" and ?n = "sint (Amount req)"
  obtain a b where a: "find_account ?f d = Some a" and b: "find_account ?t d = Some b"
    and chk': "FromAccount req \<noteq> ToAccount req" "0 < ?n" "?n \<le> acc_balance a"
      "bigint (acc_balance b + ?n)" "bigint (acc_version a + 1)"
    using chk by (auto simp: covered_def)
  have oka: "account_row_ok a" and okb: "account_row_ok b" using ok a b by (auto dest: rows_ok_find)
  have ft: "?f \<noteq> ?t" using chk' by (simp add: sint_eq_iff)
  have ida: "acc_id a = ?f" using find_account_Some [OF a] by simp
  let ?d1 = "put_account (a\<lparr>acc_version := acc_version a + 1, acc_balance := acc_balance a - ?n\<rparr>) d"
  let ?d2 = "put_account (b\<lparr>acc_balance := acc_balance b + ?n\<rparr>) ?d1"
  have "bump_spec (Amount req) (FromAccount req) d = Inr ((), ?d1)"
    using a chk' oka
    by (auto simp: bump_spec_def change_balance_def set_balance_def account_row_ok_def bigint_def)
  moreover have "find_account ?t ?d1 = Some b" using b ft ida by (simp add: find_put_account)
  then have "credit_spec (Amount req) (ToAccount req) ?d1 = Inr ((), ?d2)"
    using chk' okb by (simp add: credit_spec_def change_balance_def set_balance_def account_row_ok_def)
  moreover have "fresh_ids tid key pid ev d"
    using drawn_fresh_keyless [OF fresh k key] .
  then have "insert_spec tid key pid ev req now ?d2 \<noteq> Inl e"
    using c chk' a b now fresh
    by (auto simp: insert_spec_def Let_def fresh_ids_def find_put_account fresh_sources_def)
  ultimately show False using x by (simp add: optimistic_spec_def finish_spec_def)
qed

section \<open>Properties\<close>

text \<open>
  C33. \<open>ExecuteOptimistic\<close> is all or nothing too: it posts the whole transfer, or returns an error
  and changes nothing, unless the reply to a commit was lost. In every case the ledger stays in
  order but for the currencies, and the sum of the balances stays the same.
\<close>

theorem optimistic_all_or_nothing:
  assumes "txn w = None" and "sound_ledger seed (tables w)"
  shows "case run orc (ExecuteOptimistic req) w of (r, w') \<Rightarrow>
    txn w' = None \<and> sound_ledger seed (tables w') \<and>
    total_balance (tables w') = total_balance (tables w) \<and>
    (case r of
       Inl e \<Rightarrow> tables w' = tables w \<or>
         (lost_reply orc w w' \<and> (\<exists>t. optimistic_posted req (tables w) t (tables w')))
     | Inr t \<Rightarrow> optimistic_posted req (tables w) t (tables w'))"
proof -
  obtain r w' where r: "run orc (ExecuteOptimistic req) w = (r, w')" by fastforce
  note eff = optimistic_effect [OF assms r]
  then have "tables w' = tables w \<or> (\<exists>t. optimistic_posted req (tables w) t (tables w'))"
    by (auto split: sum.splits)
  then have "sound_ledger seed (tables w') \<and> total_balance (tables w') = total_balance (tables w)"
    using optimistic_keeps_sound [OF assms(2)] assms(2) by auto
  with eff r show ?thesis by simp
qed

text \<open>A transfer without a key from a dollar account to a euro account.\<close>

definition euro_db :: db where
  "euro_db = sample_db\<lparr>accounts := [alice, bob\<lparr>acc_currency := ''EUR''\<rparr>]\<rparr>"

definition euro_world :: world where
  "euro_world = sample_world\<lparr>tables := euro_db\<rparr>"

definition keyless :: transfer_request where
  "keyless = pay\<lparr>IdempotencyKey := []\<rparr>"

lemma euro_sound: "txn euro_world = None" "tables euro_world = euro_db" "sound_ledger sample_seed euro_db"
proof -
  have "char3 ''USD'' = Some ''USD''" "char3 ''EUR'' = Some ''EUR''" by code_simp+
  then show "sound_ledger sample_seed euro_db"
    by (simp add: sound_ledger_def sound_books_def constraints_ok_def euro_db_def sample_db_def alice_def
        bob_def account_row_ok_def booked_def journal_def sample_seed_def conserved_def bigint_def
        double_entry_def events_match_def keys_settled_def)
qed (simp_all add: euro_world_def)

theorem optimistic_all_or_nothing_witness:
  "total_balance (tables (snd (run (losing 7) (ExecuteOptimistic keyless) euro_world))) = 1500"
proof -
  have "total_balance euro_db = 1500" by code_simp
  then show ?thesis
    using optimistic_all_or_nothing [OF euro_sound(1), of sample_seed "losing 7" keyless] euro_sound
    by (auto simp: case_prod_beta simp del: run.simps)
qed

text \<open>
  C40. \<open>ExecuteOptimistic\<close> never compares currencies: with the funds and the accounts there, it
  posts the transfer in the currency of the request, whatever the currencies of the two accounts.
\<close>

theorem optimistic_posts_any_currency:
  assumes "txn w = None" and "sound_ledger seed (tables w)" and "no_faults orc"
    and "IdempotencyKey req = []" and "covered req (tables w)" and "char3 (Currency req) = Some c"
    and "fresh_sources (sources_of orc w) (tables w)"
  shows "case run orc (ExecuteOptimistic req) w of (r, w') \<Rightarrow>
    \<exists>t. r = Inr t \<and> T_Currency t = c \<and> optimistic_posted req (tables w) t (tables w')"
proof -
  obtain r w' where r: "run orc (ExecuteOptimistic req) w = (r, w')" by fastforce
  have rows: "rows_ok (tables w)"
    using assms(2) by (simp add: sound_ledger_def sound_books_def constraints_rows)
  have "settles (optimistic_posts (sources_of orc w) req) (optimistic_refused (sources_of orc w) req)
      orc w r w'"
    by (rule optimistic_settles [OF assms(1) rows fits_sources_of r assms(4)])
  then obtain t where t: "r = Inr t"
    using assms(3) optimistic_not_refused [OF rows assms(5,6,4,7)] by (auto elim!: settles_no_faults)
  then have p: "optimistic_posted req (tables w) t (tables w')"
    using optimistic_effect [OF assms(1,2) r] by simp
  then have "T_Currency t = c" using assms(6) by (auto simp: optimistic_posted_def)
  with t p r show ?thesis by simp
qed

theorem optimistic_posts_any_currency_witness:
  "\<exists>t w'. run calm (ExecuteOptimistic keyless) euro_world = (Inr t, w') \<and> T_Currency t = ''USD'' \<and>
     map acc_currency (accounts (tables euro_world)) = [''USD'', ''EUR''] \<and>
     fst (run calm (Execute keyless) euro_world) = Inl ErrCurrencyMismatch"
proof -
  have "find_account 1 euro_db = Some alice" "find_account 2 euro_db = Some (bob\<lparr>acc_currency := ''EUR''\<rparr>)"
    by code_simp+
  then have "covered keyless euro_db"
    by (simp add: covered_def keyless_def pay_def alice_def bob_def bigint_def)
  moreover have "char3 (Currency keyless) = Some ''USD''" by code_simp
  moreover have "IdempotencyKey keyless = []" by (simp add: keyless_def)
  moreover have "fresh_sources (sources_of calm euro_world) euro_db"
    by (auto simp: fresh_sources_def sources_of_def euro_db_def sample_db_def calm_def rfc3339_ok_def)
  moreover have "fst (run calm (Execute keyless) euro_world) = Inl ErrCurrencyMismatch" by code_simp
  moreover have "map acc_currency (accounts euro_db) = [''USD'', ''EUR'']" by code_simp
  ultimately show ?thesis
    using optimistic_posts_any_currency [OF euro_sound(1), of sample_seed calm keyless "''USD''"]
      euro_sound calm_no_faults
    by (auto simp: case_prod_beta prod_eq_iff simp del: run.simps)
qed

end
