(* ===== verification/Loadtest.thy ===== *)
theory Loadtest
  imports System Optimistic
begin

text \<open>
  \<open>cmd/loadtest\<close>: seeding accounts, the workers' transfers, the check of the invariants. Which
  worker takes a job is left to a schedule, so that jobs of the workers interleave in any order; a
  transfer itself is not interrupted. Flags and the printed throughput and quantiles are left out;
  the histogram library is a parameter, a histogram being the list of the values recorded.
\<close>

section \<open>Seeding\<close>

definition seedBalance :: int64 where
  "seedBalance = 10000000"

text \<open>\<open>log.Fatalf\<close> ends the process with the message and the error.\<close>

primrec seed_loop :: "nat \<Rightarrow> nat \<Rightarrow> int64 list \<Rightarrow> (err + int64 list) prog" where
  "seed_loop i 0 ids = return ids"
| "seed_loop i (Suc n) ids =
     bindp (CreateAccount (''load-acct-'' @ itoa (int i)) ''INR'' None) (\<lambda>r. case r of
       Inl e \<Rightarrow> fail_with (Wrapped ''create account'' e)
     | Inr acc \<Rightarrow>
         bindp (exec Pool (SetBalance seedBalance (A_ID acc))) (\<lambda>q. case q of
           Inl e \<Rightarrow> fail_with (Wrapped ''fund account'' e)
         | Inr _ \<Rightarrow> seed_loop (Suc i) n (ids @ [A_ID acc])))"

definition seedAccounts :: "nat \<Rightarrow> (err + int64 list) prog" where
  "seedAccounts n = seed_loop 0 n []"

section \<open>Transfers\<close>

text \<open>The generator of a worker, as the values it draws; \<open>Intn\<close> brings one into range.\<close>

type_synonym rng = "nat \<Rightarrow> nat"

definition Intn :: "rng \<Rightarrow> nat \<Rightarrow> nat \<Rightarrow> nat" where
  "Intn rng k n = rng k mod n"

text \<open>
  \<open>to\<close> is drawn until it differs from \<open>from\<close>; the value is the account and the draws used.
  If that never happens, the loop does not end: \<open>None\<close>.
\<close>

partial_function (option) pick_to :: "int64 list \<Rightarrow> int64 \<Rightarrow> rng \<Rightarrow> nat \<Rightarrow> (int64 \<times> nat) option" where
  "pick_to ids from rng k =
     (let to = ids ! Intn rng k (length ids)
      in if to = from then pick_to ids from rng (Suc k) else Some (to, Suc k))"

declare pick_to.simps [code]

definition next_request :: "int64 list \<Rightarrow> rng \<Rightarrow> nat \<Rightarrow> (transfer_request \<times> nat) option" where
  "next_request ids rng k =
     (let from = ids ! Intn rng k (length ids)
      in (case pick_to ids from rng (Suc k) of
            None \<Rightarrow> None
          | Some (to, k') \<Rightarrow>
              Some (\<lparr>FromAccount = from, ToAccount = to, Amount = of_nat (Intn rng k' 500 + 1),
                     Currency = ''INR'', IdempotencyKey = [], RequestHash = []\<rparr>, Suc k')))"

definition no_value :: "err + 'a \<Rightarrow> err option" where
  "no_value r = (case r of Inl e \<Rightarrow> Some e | Inr _ \<Rightarrow> None)"

definition run_transfer :: "string \<Rightarrow> transfer_request \<Rightarrow> err option prog" where
  "run_transfer strategy req =
     (if strategy = ''select_for_update'' then bindp (ExecuteWithForUpdate req) (\<lambda>r. Ret (no_value r))
      else if strategy = ''optimistic'' then bindp (ExecuteOptimistic req) (\<lambda>r. Ret (no_value r))
      else bindp (Execute req) (\<lambda>r. Ret (no_value r)))"

text \<open>
  \<open>RecordValue\<close> of the histogram library is a parameter: whether it accepts a value. A value it
  does not accept is recorded as the highest trackable one.
\<close>

definition highestTrackable :: int where
  "highestTrackable = 30000000"

definition record_value :: "(int \<Rightarrow> bool) \<Rightarrow> int list \<Rightarrow> int \<Rightarrow> int list" where
  "record_value accepts hist micros =
     (if accepts micros then hist @ [micros]
      else if accepts highestTrackable then hist @ [highestTrackable] else hist)"

text \<open>
  A worker: its generator, the number of draws made and its histogram. The body of its loop, with
  whether an error was counted. \<open>None\<close> if it does not come back: \<open>rng.Intn(0)\<close> panics, or the
  choice of \<open>to\<close> does not end.
\<close>

type_synonym worker = "rng \<times> nat \<times> int list"

definition run_job ::
  "string \<Rightarrow> int64 list \<Rightarrow> (int \<Rightarrow> bool) \<Rightarrow> worker \<Rightarrow> (worker \<times> bool) option prog" where
  "run_job strategy ids accepts x =
     (case x of (rng, k, hist) \<Rightarrow>
       if ids = [] then Ret None
       else
        (case next_request ids rng k of
           None \<Rightarrow> Ret None
         | Some (req, k') \<Rightarrow>
             bindp time_Now (\<lambda>t0.
             bindp (run_transfer strategy req) (\<lambda>err.
             bindp time_Now (\<lambda>t1.
               Ret (Some ((rng, k', record_value accepts hist (t1 - t0)),
                          err \<noteq> None \<and> err \<noteq> Some ErrInsufficientFunds)))))))"

text \<open>The jobs of the channel; \<open>sched\<close> tells which worker takes a job.\<close>

primrec jobs_loop ::
  "string \<Rightarrow> int64 list \<Rightarrow> (int \<Rightarrow> bool) \<Rightarrow> (nat \<Rightarrow> nat) \<Rightarrow> nat \<Rightarrow> worker list \<Rightarrow> int64 \<Rightarrow>
     (int64 \<times> worker list) option prog" where
  "jobs_loop strategy ids accepts sched 0 ws errors = Ret (Some (errors, ws))"
| "jobs_loop strategy ids accepts sched (Suc n) ws errors =
     (let i = sched n mod length ws
      in bindp (run_job strategy ids accepts (ws ! i)) (\<lambda>r. case r of
           None \<Rightarrow> Ret None
         | Some (x, failed) \<Rightarrow>
             jobs_loop strategy ids accepts sched n (ws[i := x]) (if failed then errors + 1 else errors)))"

definition runTransfers ::
  "string \<Rightarrow> int64 list \<Rightarrow> (int \<Rightarrow> bool) \<Rightarrow> (nat \<Rightarrow> nat) \<Rightarrow> nat \<Rightarrow> rng list \<Rightarrow>
     (int64 \<times> int list) option prog" where
  "runTransfers strategy ids accepts sched n rngs =
     (if rngs = [] then Ret (Some (0, []))
      else
        bindp (jobs_loop strategy ids accepts sched n (map (\<lambda>rng. (rng, 0, [])) rngs) 0) (\<lambda>r. case r of
          None \<Rightarrow> Ret None
        | Some (errors, ws) \<Rightarrow> Ret (Some (errors, concat (map (\<lambda>(rng, k, hist). hist) ws)))))"

section \<open>Checking\<close>

text \<open>
  The variables of the loop after a scan: a column that does not fit ends the scan and closes the
  rows, what was scanned before it stays.
\<close>

definition scan_drift_vars :: "sqlval list \<Rightarrow> (int64 \<times> int64 \<times> int64) \<times> bool" where
  "scan_drift_vars row =
     (case row of
        [i, b, p] \<Rightarrow>
          (case cell_int i of
             Inl _ \<Rightarrow> ((0, 0, 0), False)
           | Inr x \<Rightarrow>
               (case cell_int b of
                  Inl _ \<Rightarrow> ((x, 0, 0), False)
                | Inr y \<Rightarrow>
                    (case cell_int p of
                       Inl _ \<Rightarrow> ((x, y, 0), False)
                     | Inr z \<Rightarrow> ((x, y, z), True))))
      | _ \<Rightarrow> ((0, 0, 0), False))"

fun drift_loop :: "sqlval list list \<Rightarrow> string \<times> nat" where
  "drift_loop [] = ([], 0)"
| "drift_loop (row # rows) =
     (case scan_drift_vars row of
        ((i, bal, j), scanned) \<Rightarrow>
          (case (if scanned then drift_loop rows else ([], 0)) of
             (out, n) \<Rightarrow>
               (''  DRIFT account '' @ itoa (sint i) @ '': balance='' @ itoa (sint bal) @
                '', journal_sum='' @ itoa (sint j) @ newline @ out, Suc n)))"

definition check_report :: "int \<Rightarrow> string \<Rightarrow> nat \<Rightarrow> int \<Rightarrow> string" where
  "check_report sumPostings drifts n negatives =
     drifts @
     ''Conservation (SUM postings):   '' @ itoa sumPostings @ ''  (want 0)'' @ newline @
     ''Balance drift accounts:         '' @ itoa (int n) @ ''  (want 0)'' @ newline @
     ''Negative balances:              '' @ itoa negatives @ ''  (want 0)'' @ newline @
     (if sumPostings \<noteq> 0 \<or> n \<noteq> 0 \<or> negatives \<noteq> 0
      then newline @ ''*** INVARIANT VIOLATIONS DETECTED ***'' @ newline
      else newline @ ''Invariant violations: 0 '' @ tick_mark @ newline)"

definition checkInvariants :: "int64 list \<Rightarrow> (err + string) prog" where
  "checkInvariants ids =
     tryp (bindp (query Pool SumPostings)
             (\<lambda>q. Ret (wrap_err ''conservation check'' (scan_int (query_row q))))) (\<lambda>sumPostings.
     tryp (bindp (query Pool (SelectSeedDrift ids seedBalance))
             (\<lambda>q. Ret (wrap_err ''balance integrity check'' q))) (\<lambda>rows.
     case drift_loop rows of (out, driftCount) \<Rightarrow>
     tryp (bindp (query Pool (CountNegativeOf ids))
             (\<lambda>q. Ret (wrap_err ''negative balance check'' (scan_int (query_row q))))) (\<lambda>negCount.
     return (check_report (sint sumPostings) out driftCount (sint negCount)))))"

text \<open>The run as a whole: it ends by a fatal error, not at all, or with the report.\<close>

datatype load_result = Fatal err | Stuck | Checked int64 "int list" string

definition loadtest ::
  "string \<Rightarrow> nat \<Rightarrow> (int \<Rightarrow> bool) \<Rightarrow> (nat \<Rightarrow> nat) \<Rightarrow> nat \<Rightarrow> rng list \<Rightarrow> load_result prog" where
  "loadtest strategy nAccounts accepts sched nTransfers rngs =
     bindp (seedAccounts nAccounts) (\<lambda>r. case r of
       Inl e \<Rightarrow> Ret (Fatal e)
     | Inr accountIDs \<Rightarrow>
         bindp (runTransfers strategy accountIDs accepts sched nTransfers rngs) (\<lambda>t. case t of
           None \<Rightarrow> Ret Stuck
         | Some (errors, hist) \<Rightarrow>
             bindp (checkInvariants accountIDs) (\<lambda>c. case c of
               Inl e \<Rightarrow> Ret (Fatal e)
             | Inr report \<Rightarrow> Ret (Checked errors hist report))))"

section \<open>The choice of accounts\<close>

lemma pick_to_other:
  assumes "pick_to ids from rng k = Some y"
  shows "fst y \<noteq> from \<and> (\<exists>j \<ge> k. fst y = ids ! Intn rng j (length ids))"
proof (rule pick_to.raw_induct [OF _ assms,
      where P = "\<lambda>ids from rng k y. fst y \<noteq> from \<and> (\<exists>j \<ge> k. fst y = ids ! Intn rng j (length ids))"])
  fix pick :: "int64 list \<Rightarrow> int64 \<Rightarrow> rng \<Rightarrow> nat \<Rightarrow> (int64 \<times> nat) option"
  fix ids :: "int64 list" and src rng k and y :: "int64 \<times> nat"
  let ?P = "\<lambda>k. fst y \<noteq> src \<and> (\<exists>j \<ge> k. fst y = ids ! Intn rng j (length ids))"
  assume IH: "\<And>ids from rng k y. pick ids from rng k = Some y \<Longrightarrow>
      fst y \<noteq> from \<and> (\<exists>j \<ge> k. fst y = ids ! Intn rng j (length ids))"
    and y: "(let to = ids ! Intn rng k (length ids)
      in if to = src then pick ids src rng (Suc k) else Some (to, Suc k)) = Some y"
  show "?P k"
  proof (cases "ids ! Intn rng k (length ids) = src")
    case True
    then have "pick ids src rng (Suc k) = Some y" using y by (simp add: Let_def)
    from IH [OF this] show ?thesis by (meson Suc_leD)
  next
    case False
    then show ?thesis using y by (auto simp: Let_def)
  qed
qed

lemma pick_to_ends:
  assumes "ids ! Intn rng j (length ids) \<noteq> from" and "k \<le> j"
  shows "\<exists>y. pick_to ids from rng k = Some y"
  using assms(2)
proof (induction rule: inc_induct)
  case base
  show ?case using assms(1) by (subst pick_to.simps) (simp add: Let_def)
next
  case (step n)
  then show ?case by (subst pick_to.simps) (auto simp: Let_def)
qed

lemma Intn_less: "0 < n \<Longrightarrow> Intn rng k n < n"
  by (simp add: Intn_def)

lemma pick_to_iff:
  "(\<exists>y. pick_to ids from rng k = Some y) \<longleftrightarrow> (\<exists>j \<ge> k. ids ! Intn rng j (length ids) \<noteq> from)"
  (is "?ends \<longleftrightarrow> ?other")
proof
  show "?ends \<Longrightarrow> ?other" using pick_to_other by fastforce
  show "?other \<Longrightarrow> ?ends" using pick_to_ends by blast
qed

lemma next_request_ends:
  "(\<exists>y. next_request ids rng k = Some y) \<longleftrightarrow>
    (\<exists>j > k. ids ! Intn rng j (length ids) \<noteq> ids ! Intn rng k (length ids))"
proof -
  have "(\<exists>y. next_request ids rng k = Some y) \<longleftrightarrow>
      (\<exists>y. pick_to ids (ids ! Intn rng k (length ids)) rng (Suc k) = Some y)"
    by (auto simp: next_request_def Let_def split: option.splits)
  then show ?thesis unfolding pick_to_iff Suc_le_eq .
qed

lemma one_account_stuck: "length ids = 1 \<Longrightarrow> next_request ids rng k = None"
proof -
  assume one: "length ids = 1"
  then have "Intn rng j (length ids) = 0" for j by (simp add: Intn_def)
  then have "\<not> (\<exists>y. next_request ids rng k = Some y)" unfolding next_request_ends by simp
  then show ?thesis by (cases "next_request ids rng k") auto
qed

lemma next_request_proper:
  assumes ids: "ids \<noteq> []" and r: "next_request ids rng k = Some (req, k')"
  shows "FromAccount req \<in> set ids" "ToAccount req \<in> set ids" "FromAccount req \<noteq> ToAccount req"
    "1 \<le> sint (Amount req)" "sint (Amount req) \<le> 500" "IdempotencyKey req = []"
proof -
  obtain to k1 where p: "pick_to ids (ids ! Intn rng k (length ids)) rng (Suc k) = Some (to, k1)"
    and req: "req = \<lparr>FromAccount = ids ! Intn rng k (length ids), ToAccount = to,
      Amount = of_nat (Intn rng k1 500 + 1), Currency = ''INR'', IdempotencyKey = [], RequestHash = []\<rparr>"
    using r by (auto simp: next_request_def Let_def split: option.splits)
  have n: "ids ! Intn rng j (length ids) \<in> set ids" for j using ids by (simp add: Intn_def)
  have to: "to \<noteq> ids ! Intn rng k (length ids)" "\<exists>j. to = ids ! Intn rng j (length ids)"
    using pick_to_other [OF p] by auto
  show "FromAccount req \<in> set ids" "ToAccount req \<in> set ids" "FromAccount req \<noteq> ToAccount req"
    "IdempotencyKey req = []"
    using n to by (auto simp: req)
  let ?m = "int (Intn rng k1 500 + 1)"
  have m: "1 \<le> ?m" "?m \<le> 500" using Intn_less [of 500 rng k1] by simp_all
  have "(of_nat (Intn rng k1 500 + 1) :: int64) = word_of_int ?m" by simp
  moreover have "bigint ?m" using m by (simp add: bigint_def)
  ultimately have "sint (Amount req) = ?m" unfolding req by (simp only: sint_of_bigint transfer_request.simps)
  with m show "1 \<le> sint (Amount req)" "sint (Amount req) \<le> 500" by simp_all
qed

section \<open>Seeding keeps the ledger\<close>

lemma CreateAccount_success:
  assumes run: "run orc (CreateAccount name cur url) w = (Inr a, w')"
  shows "\<exists>c now. char3 cur = Some c \<and> \<not> has_account (acc_seq w) (tables w) \<and> txn w' = txn w \<and>
    sint (A_ID a) = acc_seq w \<and>
    tables w' = add_account (new_account (acc_seq w) name c url now) (tables w)"
proof -
  let ?s = "InsertAccount name cur url"
  obtain q where q: "run orc (query Pool ?s) w = (q, w')" and a: "Inr a = scan_account (query_row q)"
    using CreateAccount_run [OF run] by blast
  obtain rows where rows: "q = Inr rows" using a by (cases q) auto
  obtain n where e: "exec_stmt (pool_env orc ?s w) ?s (tables w) = Inr (n, rows, tables w')"
    and t: "txn w' = txn w"
    using query_pool_Inr q rows by blast
  obtain c where c: "char3 cur = Some c" "\<not> has_account (acc_seq w) (tables w)"
    "tables w' = add_account (new_account (acc_seq w) name c url (o_clock orc (calls w))) (tables w)"
    "rows = [[VInt (acc_seq w), VText name, VText c, VInt 0, VTime (o_clock orc (calls w))]]"
    using e by (auto simp: exec_insert_account pool_env_account_id Let_def new_account_def
        simp del: exec_stmt.simps split: option.splits if_splits)
  have "sint (A_ID a) = acc_seq w"
    using a rows c(4) by (auto simp: sint_of_bigint split: if_splits)
  with c t show ?thesis by blast
qed

text \<open>Setting the balance of a row without postings seeds the account.\<close>

lemma seed_account:
  assumes ok: "ledger_ok seed d" and a: "find_account i d = Some a" "acc_balance a = seed i"
    and b: "0 \<le> b" "bigint b"
  shows "ledger_ok (seed(i := b)) (put_account (a\<lparr>acc_balance := b\<rparr>) d)"
proof -
  let ?d = "put_account (a\<lparr>acc_balance := b\<rparr>) d"
  have con: "constraints_ok d" and bk: "booked seed d" using ok by (simp_all add: ledger_ok_def books_ok_def)
  have ida: "acc_id a = i" and mem: "a \<in> set (accounts d)" using find_account_Some [OF a(1)] by auto
  have j: "journal d i = 0" using bk mem ida a(2) by (auto simp: booked_def)
  have jd: "journal ?d = journal d" by (simp add: journal_def fun_eq_iff)
  have has: "has_account k ?d = has_account k d" for k
    unfolding has_account_def by (metis list.set_map put_account_ids)
  have rows: "r \<in> set (accounts ?d) \<Longrightarrow> r = a\<lparr>acc_balance := b\<rparr> \<or> (r \<in> set (accounts d) \<and> acc_id r \<noteq> i)" for r
    using ida by (auto simp: put_account_def)
  have oka: "account_row_ok a" using con mem by (simp add: constraints_ok_def)
  have okr: "account_row_ok r" if "r \<in> set (accounts ?d)" for r
    using rows [OF that] con oka b by (auto simp: constraints_ok_def account_row_ok_def)
  have "booked (seed(i := b)) ?d"
    using rows bk j jd ida by (fastforce simp: booked_def)
  moreover have "constraints_ok ?d"
    using con okr by (simp add: constraints_ok_def has)
  moreover have "one_currency ?d"
    unfolding one_currency_def
  proof (intro ballI impI)
    fix t r assume t: "t \<in> set (transfers ?d)" and r: "r \<in> set (accounts ?d)"
      and id: "acc_id r = tr_from t \<or> acc_id r = tr_to t"
    have cur: "\<forall>x \<in> set (accounts d). acc_id x = tr_from t \<or> acc_id x = tr_to t \<longrightarrow> acc_currency x = tr_currency t"
      using ok t by (simp add: ledger_ok_def books_ok_def one_currency_def)
    from rows [OF r] show "acc_currency r = tr_currency t" using cur id mem by auto
  qed
  ultimately show ?thesis
    using ok by (simp add: ledger_ok_def books_ok_def conserved_def double_entry_def entries_of_def
        events_match_def keys_settled_def key_settled_def)
qed

definition seedable :: "(int \<Rightarrow> int) \<Rightarrow> world \<Rightarrow> bool" where
  "seedable seed w \<longleftrightarrow>
     txn w = None \<and> ledger_ok seed (tables w) \<and> ids_below w \<and> (\<forall>i \<ge> acc_seq w. seed i = 0)"

definition funded :: "(int \<Rightarrow> int) \<Rightarrow> int64 list \<Rightarrow> bool" where
  "funded seed ids \<longleftrightarrow> (\<forall>x \<in> set ids. seed (sint x) = sint seedBalance)"

lemma sint_seedBalance: "sint seedBalance = 10000000"
  unfolding seedBalance_def by code_simp

text \<open>One round of the loop: the account is there and has its seed.\<close>

lemma seed_one:
  assumes ok: "seedable seed w"
    and c: "run orc (CreateAccount name ''INR'' None) w = (Inr acc, w1)"
    and f: "run orc (exec Pool (SetBalance seedBalance (A_ID acc))) w1 = (Inr m, w2)"
  shows "seedable (seed(sint (A_ID acc) := sint seedBalance)) w2"
proof -
  let ?i = "acc_seq w"
  have w: "txn w = None" and led: "ledger_ok seed (tables w)" and below: "ids_below w"
    and zero: "\<forall>i \<ge> acc_seq w. seed i = 0" using ok by (auto simp: seedable_def)
  obtain cur now where cur: "char3 ''INR'' = Some cur" "\<not> has_account ?i (tables w)" "txn w1 = txn w"
    "sint (A_ID acc) = ?i" "tables w1 = add_account (new_account ?i name cur None now) (tables w)"
    using CreateAccount_success [OF c] by blast
  let ?a = "new_account ?i name cur None now"
  have led1: "ledger_ok seed (tables w1)"
    using new_account_ledger [OF led cur(2)] zero char3_idem [OF cur(1)] cur(5) by (simp add: add_account_def)
  have a: "find_account ?i (tables w1) = Some ?a" using find_add_account [OF cur(2)] cur(5) by simp
  obtain rows where e: "sql_set_balance seedBalance (A_ID acc) (tables w1) = Inr (m, rows, tables w2)"
    and t: "txn w2 = txn w1"
    using exec_pool_Inr [OF f] by auto
  have set: "set_balance (sint seedBalance) r = Inr (r\<lparr>acc_balance := sint seedBalance\<rparr>)" for r
    by (simp add: set_balance_def sint_seedBalance bigint_def)
  have "update_accounts (\<lambda>b. acc_id b = ?i) (set_balance (sint seedBalance)) (tables w1) =
      Inr (1, [], put_account (?a\<lparr>acc_balance := sint seedBalance\<rparr>) (tables w1))"
    by (subst update_balance_outcome [OF ledger_rows_ok [OF led1]]) (auto simp: a set)
  then have "tables w2 = put_account (?a\<lparr>acc_balance := sint seedBalance\<rparr>) (tables w1)"
    using e by (simp add: sql_set_balance_def cur(4))
  then have "ledger_ok (seed(?i := sint seedBalance)) (tables w2)"
    using seed_account [OF led1 a] zero by (simp add: new_account_def sint_seedBalance bigint_def)
  moreover have s: "ids_step w w1" "ids_step w1 w2" by (rule run_ids [OF c], rule run_ids [OF f])
  moreover have "?i < acc_seq w1"
  proof -
    have "ids_below w1" using s below by (simp add: ids_step_def)
    moreover have "?i \<in> account_ids (tables w1)" by (simp add: cur(5) account_ids_def new_account_def)
    ultimately show ?thesis by (simp add: ids_below_def)
  qed
  ultimately show ?thesis
    using w below zero cur(3,4) t by (auto simp: seedable_def ids_step_def)
qed

lemma seed_loop_effect:
  "run orc (seed_loop i n ids) w = (Inr ids', w') \<Longrightarrow> seedable seed w \<Longrightarrow> funded seed ids \<Longrightarrow>
     \<exists>seed'. seedable seed' w' \<and> funded seed' ids'"
proof (induction n arbitrary: i ids w seed)
  case 0
  then show ?case by auto
next
  case (Suc n)
  let ?name = "''load-acct-'' @ itoa (int i)"
  obtain r w1 where c: "run orc (CreateAccount ?name ''INR'' None) w = (r, w1)" by fastforce
  with Suc.prems(1) obtain acc where acc: "r = Inr acc" by (cases r) (auto simp: run_bindp)
  obtain q w2 where f: "run orc (exec Pool (SetBalance seedBalance (A_ID acc))) w1 = (q, w2)" by fastforce
  with Suc.prems(1) c acc obtain m where m: "q = Inr m" by (cases q) (auto simp: run_bindp)
  have rest: "run orc (seed_loop (Suc i) n (ids @ [A_ID acc])) w2 = (Inr ids', w')"
    using Suc.prems(1) c acc f m by (simp add: run_bindp)
  let ?seed = "seed(sint (A_ID acc) := sint seedBalance)"
  have "seedable ?seed w2" using seed_one [OF Suc.prems(2)] c acc f m by blast
  moreover have "funded ?seed (ids @ [A_ID acc])" using Suc.prems(3) by (simp add: funded_def)
  ultimately show ?case using Suc.IH [OF rest] by blast
qed

section \<open>Transfers keep the books\<close>

text \<open>The invariant that the chosen executor keeps.\<close>

definition kept :: "string \<Rightarrow> (int \<Rightarrow> int) \<Rightarrow> world \<Rightarrow> bool" where
  "kept strategy seed w \<longleftrightarrow>
     txn w = None \<and>
     (if strategy = ''optimistic'' then sound_ledger seed (tables w) else ledger_ok seed (tables w))"

lemma run_transfer_keeps:
  assumes run: "run orc (run_transfer strategy req) w = (r, w')" and ok: "kept strategy seed w"
  shows "kept strategy seed w'"
proof (cases "strategy = ''optimistic''")
  case True
  obtain x where x: "run orc (ExecuteOptimistic req) w = (x, w')"
    using run True by (auto simp: run_transfer_def run_bindp split: prod.splits)
  have "txn w = None" "sound_ledger seed (tables w)" using ok True by (simp_all add: kept_def)
  from optimistic_effect [OF this x] optimistic_keeps_sound [OF this(2)] this(2)
  show ?thesis using True by (auto simp: kept_def split: sum.splits)
next
  case False
  obtain s x where x: "run orc (execute_by s req) w = (x, w')"
  proof (cases "strategy = ''select_for_update''")
    case True
    then show ?thesis using run that [of SelectForUpdate]
      by (auto simp: run_transfer_def run_bindp split: prod.splits)
  next
    case F: False
    then show ?thesis using run False that [of ConditionalUpdate]
      by (auto simp: run_transfer_def run_bindp split: prod.splits)
  qed
  have "txn w = None" "ledger_ok seed (tables w)" using ok False by (simp_all add: kept_def)
  from by_strategy.exec_keeps_ledger [OF this x] False show ?thesis by (simp add: kept_def)
qed

lemma kept_tick: "kept strategy seed (tick w) = kept strategy seed w"
  by (simp add: kept_def)

lemma run_job_keeps:
  assumes run: "run orc (run_job strategy ids accepts x) w = (r, w')" and ok: "kept strategy seed w"
  shows "kept strategy seed w'"
proof -
  obtain rng k hist where x: "x = (rng, k, hist)" by (cases x)
  show ?thesis
  proof (cases "ids = [] \<or> next_request ids rng k = None")
    case True
    with run ok x show ?thesis by (auto simp: run_job_def split: if_splits)
  next
    case False
    then obtain req k' where q: "ids \<noteq> []" "next_request ids rng k = Some (req, k')" by auto
    obtain err w1 where t: "run orc (run_transfer strategy req) (tick w) = (err, w1)" by fastforce
    have "kept strategy seed w1" using run_transfer_keeps [OF t] ok by (simp add: kept_tick)
    then show ?thesis using run q t x by (auto simp: run_job_def run_bindp time_Now_def kept_tick)
  qed
qed

lemma jobs_loop_keeps:
  "run orc (jobs_loop strategy ids accepts sched n ws errors) w = (r, w') \<Longrightarrow> kept strategy seed w \<Longrightarrow>
     kept strategy seed w'"
proof (induction n arbitrary: ws errors w)
  case 0
  then show ?case by simp
next
  case (Suc n)
  let ?i = "sched n mod length ws"
  obtain q w1 where q: "run orc (run_job strategy ids accepts (ws ! ?i)) w = (q, w1)" by fastforce
  have w1: "kept strategy seed w1" using run_job_keeps [OF q Suc.prems(2)] .
  show ?case
  proof (cases q)
    case None
    with Suc.prems q w1 show ?thesis by (auto simp: run_bindp Let_def)
  next
    case (Some y)
    with Suc.prems q w1 Suc.IH [OF _ w1] show ?thesis
      by (auto simp: run_bindp Let_def split: prod.splits)
  qed
qed

lemma runTransfers_keeps:
  assumes run: "run orc (runTransfers strategy ids accepts sched n rngs) w = (r, w')"
    and ok: "kept strategy seed w"
  shows "kept strategy seed w'"
proof (cases "rngs = []")
  case True
  with run ok show ?thesis by (simp add: runTransfers_def)
next
  case False
  obtain q w1 where q:
    "run orc (jobs_loop strategy ids accepts sched n (map (\<lambda>rng. (rng, 0, [])) rngs) 0) w = (q, w1)"
    by fastforce
  with jobs_loop_keeps [OF q ok] run False show ?thesis
    by (auto simp: runTransfers_def run_bindp split: option.splits prod.splits)
qed

section \<open>The report\<close>

definition clean_report :: string where
  "clean_report = check_report 0 [] 0 0"

lemma kept_sound: "kept strategy seed w \<Longrightarrow> sound_books seed (tables w)"
  by (auto simp: kept_def sound_ledger_def ledger_ok_sound split: if_splits)

lemma check_clean:
  assumes ok: "sound_books seed (tables w)" and ids: "funded seed ids"
    and run: "run orc (checkInvariants ids) w = (Inr report, w')"
  shows "report = clean_report"
proof -
  let ?d = "tables w"
  have sum: "sum_list (map po_amount (postings ?d)) = 0"
    and bal: "acc_balance a = seed (acc_id a) + journal ?d (acc_id a)" "0 \<le> acc_balance a"
    if "a \<in> set (accounts ?d)" for a
    using ok that by (auto simp: sound_books_def conserved_def booked_def constraints_ok_def account_row_ok_def)
  have sum: "sum_list (map po_amount (postings ?d)) = 0"
    using ok by (simp add: sound_books_def conserved_def)
  have drift: "filter (\<lambda>a. acc_id a \<in> sint ` set ids \<and>
      acc_balance a - journal ?d (acc_id a) \<noteq> sint seedBalance) (accounts ?d) = []"
    using bal(1) ids by (auto simp: filter_empty_conv funded_def)
  have neg: "filter (\<lambda>a. acc_id a \<in> sint ` set ids \<and> acc_balance a < 0) (accounts ?d) = []"
    using bal(2) by (force simp: filter_empty_conv)
  obtain q1 w1 where q1: "run orc (query Pool SumPostings) w = (q1, w1)" by fastforce
  with run obtain r1 where r1: "q1 = Inr r1"
    by (cases q1) (auto simp: checkInvariants_def run_tryp run_bindp wrap_err_def)
  from query_pool_Inr q1 r1 obtain n where "exec_stmt (pool_env orc SumPostings w) SumPostings ?d = Inr (n, r1, tables w1)"
    by blast
  then have t1: "tables w1 = ?d" "r1 = [[VInt 0]]" using sum by (auto simp: sql_sum_postings_def)
  obtain q2 w2 where q2: "run orc (query Pool (SelectSeedDrift ids seedBalance)) w1 = (q2, w2)" by fastforce
  with run q1 r1 t1 obtain r2 where r2: "q2 = Inr r2"
    by (cases q2) (auto simp: checkInvariants_def run_tryp run_bindp wrap_err_def bigint_def)
  from query_pool_Inr q2 r2 obtain n where
    "exec_stmt (pool_env orc (SelectSeedDrift ids seedBalance) w1) (SelectSeedDrift ids seedBalance) ?d =
      Inr (n, r2, tables w2)"
    using t1(1) by metis
  then have t2: "tables w2 = ?d" "r2 = []" using drift by (auto simp: sql_select_seed_drift_def Let_def)
  obtain q3 w3 where q3: "run orc (query Pool (CountNegativeOf ids)) w2 = (q3, w3)" by fastforce
  with run q1 r1 t1 q2 r2 t2 obtain r3 where r3: "q3 = Inr r3"
    by (cases q3) (auto simp: checkInvariants_def run_tryp run_bindp wrap_err_def bigint_def)
  from query_pool_Inr q3 r3 obtain n where
    "exec_stmt (pool_env orc (CountNegativeOf ids) w2) (CountNegativeOf ids) ?d = Inr (n, r3, tables w3)"
    using t2(1) by metis
  then have "r3 = [[VInt 0]]" using neg by (auto simp: sql_count_negative_of_def)
  with run q1 r1 t1 q2 r2 t2 q3 r3 show ?thesis
    by (auto simp: checkInvariants_def run_tryp run_bindp wrap_err_def bigint_def clean_report_def)
qed

section \<open>Properties\<close>


definition dice :: rng where
  "dice k = k"


text \<open>
  C39. A worker chooses a transfer exactly if its draws sooner or later name another account than the
  one to debit; the transfer is then between two different accounts of the run, of 1 to 500 units.
  In particular a run with one account never ends.
\<close>

theorem transfer_chosen_iff:
  assumes "ids \<noteq> []"
  shows "(case next_request ids rng k of
      None \<Rightarrow> \<forall>j > k. ids ! Intn rng j (length ids) = ids ! Intn rng k (length ids)
    | Some (req, k') \<Rightarrow>
        (\<exists>j > k. ids ! Intn rng j (length ids) \<noteq> ids ! Intn rng k (length ids)) \<and>
        FromAccount req \<in> set ids \<and> ToAccount req \<in> set ids \<and> FromAccount req \<noteq> ToAccount req \<and>
        1 \<le> sint (Amount req) \<and> sint (Amount req) \<le> 500) \<and>
    (length ids = 1 \<and> rngs \<noteq> [] \<longrightarrow>
       fst (run orc (runTransfers strategy ids accepts sched (Suc m) rngs) w) = None)"
proof (intro conjI impI)
  show "case next_request ids rng k of
      None \<Rightarrow> \<forall>j > k. ids ! Intn rng j (length ids) = ids ! Intn rng k (length ids)
    | Some (req, k') \<Rightarrow>
        (\<exists>j > k. ids ! Intn rng j (length ids) \<noteq> ids ! Intn rng k (length ids)) \<and>
        FromAccount req \<in> set ids \<and> ToAccount req \<in> set ids \<and> FromAccount req \<noteq> ToAccount req \<and>
        1 \<le> sint (Amount req) \<and> sint (Amount req) \<le> 500"
  proof (cases "next_request ids rng k")
    case None
    with next_request_ends [of ids rng k] show ?thesis by auto
  next
    case (Some y)
    with next_request_ends [of ids rng k] next_request_proper [OF assms, of rng k]
    show ?thesis by (cases y) auto
  qed
  assume one: "length ids = 1 \<and> rngs \<noteq> []"
  then have "run_job strategy ids accepts (map (\<lambda>rng. (rng, 0, [])) rngs ! (sched m mod length rngs)) = Ret None"
    by (simp add: run_job_def one_account_stuck)
  with one show "fst (run orc (runTransfers strategy ids accepts sched (Suc m) rngs) w) = None"
    by (simp add: runTransfers_def run_bindp)
qed

theorem transfer_chosen_iff_witness:
  "fst (run calm (runTransfers ''optimistic'' [1] (\<lambda>t. True) id 1 [dice]) sample_world) = None"
  using transfer_chosen_iff [where ids = "[1]" and rngs = "[dice]" and m = 0]
  by simp

end
