(* ===== verification/Drain.thy ===== *)
theory Drain
  imports Delivery
begin

text \<open>
  Draining the outbox: how many polls it takes until every event is settled, if no call fails and
  the merchants accept. A poll settles the fifty oldest due events, or all of them.
\<close>

section \<open>Counting events that are not settled\<close>

definition unsettled :: "db \<Rightarrow> outbox_row list" where
  "unsettled d = filter (\<lambda>r. \<not> settled_event r) (outbox d)"

lemma unsettled_status: "\<not> settled_event r \<longleftrightarrow> ob_status r = Pending \<or> ob_status r = InFlight"
  by (cases "ob_status r") (auto simp: settled_event_def)

lemma count_ids:
  assumes "distinct (map f us)" and "distinct ids" and "set ids \<subseteq> f ` set us"
  shows "length (filter (\<lambda>r. f r \<in> set ids) us) = length ids"
proof -
  let ?fs = "map f (filter (\<lambda>r. f r \<in> set ids) us)"
  have "distinct ?fs" using assms(1) by (simp add: distinct_map_filter)
  moreover have "set ?fs = set ids" using assms(3) by auto
  ultimately have "length ?fs = length ids" using assms(2) by (metis distinct_card)
  then show ?thesis by simp
qed

lemma row_steps_unsettled:
  assumes "list_all2 (row_step (\<lambda>r. ob_id r \<in> C) delivered_row) os os'"
  shows "filter (\<lambda>r. \<not> settled_event r) os' = filter (\<lambda>r. ob_id r \<notin> C) (filter (\<lambda>r. \<not> settled_event r) os)"
  using assms
  by (induction rule: list_all2_induct)
    (auto simp: row_step_def delivered_row_def settled_event_def split: if_splits)

section \<open>Polls\<close>

text \<open>Nothing is locked by others, and the clock does not go back.\<close>

definition undisturbed :: "environ \<Rightarrow> bool" where
  "undisturbed orc \<longleftrightarrow> no_faults orc \<and> all_accept orc \<and> (\<forall>n. o_locked orc n = []) \<and> mono (o_clock orc)"

definition all_due :: "environ \<Rightarrow> world \<Rightarrow> bool" where
  "all_due orc w \<longleftrightarrow> (\<forall>r \<in> set (unsettled (tables w)). deliverable (o_clock orc (calls w)) r)"

definition drained_row :: "outbox_row \<Rightarrow> outbox_row \<Rightarrow> bool" where
  "drained_row r r' \<longleftrightarrow>
     ob_id r' = ob_id r \<and> (if settled_event r then r' = r else ob_status r' = Delivered)"

lemma deliverable_later: "deliverable now r \<Longrightarrow> now \<le> now' \<Longrightarrow> deliverable now' r"
  by (auto simp: deliverable_def split: option.splits)

lemma claimed_unsettled:
  assumes "pk_ok (tables w)" and "r \<in> set (outbox (tables w))" and "ob_id r \<in> claimed_ids orc w"
  shows "\<not> settled_event r"
  using claimable_deliverable [of "outbox (tables w)" r] assms deliverable_not_settled
  by (fastforce simp: claimed_ids_def pk_ok_def)

text \<open>A poll settles fifty events, or all of them; the others are as they were.\<close>

lemma poll_drains:
  assumes run: "run orc poll w = (e, w')" and orc: "undisturbed orc"
    and pk: "pk_ok (tables w)" and due: "all_due orc w"
  shows "length (unsettled (tables w')) = length (unsettled (tables w)) - nat batchSize"
    and "all_due orc w'" and "pk_ok (tables w')"
    and "list_all2 (\<lambda>r r'. r' = r \<or> (\<not> settled_event r \<and> drained_row r r'))
      (outbox (tables w)) (outbox (tables w'))"
proof -
  let ?os = "outbox (tables w)" and ?now = "o_clock orc (calls w)" and ?C = "claimed_ids orc w"
  have f: "no_faults orc" "all_accept orc" "o_locked orc (calls w) = []" "mono (o_clock orc)"
    using orc by (auto simp: undisturbed_def)
  note step = poll_ok [OF run f(1,2)]
  have ids: "distinct (map ob_id ?os)" using pk by (simp add: pk_ok_def)
  have "deliverable ?now r \<longleftrightarrow> \<not> settled_event r" if "r \<in> set ?os" for r
    using due that deliverable_not_settled by (auto simp: all_due_def unsettled_def)
  then have "filter (\<lambda>r. deliverable ?now r) ?os = unsettled (tables w)"
    unfolding unsettled_def by (auto intro: filter_cong)
  then have claim: "?C = set (take (nat batchSize) (map ob_id (sort_key ob_created (unsettled (tables w)))))"
    using f(3) by (simp add: claimed_ids_def claimable_def)
  let ?ids = "take (nat batchSize) (map ob_id (sort_key ob_created (unsettled (tables w))))"
  have us: "distinct (map ob_id (unsettled (tables w)))"
    using ids by (simp add: unsettled_def distinct_map_filter)
  have "distinct (map ob_id (sort_key ob_created (unsettled (tables w))))"
    using us by (simp add: distinct_map)
  then have d: "distinct ?ids" by (rule distinct_take)
  have sub: "set ?ids \<subseteq> ob_id ` set (unsettled (tables w))" by (auto dest: in_set_takeD)
  have rest: "unsettled (tables w') = filter (\<lambda>r. ob_id r \<notin> ?C) (unsettled (tables w))"
    using row_steps_unsettled [OF step] by (simp add: unsettled_def)
  have "length (filter (\<lambda>r. ob_id r \<in> ?C) (unsettled (tables w))) = length ?ids"
    unfolding claim by (rule count_ids [OF us d sub])
  moreover have "length (filter (\<lambda>r. ob_id r \<in> ?C) (unsettled (tables w))) + length (unsettled (tables w')) =
      length (unsettled (tables w))"
    unfolding rest by (rule sum_length_filter_compl)
  ultimately show "length (unsettled (tables w')) = length (unsettled (tables w)) - nat batchSize"
    by simp
  obtain log where log: "poller_run log w w'" using poll_run [OF run pk] by blast
  then have "calls w \<le> calls w'" by (simp add: poller_run_def poller_frame_def)
  then have "?now \<le> o_clock orc (calls w')" using f(4) by (rule monoD [rotated])
  then show "all_due orc w'"
    using due deliverable_later by (auto simp: all_due_def rest)
  show "pk_ok (tables w')" by (rule poller_run_pk [OF log pk])
  show "list_all2 (\<lambda>r r'. r' = r \<or> (\<not> settled_event r \<and> drained_row r r')) ?os (outbox (tables w'))"
    using step
    by (rule list.rel_mono_strong)
      (auto simp: row_step_def delivered_row_def drained_row_def dest: claimed_unsettled [OF pk] split: if_splits)
qed

lemma Run_drains:
  assumes "run orc (Run (replicate k Tick)) w = (u, w')" and orc: "undisturbed orc"
    and "pk_ok (tables w)" and "all_due orc w" and "length (unsettled (tables w)) \<le> k * nat batchSize"
  shows "list_all2 drained_row (outbox (tables w)) (outbox (tables w'))"
  using assms(1,3-)
proof (induction k arbitrary: w)
  case 0
  then show ?case
    by (auto simp: unsettled_def filter_empty_conv drained_row_def intro!: list.rel_refl_strong)
next
  case (Suc k)
  obtain e w1 where p: "run orc poll w = (e, w1)" by fastforce
  then have r: "run orc (Run (replicate k Tick)) w1 = (u, w')" using Suc.prems by (simp add: run_bindp)
  note one = poll_drains [OF p orc Suc.prems(2,3)]
  have "length (unsettled (tables w1)) \<le> k * nat batchSize" using one(1) Suc.prems(4) by simp
  from Suc.IH [OF r one(3,2) this] show ?case
    by (rule list_all2_trans [OF _ one(4), rotated]) (auto simp: drained_row_def settled_event_def split: if_splits)
qed

section \<open>Properties\<close>

text \<open>
  C24. The outbox is drained: if no call fails, every merchant accepts, nothing is locked and every
  event that is not settled is due, then as many polls as there are batches deliver them all, and
  leave the settled ones as they are.
\<close>

theorem polls_drain:
  assumes "undisturbed orc" and "pk_ok (tables w)" and "all_due orc w"
    and "length (unsettled (tables w)) \<le> k * nat batchSize"
  shows "case run orc (Run (replicate k Tick)) w of (u, w') \<Rightarrow>
    unsettled (tables w') = [] \<and> list_all2 drained_row (outbox (tables w)) (outbox (tables w'))"
proof -
  obtain w' where p: "run orc (Run (replicate k Tick)) w = ((), w')"
    by (cases "run orc (Run (replicate k Tick)) w") simp
  have rows: "list_all2 drained_row (outbox (tables w)) (outbox (tables w'))"
    by (rule Run_drains [OF p assms])
  have "settled_event r'" if "r' \<in> set (outbox (tables w'))" for r'
    using list_all2_memD2 [OF rows that] by (auto simp: drained_row_def settled_event_def split: if_splits)
  with rows p show ?thesis by (simp add: unsettled_def filter_empty_conv)
qed

lemma calm_undisturbed: "undisturbed calm"
  by (simp add: undisturbed_def calm_no_faults all_accept_def mono_def)
    (auto simp: calm_def min_def)

theorem polls_drain_witness:
  "list_all settled_event (outbox (tables (snd (run calm (Run (replicate 2 Tick)) paid_world)))) \<and>
   \<not> list_all settled_event (outbox (tables paid_world))"
proof -
  have "list_all (deliverable (o_clock calm (calls paid_world))) (outbox (tables paid_world)) \<and>
      \<not> list_all settled_event (outbox (tables paid_world)) \<and> length (outbox (tables paid_world)) = 1"
    unfolding paid_world_eq by code_simp
  then have "all_due calm paid_world" "length (outbox (tables paid_world)) = 1"
    "\<not> list_all settled_event (outbox (tables paid_world))"
    by (auto simp: all_due_def unsettled_def list_all_iff)
  moreover have "length (unsettled (tables paid_world)) \<le> length (outbox (tables paid_world))"
    by (simp add: unsettled_def)
  ultimately show ?thesis
    using polls_drain [OF calm_undisturbed paid_pk, of 2]
    by (auto simp: case_prod_beta batchSize_def unsettled_def filter_empty_conv list_all_iff simp del: Run.simps)
qed

end
