(* ===== verification/Chaostest.thy ===== *)
theory Chaostest
  imports Drain Recon
begin

text \<open>
  \<open>cmd/chaostest\<close>: events are seeded, a first poller is stopped, a second one runs while the program
  waits for the outbox to drain, and the counts are reported. The second poller's polls fall
  between the rounds of the wait. The merchant of the test counts the ids it receives: from the log
  of requests, those that were answered, and of the others those that \<open>reached\<close> it. Cancelling the
  context of a poller is a failure of its calls.
\<close>

section \<open>Seeding\<close>

definition numEvents :: nat where
  "numEvents = 500"

definition chaos_payload :: json where
  "chaos_payload = JObj [(''type'', JStr ''chaos.test'')]"

primrec seed_inserts :: "nat \<Rightarrow> string \<Rightarrow> (err + unit) prog" where
  "seed_inserts 0 targetURL = return ()"
| "seed_inserts (Suc n) targetURL =
     tryp (InsertOutboxEventInTx ''chaos.test'' chaos_payload (Some targetURL))
       (\<lambda>_. seed_inserts n targetURL)"

definition seedEvents :: "string \<Rightarrow> nat \<Rightarrow> (err + unit) prog" where
  "seedEvents targetURL n =
     BeginTx (\<lambda>b. case b of
       Some e \<Rightarrow> fail_with e
     | None \<Rightarrow>
         bindp (tryp (seed_inserts n targetURL) (\<lambda>_. CommitTx (\<lambda>c. case c of
             Some e \<Rightarrow> fail_with e
           | None \<Rightarrow> return ()))) (\<lambda>r. RollbackTx (Ret r)))"

section \<open>Waiting\<close>

text \<open>
  A round of the loop for each program of the list, which runs before it; \<open>None\<close> when the list is
  used up before the loop ends.
\<close>

primrec drain_loop :: "unit prog list \<Rightarrow> timestamp \<Rightarrow> (err + unit) option prog" where
  "drain_loop [] deadline = Ret None"
| "drain_loop (p # ps) deadline =
     bindp p (\<lambda>_.
     bindp time_Now (\<lambda>now.
       if now < deadline then
         bindp (query Pool CountUnsettled) (\<lambda>q. case scan_int (query_row q) of
           Inl e \<Rightarrow> Ret (Some (Inl e))
         | Inr count \<Rightarrow>
             if count = 0 then Ret (Some (Inr ())) else Sleep 100000 (drain_loop ps deadline))
       else Ret (Some (Inl (NewErr ''timed out waiting for outbox to drain'')))))"

definition waitUntilDrained :: "unit prog list \<Rightarrow> int \<Rightarrow> (err + unit) option prog" where
  "waitUntilDrained ps timeout = bindp time_Now (\<lambda>now. drain_loop ps (now + timeout))"

section \<open>Counting\<close>

text \<open>The variables after a scan, and whether it succeeded: a failed scan closes the rows.\<close>

definition scan_status :: "sqlval list \<Rightarrow> (string \<times> int64) \<times> bool" where
  "scan_status row =
     (case row of
        [t, c] \<Rightarrow>
          (case cell_text t of
             Inl _ \<Rightarrow> (([], 0), False)
           | Inr status \<Rightarrow>
               (case cell_int c of
                  Inl _ \<Rightarrow> ((status, 0), False)
                | Inr n \<Rightarrow> ((status, n), True)))
      | _ \<Rightarrow> (([], 0), False))"

fun status_loop :: "sqlval list list \<Rightarrow> (string \<rightharpoonup> int64) \<Rightarrow> (string \<rightharpoonup> int64)" where
  "status_loop [] m = m"
| "status_loop (row # rows) m =
     (case scan_status row of
        ((status, n), scanned) \<Rightarrow>
          if scanned then status_loop rows (m(status \<mapsto> n)) else m(status \<mapsto> n))"

text \<open>An error is logged; the \<open>nil\<close> map reads as zero everywhere.\<close>

definition queryStatusCounts :: "(string \<rightharpoonup> int64) prog" where
  "queryStatusCounts =
     bindp (query Pool CountByStatus) (\<lambda>q. case q of
       Inl e \<Rightarrow> Ret Map.empty
     | Inr rows \<Rightarrow> Ret (status_loop rows Map.empty))"

definition count_of :: "(string \<rightharpoonup> int64) \<Rightarrow> string \<Rightarrow> int" where
  "count_of m status = (case m status of None \<Rightarrow> 0 | Some n \<Rightarrow> sint n)"

text \<open>The ids the merchant has received since request number \<open>from\<close>.\<close>

definition deliveries :: "(nat \<Rightarrow> bool) \<Rightarrow> nat \<Rightarrow> world \<Rightarrow> uuid list" where
  "deliveries reached from w =
     map (\<lambda>(i, q, a). rq_event_id q)
       (filter (\<lambda>(i, q, a). \<not> isl a \<or> reached i) (drop from (enumerate 0 (requests w))))"

definition duplicate_count :: "uuid list \<Rightarrow> nat" where
  "duplicate_count ids =
     sum_list (map (\<lambda>i. if 1 < count_list ids i then count_list ids i - 1 else 0) (remdups ids))"

section \<open>The test\<close>

definition chaos_report :: "nat \<Rightarrow> nat \<Rightarrow> int \<Rightarrow> int \<Rightarrow> nat \<Rightarrow> nat \<Rightarrow> int \<Rightarrow> string" where
  "chaos_report n beforeCrash totalDelivered deadLettered uniqueIDs duplicates lost =
     newline @ ''=== Chaos Test Results ==='' @ newline @
     ''Events queued:             '' @ itoa (int n) @ newline @
     ''Delivered before crash:    '' @ itoa (int beforeCrash) @ newline @
     ''Remaining after restart:   '' @ itoa (int n - int beforeCrash) @ newline @
     ''Total delivered (DB):      '' @ itoa totalDelivered @ newline @
     ''Dead-lettered:             '' @ itoa deadLettered @ newline @
     ''Unique X-Event-IDs seen:   '' @ itoa (int uniqueIDs) @ newline @
     ''HTTP duplicate deliveries: '' @ itoa (int duplicates) @ newline @
     ''Lost (not delivered/DL):   '' @ itoa lost @ newline @
     (if lost \<noteq> 0 \<or> duplicates \<noteq> 0 then
        newline @ ''*** CHAOS TEST FAILED: lost='' @ itoa lost @ '' duplicates='' @ itoa (int duplicates) @
          '' ***'' @ newline
      else newline @ ''Chaos test: PASS '' @ [CHR 0xE2, CHR 0x80, CHR 0x94] @
          '' Lost: 0, Duplicates: 0 '' @ tick_mark @ newline)"

text \<open>The test ends by a fatal error, is still waiting, or reports.\<close>

datatype chaos_result = Aborted err | Waiting | Ended int nat string

text \<open>
  \<open>ss\<close> is what the first poller does before it is stopped, \<open>rounds\<close> what the second does between the
  rounds of the wait.
\<close>

definition chaostest ::
  "environ \<Rightarrow> (nat \<Rightarrow> bool) \<Rightarrow> string \<Rightarrow> nat \<Rightarrow> signal list \<Rightarrow> signal list list \<Rightarrow> world \<Rightarrow>
     chaos_result \<times> world" where
  "chaostest orc reached url n ss rounds w =
     (case run orc (exec Pool DeleteOutbox) w of
        (Inl e, w1) \<Rightarrow> (Aborted e, w1)
      | (Inr _, w1) \<Rightarrow>
     (case run orc (seedEvents url n) w1 of
        (Inl e, w2) \<Rightarrow> (Aborted e, w2)
      | (Inr _, w2) \<Rightarrow>
     (case run orc (Run ss) w2 of
        (_, w3) \<Rightarrow>
     (case run orc (Sleep 500000 (waitUntilDrained (map Run rounds) 30000000)) w3 of
        (None, w4) \<Rightarrow> (Waiting, w4)
      | (Some (Inl e), w4) \<Rightarrow> (Aborted e, w4)
      | (Some (Inr _), w4) \<Rightarrow>
     (case run orc queryStatusCounts w4 of
        (counts, w5) \<Rightarrow>
          let beforeCrash = length (deliveries reached (length (requests w)) w3);
              totalDelivered = count_of counts ''delivered'';
              deadLettered = count_of counts ''dead_letter'';
              received = deliveries reached (length (requests w)) w5;
              duplicates = duplicate_count received;
              lost = int n - totalDelivered - deadLettered
          in (Ended lost duplicates
                (chaos_report n beforeCrash totalDelivered deadLettered (length (remdups received))
                   duplicates lost), w5))))))"

section \<open>The seeded events\<close>

text \<open>A statement in the transaction whose reply has come changed the view.\<close>

lemma exec_tx_Inr:
  assumes "run orc (exec InTx s) w = (Inr n, w')"
  shows "\<exists>t v rows d. txn w = Some t \<and> exec_stmt v s (view t) = Inr (n, rows, d) \<and>
    txn w' = Some (t\<lparr>view := d\<rparr>) \<and> tables w' = tables w \<and> requests w' = requests w"
  using assms
  by (fastforce simp: exec_def call_def call_tx_def split: option.splits if_splits sum.splits prod.splits)

definition seeded :: "string \<Rightarrow> outbox_row \<Rightarrow> bool" where
  "seeded url r \<longleftrightarrow> ob_type r = ''chaos.test'' \<and> ob_payload r = chaos_payload \<and> ob_target r = Some url"

lemma seed_inserts_effect:
  "run orc (seed_inserts n url) w = (Inr (), w') \<Longrightarrow> txn w = Some t \<Longrightarrow> pk_ok (view t) \<Longrightarrow>
     \<exists>t' rs. txn w' = Some t' \<and> view t' = (view t)\<lparr>outbox := outbox (view t) @ rs\<rparr> \<and> pk_ok (view t') \<and>
       length rs = n \<and> (\<forall>r \<in> set rs. seeded url r) \<and> tables w' = tables w \<and> requests w' = requests w"
proof (induction n arbitrary: w t)
  case 0
  then show ?case by (intro exI [of _ t] exI [of _ "[]"]) auto
next
  case (Suc n)
  let ?s = "InsertOutbox ''chaos.test'' chaos_payload (Some url)"
  obtain q w1 where q: "run orc (exec InTx ?s) w = (q, w1)" by fastforce
  then obtain m where m: "q = Inr m" and r: "run orc (seed_inserts n url) w1 = (Inr (), w')"
    using Suc.prems(1) by (cases q) (auto simp: InsertOutboxEventInTx_def run_tryp)
  obtain v rows d where x: "exec_stmt v ?s (view t) = Inr (m, rows, d)"
    and w1: "txn w1 = Some (t\<lparr>view := d\<rparr>)" "tables w1 = tables w" "requests w1 = requests w"
    using exec_tx_Inr [of orc ?s w m w1] q m Suc.prems(2) by auto
  obtain e where d: "d = (view t)\<lparr>outbox := outbox (view t) @ [e]\<rparr>" "seeded url e"
    "ob_id e \<notin> ob_id ` set (outbox (view t))"
    using x by (auto simp: sql_insert_outbox_def seeded_def split: if_splits)
  then have "pk_ok (view (t\<lparr>view := d\<rparr>))" using Suc.prems(3) by (auto simp: pk_ok_def)
  from Suc.IH [OF r w1(1) this] obtain t' rs where
    "txn w' = Some t'" "view t' = d\<lparr>outbox := outbox d @ rs\<rparr>" "pk_ok (view t')" "length rs = n"
    "\<forall>r \<in> set rs. seeded url r" "tables w' = tables w1" "requests w' = requests w1" by auto
  then show ?case using d w1 by (intro exI [of _ t'] exI [of _ "e # rs"]) auto
qed

lemma seedEvents_effect:
  assumes run: "run orc (seedEvents url n) w = (Inr (), w')" and pk: "pk_ok (tables w)"
  shows "\<exists>rs. tables w' = (tables w)\<lparr>outbox := outbox (tables w) @ rs\<rparr> \<and> pk_ok (tables w') \<and>
    length rs = n \<and> (\<forall>r \<in> set rs. seeded url r) \<and> requests w' = requests w"
proof -
  obtain b w1 where b: "begin_tx orc w = (b, w1)" by fastforce
  with run have none: "b = None" by (cases b) (auto simp: seedEvents_def)
  with b obtain t where t: "txn w1 = Some t" "view t = tables w" "tables w1 = tables w" "requests w1 = requests w"
    by (auto simp: begin_tx_def split: option.splits)
  obtain q w2 where q: "run orc (seed_inserts n url) w1 = (q, w2)" by fastforce
  with run b none have "q = Inr ()" by (cases q) (auto simp: seedEvents_def run_bindp run_tryp)
  with q pk t obtain t' rs where rs: "txn w2 = Some t'" "view t' = (view t)\<lparr>outbox := outbox (view t) @ rs\<rparr>"
    "pk_ok (view t')" "length rs = n" "\<forall>r \<in> set rs. seeded url r" "requests w2 = requests w1"
    using seed_inserts_effect [of orc n url w1 w2 t] by auto
  obtain c w3 where c: "commit_tx orc w2 = (c, w3)" by fastforce
  have "c = None" "w' = rollback_tx w3"
    using run b none q c \<open>q = Inr ()\<close>
    by (auto simp: seedEvents_def run_bindp run_tryp split: option.splits)
  with c rs t show ?thesis
    by (auto simp: commit_tx_def rollback_tx_def split: option.splits if_splits)
qed

section \<open>The wait\<close>

lemma count_unsettled_rows:
  "exec_stmt v CountUnsettled d = Inr (1, [[VInt (int (length (unsettled d)))]], d)"
  by (simp add: sql_count_unsettled_def unsettled_def unsettled_status)

lemma zero_count:
  assumes "scan_int (query_row (Inr [[VInt (int k)]])) = Inr c"
  shows "c = 0 \<longleftrightarrow> k = 0"
proof -
  have b: "bigint (int k)" and c: "c = word_of_int (int k)"
    using assms by (auto split: if_splits)
  have "sint c = int k" unfolding c by (rule sint_of_bigint [OF b])
  then show ?thesis using c by auto
qed

text \<open>One round: what the poller did, and whether the loop goes on.\<close>

lemma drain_round:
  assumes run: "run orc (drain_loop (Run ss # ps) deadline) w = (x, w')" and pk: "pk_ok (tables w)"
  obtains (ended) e where "x = Some (Inl e)"
    | (drained) log where "x = Some (Inr ())" "poller_run log w w'" "unsettled (tables w') = []"
    | (again) log w1 where "poller_run log w w1" "run orc (drain_loop ps deadline) w1 = (x, w')"
proof -
  obtain w1 where p: "run orc (Run ss) w = ((), w1)" by (cases "run orc (Run ss) w") simp
  obtain log where log: "poller_run log w w1" using Run_effect [OF p pk] by blast
  obtain q w2 where q: "run orc (query Pool CountUnsettled) (tick w1) = (q, w2)" by fastforce
  have x: "(x, w') = (if o_clock orc (calls w1) < deadline then
      (case scan_int (query_row q) of
         Inl e \<Rightarrow> (Some (Inl e), w2)
       | Inr c \<Rightarrow> if c = 0 then (Some (Inr ()), w2) else run orc (drain_loop ps deadline) (tick w2))
      else (Some (Inl (NewErr ''timed out waiting for outbox to drain'')), tick w1))"
    using run p q
    by (simp add: run_bindp time_Now_def del: Run.simps store_scan_defs scan_defs split: sum.splits if_splits)
  show thesis
  proof (cases "o_clock orc (calls w1) < deadline \<and> (\<exists>c. scan_int (query_row q) = Inr c)")
    case False
    with x ended show thesis by (auto split: sum.splits if_splits)
  next
    case True
    then obtain c rows where c: "scan_int (query_row q) = Inr c" "q = Inr rows"
      by (cases q) auto
    have "\<exists>n. exec_stmt (pool_env orc CountUnsettled (tick w1)) CountUnsettled (tables (tick w1)) =
        Inr (n, rows, tables w2) \<and> txn w2 = txn (tick w1)"
      by (rule query_pool_Inr [OF q [unfolded c(2)]])
    then have w2: "rows = [[VInt (int (length (unsettled (tables w1))))]]" "tables w2 = tables w1" "txn w2 = txn w1"
      unfolding count_unsettled_rows by auto
    have "pool_frame (tick w1) w2" using query_pool [OF q] by blast
    then have same: "poller_run [] w1 w2" "poller_run [] w1 (tick w2)"
      using w2 by (auto simp: pool_frame_def poller_run_def poller_frame_def log_live_def
          intro: list_all2_refl later_row_refl)
    have zero: "c = 0 \<longleftrightarrow> unsettled (tables w1) = []"
      using zero_count [of "length (unsettled (tables w1))" c] c w2(1) by simp
    show thesis
    proof (cases "c = 0")
      case True
      with x c \<open>_ \<and> _\<close> have "x = Some (Inr ())" "w' = w2" by auto
      with drained poller_run_trans [OF log same(1)] zero True w2(2) show thesis by auto
    next
      case False
      with x c \<open>_ \<and> _\<close> have "run orc (drain_loop ps deadline) (tick w2) = (x, w')" by auto
      with again poller_run_trans [OF log same(2)] show thesis by blast
    qed
  qed
qed

lemma drain_loop_drained:
  "run orc (drain_loop (map Run rounds) deadline) w = (Some (Inr ()), w') \<Longrightarrow> pk_ok (tables w) \<Longrightarrow>
     unsettled (tables w') = [] \<and> (\<exists>log. poller_run log w w')"
proof (induction rounds arbitrary: w)
  case (Cons ss rounds)
  have "run orc (drain_loop (Run ss # map Run rounds) deadline) w = (Some (Inr ()), w')"
    using Cons.prems(1) by simp
  from this Cons.prems(2) show ?case
  proof (cases rule: drain_round)
    case (again log w1)
    with Cons.IH [OF again(2)] poller_run_pk [OF again(1) Cons.prems(2)] poller_run_trans [OF again(1)]
    show ?thesis by blast
  qed auto
qed simp

text \<open>
  The wait ends: a round makes at least three calls, so if the clock gains a tenth of a second in
  three calls, a round for each tenth of the timeout is enough.
\<close>

definition paced :: "environ \<Rightarrow> bool" where
  "paced orc \<longleftrightarrow> mono (o_clock orc) \<and> (\<forall>n. o_clock orc n + 100000 \<le> o_clock orc (n + 3))"

lemma drain_loop_ends:
  "run orc (drain_loop ps deadline) w = (x, w') \<Longrightarrow> paced orc \<Longrightarrow> ps \<noteq> [] \<Longrightarrow>
     deadline \<le> o_clock orc (calls w) + 100000 * (int (length ps) - 1) \<Longrightarrow> x \<noteq> None"
proof (induction ps arbitrary: w)
  case (Cons p ps)
  obtain w1 where p: "run orc p w = ((), w1)" by (cases "run orc p w") simp
  have le: "o_clock orc (calls w) \<le> o_clock orc (calls w1)"
    using Cons.prems(2) run_calls_mono [OF p] by (auto simp: paced_def dest: monoD)
  obtain q w2 where q: "run orc (query Pool CountUnsettled) (tick w1) = (q, w2)" by fastforce
  show ?case
  proof (cases "o_clock orc (calls w1) < deadline \<and> scan_int (query_row q) \<noteq> Inr 0 \<and> isl (scan_int (query_row q)) = False")
    case True
    then obtain c where c: "scan_int (query_row q) = Inr c" "c \<noteq> 0" by (cases "scan_int (query_row q)") auto
    have rest: "run orc (drain_loop ps deadline) (tick w2) = (x, w')"
      using Cons.prems(1) p q True c by (simp add: run_bindp time_Now_def del: scan_defs)
    have "calls (tick w2) = calls w1 + 3" using query_pool [OF q] by (auto simp: pool_frame_def)
    moreover have "o_clock orc (calls w1) + 100000 \<le> o_clock orc (calls w1 + 3)"
      using Cons.prems(2) unfolding paced_def by blast
    ultimately have "o_clock orc (calls w1) + 100000 \<le> o_clock orc (calls (tick w2))" by (simp add: numeral_3_eq_3)
    moreover have "ps \<noteq> []" using True le Cons.prems(4) by auto
    ultimately show ?thesis
      using Cons.IH [OF rest Cons.prems(2)] le Cons.prems(4) by (simp add: algebra_simps)
  next
    case False
    then show ?thesis
      using Cons.prems(1) p q
      by (auto simp: run_bindp time_Now_def simp del: scan_defs split: sum.splits if_splits)
  qed
qed simp

section \<open>The counts\<close>

lemma poller_run_unsettled:
  assumes "poller_run log w w'"
  shows "length (outbox (tables w')) = length (outbox (tables w)) \<and>
    (\<forall>r' \<in> set (outbox (tables w')). \<exists>r \<in> set (outbox (tables w)). same_event r r')"
proof -
  have rows: "list_all2 later_row (outbox (tables w)) (outbox (tables w'))"
    using assms by (simp add: poller_run_def)
  have "\<exists>r \<in> set (outbox (tables w)). same_event r r'" if "r' \<in> set (outbox (tables w'))" for r'
    using list_all2_memD2 [OF rows that] by (auto simp: later_row_def)
  with rows show ?thesis by (auto dest: list_all2_lengthD)
qed

lemma settled_counts:
  assumes "unsettled d = []" and "bigint (int (length (outbox d)))"
    and "exec_stmt v CountByStatus d = Inr (n, rows, d')"
  shows "d' = d \<and>
    count_of (status_loop rows Map.empty) ''delivered'' + count_of (status_loop rows Map.empty) ''dead_letter'' =
      int (length (outbox d))"
proof -
  have none: "count_status Pending d = 0" "count_status InFlight d = 0"
    using assms(1) by (auto simp: unsettled_def filter_empty_conv count_status_def unsettled_status)
  have b: "bigint (int (count_status s d))" for s
  proof -
    have "count_status s d \<le> length (outbox d)" by (simp add: count_status_def)
    with assms(2) show ?thesis by (auto simp: bigint_def)
  qed
  have all: "length (outbox d) = count_status Delivered d + count_status DeadLetter d"
  proof -
    have "ob_status r = DeadLetter \<longleftrightarrow> ob_status r \<noteq> Delivered" if "r \<in> set (outbox d)" for r
      using assms(1) that
      by (cases "ob_status r") (auto simp: unsettled_def filter_empty_conv unsettled_status)
    then have "count_status DeadLetter d = length (filter (\<lambda>r. ob_status r \<noteq> Delivered) (outbox d))"
      unfolding count_status_def by (metis (mono_tags, lifting) filter_cong)
    then show ?thesis by (simp add: count_status_def sum_length_filter_compl)
  qed
  have s: "sint (word_of_int (int (count_status s d)) :: int64) = int (count_status s d)" for s
    by (rule sint_of_bigint [OF b])
  show ?thesis
    using assms(3) none b s all
    by (auto simp: sql_count_by_status_def Let_def scan_status_def count_of_def split: if_splits)
qed

lemma queryStatusCounts_lost:
  assumes run: "run orc queryStatusCounts w = (counts, w')" and d: "unsettled (tables w) = []"
    and b: "bigint (int (length (outbox (tables w))))"
  shows "unsettled (tables w') = [] \<and> outbox (tables w') = outbox (tables w) \<and>
    (int (length (outbox (tables w))) - count_of counts ''delivered'' - count_of counts ''dead_letter'' = 0 \<or>
     counts = Map.empty \<and> o_fault orc (calls w) \<noteq> None)"
proof -
  obtain q where q: "run orc (query Pool CountByStatus) w = (q, w')"
    and c: "counts = (case q of Inl e \<Rightarrow> Map.empty | Inr rows \<Rightarrow> status_loop rows Map.empty)"
    using run by (auto simp: queryStatusCounts_def run_bindp split: prod.splits sum.splits)
  obtain x where x: "q = map_sum id snd x" "pool_tables orc CountByStatus w x w'"
    using query_pool [OF q] by blast
  obtain n rows where e: "exec_stmt (pool_env orc CountByStatus w) CountByStatus (tables w) = Inr (n, rows, tables w)"
    by (simp add: sql_count_by_status_def Let_def)
  show ?thesis
    using x c d settled_counts [OF d b e]
    by (auto simp: pool_tables_def e simp del: exec_stmt.simps split: if_splits)
qed

lemma duplicate_count: "duplicate_count ids + card (set ids) = length ids"
proof -
  have "(if 1 < count_list ids i then count_list ids i - 1 else 0) + 1 = count_list ids i" if "i \<in> set ids" for i
    using that by (cases "count_list ids i") (auto simp: count_list_0_iff)
  then have "(\<Sum>i \<in> set ids. (if 1 < count_list ids i then count_list ids i - 1 else 0) + 1) =
      (\<Sum>i \<in> set ids. count_list ids i)"
    by (intro sum.cong) auto
  also have "\<dots> = length ids" by (rule sum_count_set) auto
  also have "duplicate_count ids = (\<Sum>i \<in> set ids. if 1 < count_list ids i then count_list ids i - 1 else 0)"
    unfolding duplicate_count_def by (simp add: sum_list_distinct_conv_sum_set)
  ultimately show ?thesis by (simp add: sum_Suc)
qed

section \<open>The phases of the test\<close>

lemma seeding_done:
  assumes d: "run orc (exec Pool DeleteOutbox) w = (Inr m, w1)"
    and s: "run orc (seedEvents url n) w1 = (Inr (), w2)" and pk: "pk_ok (tables w)"
  shows "pk_ok (tables w2) \<and> length (outbox (tables w2)) = n \<and> (\<forall>r \<in> set (outbox (tables w2)). seeded url r)"
proof -
  have "tables w1 = (tables w)\<lparr>outbox := []\<rparr>"
    using exec_pool_Inr [OF d] by (auto simp: sql_delete_outbox_def)
  moreover from this have "pk_ok (tables w1)" using pk by (simp add: pk_ok_def)
  ultimately show ?thesis using seedEvents_effect [OF s] by auto
qed

lemma wait_loop:
  "run orc (Sleep d (waitUntilDrained ps timeout)) w =
     run orc (drain_loop ps (o_clock orc (Suc (calls w)) + timeout)) (tick (tick w))"
  by (simp add: waitUntilDrained_def run_bindp time_Now_def)

lemma wait_ends:
  assumes "run orc (Sleep d (waitUntilDrained ps 30000000)) w = (None, w')"
  shows "\<not> (paced orc \<and> 301 \<le> length ps)"
proof
  assume l: "paced orc \<and> 301 \<le> length ps"
  then have "o_clock orc (Suc (calls w)) \<le> o_clock orc (calls (tick (tick w)))"
    by (simp add: paced_def monoD)
  with l drain_loop_ends [OF assms [unfolded wait_loop]] show False by fastforce
qed

lemma wait_drained:
  assumes "run orc (Sleep d (waitUntilDrained (map Run rounds) timeout)) w = (Some (Inr ()), w')"
    and "pk_ok (tables w)"
  shows "unsettled (tables w') = [] \<and> (\<exists>log. poller_run log w w')"
proof -
  have "pk_ok (tables (tick (tick w)))" using assms(2) by simp
  from drain_loop_drained [OF assms(1) [unfolded wait_loop] this]
  obtain log where log: "unsettled (tables w') = []" "poller_run log (tick (tick w)) w'" by blast
  have "poller_run [] w (tick (tick w))"
    by (auto simp: poller_run_def poller_frame_def log_live_def intro: list_all2_refl later_row_refl)
  from poller_run_trans [OF this log(2)] log(1) show ?thesis by blast
qed

text \<open>The states of a test that comes to its report.\<close>

lemma chaos_ended:
  assumes "chaostest orc reached url n ss rounds w = (Ended lost dup report, w')"
  obtains m w1 w2 w3 w4 counts where "run orc (exec Pool DeleteOutbox) w = (Inr m, w1)"
    "run orc (seedEvents url n) w1 = (Inr (), w2)" "run orc (Run ss) w2 = ((), w3)"
    "run orc (Sleep 500000 (waitUntilDrained (map Run rounds) 30000000)) w3 = (Some (Inr ()), w4)"
    "run orc queryStatusCounts w4 = (counts, w')"
    "lost = int n - count_of counts ''delivered'' - count_of counts ''dead_letter''"
    "dup = duplicate_count (deliveries reached (length (requests w)) w')"
  using assms unfolding chaostest_def Let_def
  by (auto simp del: Run.simps run.simps split: prod.splits sum.splits option.splits)

lemma chaos_waiting:
  assumes "chaostest orc reached url n ss rounds w = (Waiting, w')"
  obtains w3 where "run orc (Sleep 500000 (waitUntilDrained (map Run rounds) 30000000)) w3 = (None, w')"
  using assms unfolding chaostest_def Let_def
  by (auto simp del: Run.simps run.simps split: prod.splits sum.splits option.splits)

section \<open>Properties\<close>


text \<open>
  The reply of the merchant is lost: the event is sent a second time, and the test reports a
  duplicate although nothing is lost.
\<close>

definition lost_reply :: environ where
  "lost_reply = calm\<lparr>o_clock := (\<lambda>n. if n < 10 then 0 else 20000000),
     o_http := (\<lambda>n. if n = 7 then Inl ''timeout'' else Inr 200)\<rparr>"

lemma sample_pk: "pk_ok (tables sample_world)"
  using sample_ledger_ok by (simp add: sample_world_def ledger_ok_def books_ok_def constraints_pk)


end
