(* ===== verification/Interleave.thy ===== *)
theory Interleave
  imports System Drain
begin

text \<open>
  Pollers that run at the same time: any number of them is started, makes single calls in any
  order, hangs, is killed and is replaced, while handlers of the API run in between. A step is one
  call of one poller. What every poller may still do is described by a predicate on the rest of
  its program, \<open>mindful\<close>, that the steps of the others do not disturb.
\<close>

section \<open>Single calls of a program\<close>

primrec pstep :: "environ \<Rightarrow> 'a prog \<Rightarrow> world \<Rightarrow> 'a prog \<times> world" where
  "pstep orc (Ret a) w = (Ret a, w)"
| "pstep orc (BeginTx k) w = (case begin_tx orc w of (r, w') \<Rightarrow> (k r, w'))"
| "pstep orc (CommitTx k) w = (case commit_tx orc w of (r, w') \<Rightarrow> (k r, w'))"
| "pstep orc (RollbackTx p) w = (p, rollback_tx w)"
| "pstep orc (Exec c s k) w = (case call orc c s w of (r, w') \<Rightarrow> (k (map_sum id fst r), w'))"
| "pstep orc (Query c s k) w = (case call orc c s w of (r, w') \<Rightarrow> (k (map_sum id snd r), w'))"
| "pstep orc (NewUUID k) w = (k (o_uuid orc (calls w)), tick w)"
| "pstep orc (TimeNow k) w = (k (o_clock orc (calls w)), tick w)"
| "pstep orc (NewRequest u k) w = (k (o_bad_url orc u), tick w)"
| "pstep orc (DoRequest q k) w =
     (k (o_http orc (calls w)), tick (w\<lparr>requests := requests w @ [(q, o_http orc (calls w))]\<rparr>))"
| "pstep orc (Sleep d p) w = (p, tick w)"

lemma run_pstep: "run orc p w = (case pstep orc p w of (p', w') \<Rightarrow> run orc p' w')"
  by (cases p) (simp_all split: prod.split)

inductive istep :: "environ \<Rightarrow> unit prog list \<times> world \<Rightarrow> unit prog list \<times> world \<Rightarrow> bool" for orc where
  running: "i < length ps \<Longrightarrow> pstep orc (ps ! i) w = (p, w') \<Longrightarrow> istep orc (ps, w) (ps[i := p], w')"
| started: "istep orc (ps, w) (ps @ [Run ss], w)"
| killed: "istep orc (ps, w) (ps[i := Ret ()], w)"
| served: "run orc' (serve cfg W rq) w = (resp, w') \<Longrightarrow> istep orc (ps, w) (ps, w')"

section \<open>What a poller may still do\<close>

text \<open>The events on record, whatever their state.\<close>

definition plain :: "outbox_event \<Rightarrow> outbox_event" where
  "plain e = e\<lparr>E_Status := []\<rparr>"

lemma plain_simps [simp]:
  "E_ID (plain e) = E_ID e" "E_TargetURL (plain e) = E_TargetURL e" "request_of (plain e) = request_of e"
  "answered log (plain e) = answered log e" "no_url (plain e) = no_url e"
  "accepted log (plain e) = accepted log e" "rejected orc log (plain e) = rejected orc log e"
  "missed log (plain e) = missed log e" "plain (event_of (claim_row v n r)) = plain (event_of r)"
  by (simp_all add: plain_def request_of_def answered_def no_url_def accepted_def rejected_def missed_def
      event_of_def claim_row_def fun_eq_iff)

definition known :: "db \<Rightarrow> outbox_event set" where
  "known d = (\<lambda>r. plain (event_of r)) ` set (outbox d)"

text \<open>A mark is justified by the log.\<close>

fun mark_ok :: "environ \<Rightarrow> outbox_event set \<Rightarrow> log \<Rightarrow> stmt \<Rightarrow> bool" where
  "mark_ok orc K L (DeliverEvent i) = (\<exists>e \<in> K. E_ID e = i \<and> (no_url e \<or> accepted L e))"
| "mark_ok orc K L (KillEvent i reason) = (\<exists>e \<in> K. E_ID e = i \<and> rejected orc L e reason)"
| "mark_ok orc K L (FailEvent i reason n) =
     (n = poller_maxRetries \<and> (\<exists>e \<in> K. E_ID e = i \<and> missed L e reason))"
| "mark_ok orc K L s = False"

definition asked :: "outbox_event set \<Rightarrow> http_request \<Rightarrow> bool" where
  "asked K q \<longleftrightarrow> (\<exists>e \<in> K. \<exists>url. E_TargetURL e = Some url \<and> q = request_of e url)"

definition rows_known :: "outbox_event set \<Rightarrow> err + sqlval list list \<Rightarrow> bool" where
  "rows_known K r \<longleftrightarrow>
     (\<forall>rows. r = Inr rows \<longrightarrow>
       (\<exists>rs. rows = map outbox_row_vals rs \<and> (\<forall>x \<in> set rs. plain (event_of x) \<in> K)))"

definition grown :: "outbox_event set \<Rightarrow> log \<Rightarrow> outbox_event set \<Rightarrow> log \<Rightarrow> bool" where
  "grown K L K' L' \<longleftrightarrow> K \<subseteq> K' \<and> set L \<subseteq> set L'"

lemma grown_refl [simp]: "grown K L K L"
  by (simp add: grown_def)

lemma grown_trans: "grown K L K1 L1 \<Longrightarrow> grown K1 L1 K' L' \<Longrightarrow> grown K L K' L'"
  by (auto simp: grown_def)

text \<open>
  Whenever the program goes on, later, it sends on the pool only the claim and justified marks, and
  it requests only what is on record.
\<close>

primrec mindful ::
  "environ \<Rightarrow> ('a \<Rightarrow> outbox_event set \<Rightarrow> log \<Rightarrow> bool) \<Rightarrow> 'a prog \<Rightarrow> outbox_event set \<Rightarrow> log \<Rightarrow> bool" where
  "mindful orc Q (Ret a) K L = Q a K L"
| "mindful orc Q (BeginTx k) K L = False"
| "mindful orc Q (CommitTx k) K L = False"
| "mindful orc Q (RollbackTx p) K L = False"
| "mindful orc Q (Exec c s k) K L =
     (c = Pool \<and> mark_ok orc K L s \<and>
      (\<forall>r K' L'. grown K L K' L' \<longrightarrow> mindful orc Q (k r) K' L'))"
| "mindful orc Q (Query c s k) K L =
     (c = Pool \<and> s = ClaimEvents batchSize staleInFlightThreshold \<and>
      (\<forall>r K' L'. grown K L K' L' \<and> rows_known K' r \<longrightarrow> mindful orc Q (k r) K' L'))"
| "mindful orc Q (NewUUID k) K L = (\<forall>r K' L'. grown K L K' L' \<longrightarrow> mindful orc Q (k r) K' L')"
| "mindful orc Q (TimeNow k) K L = (\<forall>r K' L'. grown K L K' L' \<longrightarrow> mindful orc Q (k r) K' L')"
| "mindful orc Q (NewRequest u k) K L =
     (\<forall>K' L'. grown K L K' L' \<longrightarrow> mindful orc Q (k (o_bad_url orc u)) K' L')"
| "mindful orc Q (DoRequest q k) K L =
     (asked K q \<and>
      (\<forall>a K' L'. grown K L K' L' \<and> (q, a) \<in> set L' \<longrightarrow> mindful orc Q (k a) K' L'))"
| "mindful orc Q (Sleep d p) K L = (\<forall>K' L'. grown K L K' L' \<longrightarrow> mindful orc Q p K' L')"

lemma log_mono:
  assumes "set L \<subseteq> set L'"
  shows "answered L e a \<Longrightarrow> answered L' e a" "accepted L e \<Longrightarrow> accepted L' e"
    "rejected orc L e m \<Longrightarrow> rejected orc L' e m" "missed L e m \<Longrightarrow> missed L' e m"
proof -
  show a: "answered L e a \<Longrightarrow> answered L' e a" for a using assms by (auto simp: answered_def)
  show "accepted L e \<Longrightarrow> accepted L' e" "rejected orc L e m \<Longrightarrow> rejected orc L' e m"
    "missed L e m \<Longrightarrow> missed L' e m"
    unfolding accepted_def rejected_def missed_def using a by blast+
qed

lemma mark_ok_grown: "mark_ok orc K L s \<Longrightarrow> grown K L K' L' \<Longrightarrow> mark_ok orc K' L' s"
  by (cases s) (auto simp: grown_def intro: log_mono)

lemma asked_grown: "asked K q \<Longrightarrow> grown K L K' L' \<Longrightarrow> asked K' q"
  by (auto simp: asked_def grown_def)

lemma mindful_grown:
  assumes p: "mindful orc Q p K L" and l: "grown K L K' L'" and Q: "\<And>a. Q a K L \<Longrightarrow> Q a K' L'"
  shows "mindful orc Q p K' L'"
proof -
  have t: "grown K L K1 L1" if "grown K' L' K1 L1" for K1 L1 using grown_trans [OF l that] .
  show ?thesis using p Q mark_ok_grown [OF _ l] asked_grown [OF _ l] by (cases p) (simp_all add: t)
qed

text \<open>What follows a program may go on from whatever it leaves.\<close>

definition goes_on where
  "goes_on orc Q R f K L \<longleftrightarrow>
     (\<forall>a K' L'. grown K L K' L' \<and> Q a K' L' \<longrightarrow> mindful orc R (f a) K' L')"

lemma goes_on_grown: "goes_on orc Q R f K L \<Longrightarrow> grown K L K' L' \<Longrightarrow> goes_on orc Q R f K' L'"
  unfolding goes_on_def using grown_trans by blast

lemma mindful_goes_on:
  "mindful orc Q p K L \<Longrightarrow> goes_on orc Q R f K L \<Longrightarrow> mindful orc R (bindp p f) K L"
proof (induction p arbitrary: K L)
  case (Ret a)
  then show ?case by (simp add: goes_on_def)
qed (simp_all add: goes_on_grown)

lemma mindful_bindp:
  assumes "mindful orc Q p K L"
    and "\<And>a K' L'. grown K L K' L' \<Longrightarrow> Q a K' L' \<Longrightarrow> mindful orc R (f a) K' L'"
  shows "mindful orc R (bindp p f) K L"
  by (rule mindful_goes_on [OF assms(1)]) (simp add: goes_on_def assms(2))

section \<open>The program of a poller is mindful\<close>

abbreviation any :: "'a \<Rightarrow> outbox_event set \<Rightarrow> log \<Rightarrow> bool" where
  "any \<equiv> \<lambda>_ _ _. True"

lemma mindful_mark: "mark_ok orc K L s \<Longrightarrow> mindful orc any (tryp (exec Pool s) (\<lambda>_. return ())) K L"
  by (simp add: tryp_def exec_def split: sum.split)

lemma mindful_MarkDelivered:
  "e \<in> K \<Longrightarrow> no_url e \<or> accepted L e \<Longrightarrow> mindful orc any (MarkDelivered (E_ID e)) K L"
  unfolding MarkDelivered_def by (rule mindful_mark) auto

lemma mindful_MarkDeadLetter:
  "e \<in> K \<Longrightarrow> rejected orc L e m \<Longrightarrow> mindful orc any (MarkDeadLetter (E_ID e) m) K L"
  unfolding MarkDeadLetter_def by (rule mindful_mark) auto

lemma mindful_MarkFailed:
  "e \<in> K \<Longrightarrow> missed L e m \<Longrightarrow> mindful orc any (MarkFailed (E_ID e) m poller_maxRetries) K L"
  unfolding MarkFailed_def by (rule mindful_mark) auto

lemma mindful_mark_loop:
  "e \<in> K \<Longrightarrow> no_url e \<or> accepted L e \<Longrightarrow> mindful orc any (mark_loop n (E_ID e)) K L"
proof (induction n arbitrary: K L)
  case (Suc n)
  have rest: "mindful orc any (mark_loop n (E_ID e)) K' L'" if "grown K L K' L'" for K' L'
    using Suc that by (auto simp: grown_def dest: log_mono)
  then have "mindful orc any (Sleep d (mark_loop n (E_ID e))) K' L'" if "grown K L K' L'" for K' L' d
    using that grown_trans by auto
  with rest show ?case
    by (auto intro!: mindful_bindp [OF mindful_MarkDelivered [OF Suc.prems]] split: sum.splits)
qed simp

lemma mindful_mark_answer:
  assumes e: "e \<in> K" and a: "answered L e a"
  shows "mindful orc any (mark_answer e a) K L"
proof -
  have failed: "mindful orc any (bindp (MarkFailed (E_ID e) m poller_maxRetries) (\<lambda>_. Ret ())) K L"
    if "missed L e m" for m by (rule mindful_bindp [OF mindful_MarkFailed [OF e that]]) simp
  have dead: "mindful orc any (bindp (MarkDeadLetter (E_ID e) m) (\<lambda>_. Ret ())) K L"
    if "rejected orc L e m" for m by (rule mindful_bindp [OF mindful_MarkDeadLetter [OF e that]]) simp
  show ?thesis
  proof (cases a)
    case (Inl m)
    then have "missed L e m" using a by (simp add: missed_def)
    with failed Inl show ?thesis by (simp add: mark_answer_def)
  next
    case (Inr c)
    consider "200 \<le> c \<and> c < 300" | "400 \<le> c \<and> c < 500"
      | "\<not> (200 \<le> c \<and> c < 300)" "\<not> (400 \<le> c \<and> c < 500)" by blast
    then show ?thesis
    proof cases
      case 1
      then have "accepted L e" using a Inr by (auto simp: accepted_def)
      with mindful_mark_loop [OF e] Inr 1 show ?thesis
        by (simp add: mark_answer_def markDeliveredWithRetry_def)
    next
      case 2
      then have "rejected orc L e (StatusText c)" using a Inr by (auto simp: rejected_def)
      from dead [OF this] Inr 2 show ?thesis by (simp add: mark_answer_def)
    next
      case 3
      then have "missed L e (StatusText c)" using a Inr by (auto simp: missed_def)
      from failed [OF this] Inr 3 show ?thesis by (auto simp: mark_answer_def)
    qed
  qed
qed

lemma mindful_deliver:
  assumes "plain e \<in> K"
  shows "mindful orc any (deliver e) K L"
proof (cases "no_url e")
  case True
  then have "mindful orc any (MarkDelivered (E_ID (plain e))) K L"
    by (intro mindful_MarkDelivered [OF assms]) simp
  then have "mindful orc any (bindp (MarkDelivered (E_ID e)) (\<lambda>_. Ret ())) K L"
    by (intro mindful_bindp) simp_all
  with True show ?thesis by (simp add: deliver_def)
next
  case False
  then obtain url where url: "E_TargetURL e = Some url" by (auto simp: no_url_def)
  have dead: "mindful orc any (bindp (MarkDeadLetter (E_ID e) (''bad target_url: '' @ m)) (\<lambda>_. Ret ())) K' L'"
    if "grown K L K' L'" "o_bad_url orc url = Some m" for m K' L'
  proof (rule mindful_bindp)
    have "rejected orc L' (plain e) (''bad target_url: '' @ m)" using url that(2) by (simp add: rejected_def)
    moreover have "plain e \<in> K'" using assms that(1) by (auto simp: grown_def)
    ultimately show "mindful orc any (MarkDeadLetter (E_ID e) (''bad target_url: '' @ m)) K' L'"
      using mindful_MarkDeadLetter [of "plain e"] by fastforce
  qed simp
  have answer: "mindful orc any (mark_answer e a) K' L'"
    if "grown K L K' L'" "(request_of e url, a) \<in> set L'" for a K' L'
  proof -
    have "mark_answer e a = mark_answer (plain e) a" by (simp add: mark_answer_def split: sum.split)
    moreover have "plain e \<in> K'" using assms that(1) by (auto simp: grown_def)
    moreover have "answered L' (plain e) a" using url that(2) by (auto simp: answered_def)
    ultimately show ?thesis using mindful_mark_answer by metis
  qed
  have "asked K' (request_of e url)" if "grown K L K' L'" for K' L'
  proof -
    have "plain e \<in> K'" "request_of e url = request_of (plain e) url" "E_TargetURL (plain e) = Some url"
      using assms url that by (auto simp: grown_def)
    then show ?thesis unfolding asked_def by blast
  qed
  note asked = this
  have "mindful orc any (case o_bad_url orc url of
        Some msg \<Rightarrow> bindp (MarkDeadLetter (E_ID e) (''bad target_url: '' @ msg)) (\<lambda>_. Ret ())
      | None \<Rightarrow> DoRequest (request_of e url) (mark_answer e)) K' L'"
    if l: "grown K L K' L'" for K' L'
    using dead [OF l] asked [OF l] answer [OF grown_trans [OF l]] by (simp split: option.split)
  note next_call = this
  have d: "deliver e = NewRequest url (\<lambda>bad. case bad of
        Some msg \<Rightarrow> bindp (MarkDeadLetter (E_ID e) (''bad target_url: '' @ msg)) (\<lambda>_. Ret ())
      | None \<Rightarrow> DoRequest (request_of e url) (mark_answer e))"
    using False url by (simp only: deliver_def if_False Let_def option.sel)
  show ?thesis unfolding d mindful.simps using next_call by blast
qed

lemma mindful_deliver_all:
  "\<forall>e \<in> set es. plain e \<in> K \<Longrightarrow> mindful orc any (deliver_all es) K L"
proof (induction es arbitrary: K L)
  case (Cons e es K L)
  have "mindful orc any (deliver_all es) K' L'" if "grown K L K' L'" for K' L'
    using Cons that by (auto simp: grown_def)
  moreover have "mindful orc any (deliver e) K L" using Cons.prems by (simp add: mindful_deliver)
  ultimately show ?case by (auto intro: mindful_bindp)
qed simp

text \<open>What a claim returns is on record.\<close>

definition all_known :: "err + outbox_event list \<Rightarrow> outbox_event set \<Rightarrow> log \<Rightarrow> bool" where
  "all_known r K L \<longleftrightarrow> (\<forall>es. r = Inr es \<longrightarrow> (\<forall>e \<in> set es. plain e \<in> K))"

lemma mindful_claim: "mindful orc all_known (ClaimPendingEvents batchSize) K L"
proof -
  have "all_known (case r of Inl e \<Rightarrow> Inl e | Inr rows \<Rightarrow> scan_rows scan_event rows) K' L'"
    if r: "rows_known K' r" for r K' L'
  proof (cases r)
    case (Inr rows)
    then obtain rs where rs: "rows = map outbox_row_vals rs" "\<forall>x \<in> set rs. plain (event_of x) \<in> K'"
      using r by (auto simp: rows_known_def)
    have "scan_rows scan_event rows = Inr (map event_of rs)"
      unfolding rs(1) by (rule scan_rows_map) (simp add: scan_event_of del: store_scan_defs)
    with Inr rs(2) show ?thesis by (auto simp: all_known_def)
  qed (simp add: all_known_def)
  then show ?thesis
    by (auto simp: ClaimPendingEvents_def tryp_def query_def all_known_def simp del: store_scan_defs
        split: sum.splits)
qed

lemma mindful_poll: "mindful orc any poll K L"
  unfolding poll_def
  by (rule mindful_bindp [OF mindful_claim])
    (auto simp: all_known_def intro!: mindful_bindp [OF mindful_deliver_all] split: sum.split)

lemma mindful_Run: "mindful orc any (Run ss) K L"
proof (induction ss arbitrary: K L)
  case (Cons s ss)
  then show ?case by (cases s) (auto intro!: mindful_bindp [OF mindful_poll])
qed simp

section \<open>Every call keeps the order\<close>

text \<open>An event that is settled is settled for a reason in the log.\<close>

definition row_justified :: "environ \<Rightarrow> log \<Rightarrow> outbox_row \<Rightarrow> bool" where
  "row_justified orc log r \<longleftrightarrow>
     (case ob_status r of
        Delivered \<Rightarrow> no_url (event_of r) \<or> accepted log (event_of r)
      | DeadLetter \<Rightarrow> \<exists>reason. ob_reason r = Some reason \<and>
          (rejected orc log (event_of r) reason \<or>
           (missed log (event_of r) reason \<and> poller_maxRetries \<le> ob_attempts r))
      | _ \<Rightarrow> True)"

lemma row_justified_grown: "row_justified orc log r \<Longrightarrow> set log \<subseteq> set log' \<Longrightarrow> row_justified orc log' r"
  unfolding row_justified_def by (cases "ob_status r") (auto dest: log_mono)

lemma same_plain:
  assumes "plain e = plain e'"
  shows "answered log e = answered log e'" "no_url e = no_url e'" "accepted log e = accepted log e'"
    "rejected orc log e = rejected orc log e'" "missed log e = missed log e'"
  using assms plain_simps by metis+

lemma same_event_plain: "same_event r r' \<Longrightarrow> plain (event_of r') = plain (event_of r)"
  by (simp add: same_event_def plain_def event_of_def)

lemma marked_same: "marked orc log e r r' \<Longrightarrow> same_event r r'"
  by (auto simp: same_event_def dest: marked_frame)

lemma marked_justified:
  assumes m: "marked orc log e r r'" and r: "row_justified orc log r" and e: "plain e = plain (event_of r)"
  shows "row_justified orc log r'"
proof (cases "r' = r")
  case True
  with r show ?thesis by simp
next
  case False
  have "plain e = plain (event_of r')" using same_event_plain [OF marked_same [OF m]] e by simp
  note same = same_plain [OF this]
  show ?thesis
    using marked_sound [OF m False] by (auto simp: row_justified_def same split: outbox_status.splits)
qed

text \<open>What a call may do to a row, with the log it is made with.\<close>

definition progress :: "environ \<Rightarrow> log \<Rightarrow> outbox_row \<Rightarrow> outbox_row \<Rightarrow> bool" where
  "progress orc log r r' \<longleftrightarrow> same_event r r' \<and> (row_justified orc log r \<longrightarrow> row_justified orc log r')"

lemma progress_refl: "progress orc log r r"
  by (simp add: progress_def same_event_def)

lemma progress_rows_refl [simp]: "list_all2 (progress orc log) os os"
  by (simp add: list_all2_refl progress_refl)

lemma mark_progress:
  assumes s: "mark_ok orc (known d) L s" and x: "exec_stmt v s d = Inr (n, rows, d')"
    and ids: "distinct (map ob_id (outbox d))"
  shows "d' = d\<lparr>outbox := outbox d'\<rparr> \<and> list_all2 (progress orc L) (outbox d) (outbox d')"
proof -
  obtain e where e: "e \<in> known d" and rows: "rows_at (E_ID e) (marked orc L e) d d'"
  proof (cases s)
    case (DeliverEvent i)
    then obtain e where "e \<in> known d" "E_ID e = i" "no_url e \<or> accepted L e" using s by auto
    moreover from this have "rows_at (E_ID e) (marked orc L e) d d'"
      using deliver_stmt_rows x DeliverEvent rows_at_mono delivered_once_marked by metis
    ultimately show ?thesis using that by blast
  next
    case (KillEvent i m)
    then obtain e where "e \<in> known d" "E_ID e = i" "rejected orc L e m" using s by auto
    with that show ?thesis using kill_stmt_rows x KillEvent by metis
  next
    case (FailEvent i m k)
    then obtain e where "e \<in> known d" "E_ID e = i" "missed L e m" "k = poller_maxRetries" using s by auto
    with that show ?thesis using fail_stmt_rows x FailEvent by metis
  qed (use s in auto)
  then obtain r0 where r0: "r0 \<in> set (outbox d)" "e = plain (event_of r0)" by (auto simp: known_def)
  have "progress orc L r r'" if "r \<in> set (outbox d)" "row_step (\<lambda>r. ob_id r = E_ID e) (marked orc L e) r r'" for r r'
  proof (cases "ob_id r = E_ID e")
    case True
    then have "ob_id r = ob_id r0" using r0(2) by (simp add: event_of_def)
    with ids that(1) r0(1) have "r = r0" by (simp add: distinct_map inj_on_def)
    then have "plain e = plain (event_of r)" using r0(2) by (simp add: plain_def)
    moreover have "marked orc L e r r'" using that(2) True by (simp add: row_step_def)
    ultimately show ?thesis using marked_justified marked_same by (auto simp: progress_def)
  next
    case False
    with that(2) show ?thesis by (simp add: row_step_def progress_refl)
  qed
  with rows show ?thesis by (auto simp: rows_at_def elim: list.rel_mono_strong)
qed

lemma claim_progress: "list_all2 (progress orc L) (outbox d) (outbox (claimed_db v d))"
proof -
  have "progress orc L r (taken v r)" for r
    by (simp add: progress_def row_justified_def) (simp add: same_event_def claim_row_def)
  then show ?thesis by (simp add: claimed_db_def list_all2_map2 list.rel_refl_strong progress_refl)
qed

definition in_order :: "environ \<Rightarrow> (int \<Rightarrow> int) \<Rightarrow> world \<Rightarrow> bool" where
  "in_order orc seed w \<longleftrightarrow>
     txn w = None \<and> ledger_ok seed (tables w) \<and> ids_below w \<and> (\<forall>i \<ge> acc_seq w. seed i = 0) \<and>
     (\<forall>r \<in> set (outbox (tables w)). row_justified orc (requests w) r) \<and>
     (\<forall>q \<in> set (requests w). asked (known (tables w)) (fst q))"

text \<open>The events are kept, new ones come behind them.\<close>

definition extends :: "db \<Rightarrow> db \<Rightarrow> bool" where
  "extends d d' \<longleftrightarrow> (\<exists>os new. outbox d' = os @ new \<and> list_all2 same_event (outbox d) os)"

definition onward :: "world \<Rightarrow> world \<Rightarrow> bool" where
  "onward w w' \<longleftrightarrow>
     grown (known (tables w)) (requests w) (known (tables w')) (requests w') \<and>
     extends (tables w) (tables w') \<and> total_balance (tables w') = total_balance (tables w)"

lemma same_event_trans: "same_event r r1 \<Longrightarrow> same_event r1 r' \<Longrightarrow> same_event r r'"
  by (simp add: same_event_def)

lemma same_event_refl [simp]: "same_event r r"
  by (simp add: same_event_def)

lemma extends_refl [simp]: "extends d d"
  unfolding extends_def by (rule exI [of _ "outbox d"], rule exI [of _ "[]"]) (simp add: list_all2_refl)

lemma extends_trans:
  assumes "extends d d1" and "extends d1 d'"
  shows "extends d d'"
proof -
  obtain os new os' new' where 1: "outbox d1 = os @ new" "list_all2 same_event (outbox d) os"
    "outbox d' = os' @ new'" "list_all2 same_event (os @ new) os'"
    using assms by (auto simp: extends_def)
  obtain os1 os2 where 2: "os' = os1 @ os2" "list_all2 same_event os os1"
    using 1(4) unfolding list_all2_append1 by blast
  have "list_all2 same_event (outbox d) os1" by (rule list_all2_trans [OF same_event_trans 1(2) 2(2)])
  moreover have "outbox d' = os1 @ (os2 @ new')" using 1(3) 2(1) by simp
  ultimately show ?thesis unfolding extends_def by blast
qed

lemma known_same:
  assumes "list_all2 same_event (outbox d) (outbox d')"
  shows "known d' = known d"
proof -
  have "map (\<lambda>r. plain (event_of r)) (outbox d') = map (\<lambda>r. plain (event_of r)) (outbox d)"
    using assms by (induction rule: list_all2_induct) (auto dest: same_event_plain)
  then show ?thesis unfolding known_def by (metis list.set_map)
qed

text \<open>A call that changes the outbox only, by progress of its rows.\<close>

lemma outbox_call_in_order:
  assumes ok: "in_order orc seed w" and t: "tables w' = (tables w)\<lparr>outbox := outbox (tables w')\<rparr>"
    and rows: "list_all2 (progress orc (requests w)) (outbox (tables w)) (outbox (tables w'))"
    and same: "txn w' = txn w" "requests w' = requests w" "ids_step w w'"
  shows "in_order orc seed w' \<and> onward w w' \<and> known (tables w') = known (tables w)"
proof -
  have ev: "list_all2 same_event (outbox (tables w)) (outbox (tables w'))"
    using rows by (rule list_all2_mono) (simp add: progress_def)
  have "ledger_ok seed (tables w')" using outbox_progress_ledger [OF ev] ok t by (simp add: in_order_def)
  moreover have "\<forall>r' \<in> set (outbox (tables w')). row_justified orc (requests w) r'"
    using list_all2_memD2 [OF rows] ok by (fastforce simp: progress_def in_order_def)
  moreover have "accounts (tables w') = accounts (tables w)" by (subst t) simp
  moreover have "extends (tables w) (tables w')" using ev by (auto simp: extends_def)
  ultimately show ?thesis
    using ok same known_same [OF ev]
    by (auto simp: in_order_def onward_def ids_step_def total_balance_def)
qed

lemma unchanged_in_order:
  assumes "in_order orc seed w" and "tables w' = tables w" "txn w' = txn w" "requests w' = requests w" "ids_step w w'"
  shows "in_order orc seed w' \<and> onward w w' \<and> known (tables w') = known (tables w)"
  by (rule outbox_call_in_order [OF assms(1)]) (use assms(2-) in auto)

lemma pool_call_in_order:
  assumes c: "call orc Pool s w = (r, w')" and ok: "in_order orc seed w"
    and d: "\<And>n rows d. exec_stmt (pool_env orc s w) s (tables w) = Inr (n, rows, d) \<Longrightarrow>
      d = (tables w)\<lparr>outbox := outbox d\<rparr> \<and>
      list_all2 (progress orc (requests w)) (outbox (tables w)) (outbox d)"
  shows "in_order orc seed w' \<and> onward w w' \<and> known (tables w') = known (tables w)"
proof -
  have p: "pool_frame w w'" "pool_tables orc s w r w'"
    using c call_pool_effect by (auto simp: call_def)
  have "tables w' = tables w \<or> (\<exists>n rows. exec_stmt (pool_env orc s w) s (tables w) = Inr (n, rows, tables w'))"
    using p(2) by (auto simp: pool_tables_def split: sum.splits if_splits)
  then have "tables w' = (tables w)\<lparr>outbox := outbox (tables w')\<rparr> \<and>
      list_all2 (progress orc (requests w)) (outbox (tables w)) (outbox (tables w'))"
    using d by auto
  moreover have "ids_step w w'" by (rule call_ids [OF c])
  ultimately show ?thesis
    using p(1) by (intro outbox_call_in_order [OF ok]) (auto simp: pool_frame_def)
qed

lemma rows_known_taken:
  assumes "\<forall>r \<in> set rs. plain (event_of r) \<in> K"
  shows "\<exists>xs. map (\<lambda>r. outbox_row_vals (taken v r)) rs = map outbox_row_vals xs \<and>
    (\<forall>x \<in> set xs. plain (event_of x) \<in> K)"
  using assms by (intro exI [of _ "map (taken v) rs"]) auto

lemma in_order_ids: "in_order orc seed w \<Longrightarrow> distinct (map ob_id (outbox (tables w)))"
  by (simp add: in_order_def ledger_ok_def books_ok_def constraints_ok_def)

text \<open>One call of a mindful program.\<close>

lemma pstep_keeps:
  assumes st: "pstep orc p w = (p', w')" and m: "mindful orc any p (known (tables w)) (requests w)"
    and ok: "in_order orc seed w"
  shows "in_order orc seed w' \<and> onward w w' \<and> mindful orc any p' (known (tables w')) (requests w')"
proof (cases p)
  case (Exec c s k)
  then obtain r where c: "call orc Pool s w = (r, w')" and p': "p' = k (map_sum id fst r)"
    using st m by (auto split: prod.splits)
  have "in_order orc seed w' \<and> onward w w' \<and> known (tables w') = known (tables w)"
    using m Exec by (intro pool_call_in_order [OF c ok] mark_progress in_order_ids [OF ok]) auto
  with m Exec p' show ?thesis by (auto simp: onward_def)
next
  case (Query c s k)
  then obtain r where c: "call orc Pool s w = (r, w')" and p': "p' = k (map_sum id snd r)"
    using st m by (auto split: prod.splits)
  have s: "s = ClaimEvents batchSize staleInFlightThreshold" using m Query by simp
  let ?v = "pool_env orc s w"
  have x: "exec_stmt ?v s (tables w) = Inr (length (batch ?v (tables w)),
      map (\<lambda>r. outbox_row_vals (taken ?v r)) (batch ?v (tables w)), claimed_db ?v (tables w))"
    unfolding s by (rule exec_claim)
  have "claimed_db ?v (tables w) = (tables w)\<lparr>outbox := outbox (claimed_db ?v (tables w))\<rparr>"
    by (simp add: claimed_db_def)
  then have k: "in_order orc seed w' \<and> onward w w' \<and> known (tables w') = known (tables w)"
    using x claim_progress by (intro pool_call_in_order [OF c ok]) auto
  have "pool_tables orc s w r w'" using c call_pool_effect by (auto simp: call_def)
  moreover have "\<forall>r \<in> set (batch ?v (tables w)). plain (event_of r) \<in> known (tables w)"
    by (auto simp: batch_def known_def)
  ultimately have "rows_known (known (tables w)) (map_sum id snd r)"
    using rows_known_taken by (auto simp: pool_tables_def x rows_known_def split: if_splits)
  with k m Query p' show ?thesis by (auto simp: onward_def)
next
  case (DoRequest q k)
  let ?a = "o_http orc (calls w)"
  have w': "w' = tick (w\<lparr>requests := requests w @ [(q, ?a)]\<rparr>)" and p': "p' = k ?a"
    using st DoRequest by auto
  have l: "grown (known (tables w)) (requests w) (known (tables w)) (requests w @ [(q, ?a)])"
    by (auto simp: grown_def)
  have "ids_step w w'" unfolding w' by (rule tick_ids)
  moreover have "row_justified orc (requests w @ [(q, ?a)]) r" if "r \<in> set (outbox (tables w))" for r
    by (rule row_justified_grown [where log = "requests w"]) (use ok that in \<open>auto simp: in_order_def\<close>)
  ultimately have "in_order orc seed w'"
    using ok m DoRequest w' by (auto simp: in_order_def ids_step_def)
  then show ?thesis using l m DoRequest p' w' by (auto simp: onward_def)
qed (use st m unchanged_in_order [OF ok, of "tick w"] tick_ids ok in \<open>auto simp: onward_def\<close>)

text \<open>A handler of the API.\<close>

lemma serve_keeps:
  assumes run: "run orc' (serve cfg W rq) w = (resp, w')" and ok: "in_order orc seed w"
  shows "in_order orc seed w' \<and> onward w w'"
proof -
  have w: "txn w = None" "ledger_ok seed (tables w)" "\<forall>i \<ge> acc_seq w. seed i = 0" "ids_below w"
    using ok by (auto simp: in_order_def)
  have api: "api_effect W rq w (tables w')" "txn w' = None" "requests w' = requests w"
    using serve_effect [OF w(1,2) run] by auto
  obtain new where new: "ledger_ok seed (tables w')" "total_balance (tables w') = total_balance (tables w)"
    "outbox (tables w') = outbox (tables w) @ new" "\<forall>r \<in> set new. ob_status r = Pending"
    using api_keeps [OF api(1) w(2,3)] by blast
  have l: "grown (known (tables w)) (requests w) (known (tables w')) (requests w')"
    using new(3) api(3) by (auto simp: grown_def known_def)
  have "ids_step w w'" by (rule run_ids [OF run])
  moreover have "\<forall>r \<in> set new. row_justified orc (requests w) r" using new(4) by (simp add: row_justified_def)
  moreover have "\<forall>q \<in> set (requests w'). asked (known (tables w')) (fst q)"
    using ok l api(3) asked_grown [OF _ l] by (simp add: in_order_def)
  ultimately have "in_order orc seed w'"
    using ok new api by (auto simp: in_order_def ids_step_def)
  moreover have "extends (tables w) (tables w')"
    unfolding extends_def new(3) by (blast intro: list_all2_refl same_event_refl)
  ultimately show ?thesis using new(2) l by (simp add: onward_def)
qed

lemma onward_refl [simp]: "onward w w"
  by (simp add: onward_def)

lemma onward_trans: "onward w w1 \<Longrightarrow> onward w1 w' \<Longrightarrow> onward w w'"
  unfolding onward_def using grown_trans extends_trans by metis

section \<open>Any interleaving\<close>

definition all_mindful :: "environ \<Rightarrow> unit prog list \<Rightarrow> world \<Rightarrow> bool" where
  "all_mindful orc ps w \<longleftrightarrow> (\<forall>p \<in> set ps. mindful orc any p (known (tables w)) (requests w))"

lemma all_mindful_grown: "all_mindful orc ps w \<Longrightarrow> onward w w' \<Longrightarrow> all_mindful orc ps w'"
  unfolding all_mindful_def onward_def using mindful_grown by blast

lemma istep_keeps:
  assumes "istep orc (ps, w) (ps', w')" and ok: "in_order orc seed w" and m: "all_mindful orc ps w"
  shows "in_order orc seed w' \<and> onward w w' \<and> all_mindful orc ps' w'"
  using assms(1)
proof cases
  case (running i p)
  have "mindful orc any (ps ! i) (known (tables w)) (requests w)" using m running(2) by (simp add: all_mindful_def)
  from pstep_keeps [OF running(3) this ok] have k: "in_order orc seed w'" "onward w w'"
    "mindful orc any p (known (tables w')) (requests w')" by auto
  have "all_mindful orc ps' w'"
    using all_mindful_grown [OF m k(2)] k(3) running(1)
    by (auto simp: all_mindful_def dest!: set_update_subset_insert [THEN subsetD])
  with k show ?thesis by simp
next
  case (served orc' cfg W rq resp)
  with serve_keeps [OF served(2) ok] all_mindful_grown [OF m] show ?thesis by simp
qed (use ok m in \<open>auto simp: all_mindful_def mindful_Run dest!: set_update_subset_insert [THEN subsetD]\<close>)

lemma isteps_keep:
  assumes "(istep orc)\<^sup>*\<^sup>* s s'" and "in_order orc seed (snd s)" and "all_mindful orc (fst s) (snd s)"
  shows "in_order orc seed (snd s') \<and> onward (snd s) (snd s') \<and> all_mindful orc (fst s') (snd s')"
  using assms
proof (induction rule: rtranclp_induct)
  case (step s1 s2)
  then have 1: "in_order orc seed (snd s1)" "onward (snd s) (snd s1)" "all_mindful orc (fst s1) (snd s1)" by auto
  have "istep orc (fst s1, snd s1) (fst s2, snd s2)" using step(2) by simp
  from istep_keeps [OF this 1(1,3)] onward_trans [OF 1(2)] show ?case by blast
qed simp

section \<open>Schedules\<close>

text \<open>A schedule: which poller is started, makes its next call, or is killed.\<close>

datatype move = Start "signal list" | Call nat | Kill nat

fun play :: "environ \<Rightarrow> move list \<Rightarrow> unit prog list \<times> world \<Rightarrow> unit prog list \<times> world" where
  "play orc [] s = s"
| "play orc (Start ss # ms) (ps, w) = play orc ms (ps @ [Run ss], w)"
| "play orc (Call i # ms) (ps, w) =
     (if i < length ps then
        (case pstep orc (ps ! i) w of (p, w') \<Rightarrow> play orc ms (ps[i := p], w'))
      else play orc ms (ps, w))"
| "play orc (Kill i # ms) (ps, w) = play orc ms (ps[i := Ret ()], w)"

lemma play_isteps: "(istep orc)\<^sup>*\<^sup>* s (play orc ms s)"
proof (induction orc ms s rule: play.induct)
  case (2 orc ss ms ps w)
  then show ?case using converse_rtranclp_into_rtranclp [of "istep orc", OF istep.started] by simp
next
  case (3 orc i ms ps w)
  show ?case
  proof (cases "i < length ps")
    case True
    obtain p w' where p: "pstep orc (ps ! i) w = (p, w')" by fastforce
    have "(istep orc)\<^sup>*\<^sup>* (ps[i := p], w') (play orc ms (ps[i := p], w'))"
      using 3(1) [OF True p [symmetric]] by simp
    with converse_rtranclp_into_rtranclp [of "istep orc", OF istep.running [OF True p]] show ?thesis
      using True p by simp
  qed (use 3 in simp)
next
  case (4 orc i ms ps w)
  then show ?case using converse_rtranclp_into_rtranclp [of "istep orc", OF istep.killed] by simp
qed simp

section \<open>Properties\<close>

text \<open>
  C12. Pollers may overlap: however many of them are started, interrupted at any call, killed and
  replaced while handlers of the API run in between, and whatever calls fail, the ledger stays in
  order, no event is lost or altered, every event that is delivered or dead is so for a reason
  found in the answers, and every request is the one for an event on record.
\<close>

theorem overlapping_pollers_justified:
  assumes "(istep orc)\<^sup>*\<^sup>* ([], w) (ps, w')" and "in_order orc seed w"
  shows "txn w' = None \<and> ledger_ok seed (tables w') \<and>
    total_balance (tables w') = total_balance (tables w) \<and>
    (\<exists>os new. outbox (tables w') = os @ new \<and> list_all2 same_event (outbox (tables w)) os) \<and>
    (\<forall>r \<in> set (outbox (tables w')). case ob_status r of
        Delivered \<Rightarrow> no_url (event_of r) \<or> accepted (requests w') (event_of r)
      | DeadLetter \<Rightarrow> \<exists>reason. ob_reason r = Some reason \<and>
          (rejected orc (requests w') (event_of r) reason \<or>
           (missed (requests w') (event_of r) reason \<and> poller_maxRetries \<le> ob_attempts r))
      | _ \<Rightarrow> True) \<and>
    (\<forall>q \<in> set (requests w'). \<exists>r \<in> set (outbox (tables w')). request_for r (fst q))"
proof -
  have "in_order orc seed w'" "onward w w'"
    using isteps_keep [OF assms(1)] assms(2) by (auto simp: all_mindful_def)
  moreover have "\<exists>r \<in> set (outbox d). request_for r q" if "asked (known d) q" for d q
    using that by (auto simp: asked_def known_def request_for_def request_of_def event_of_def plain_def)
  ultimately show ?thesis
    by (auto simp: in_order_def onward_def extends_def row_justified_def)
qed

lemma paid_in_order: "in_order orc sample_seed paid_world"
proof -
  have "list_all (\<lambda>r. ob_status r = Pending) (outbox (tables paid_world)) \<and> requests paid_world = []"
    unfolding paid_world_eq by code_simp
  then show ?thesis using paid_system
    by (simp add: in_order_def system_ok_def row_justified_def list_all_iff)
qed

text \<open>
  Two pollers: the first claims the event and sends its request, which times out; meanwhile its
  lease ends, the second claims the event as well and delivers it.
\<close>

definition slow_env :: environ where
  "slow_env = calm\<lparr>o_clock := (\<lambda>n. 40000000 * int n),
     o_http := (\<lambda>n. if n = calls paid_world + 2 then Inl ''timeout'' else Inr 200)\<rparr>"

definition overlap :: "move list" where
  "overlap = [Start [Tick], Start [Tick], Call 0, Call 0, Call 0, Call 1, Call 1, Call 1, Call 1]"

lemma overlap_states:
  "map ob_status (outbox (tables (snd (play slow_env overlap ([], paid_world))))) = [Delivered]"
  "map ob_status (outbox (tables (snd (play slow_env (overlap @ [Call 0]) ([], paid_world))))) = [Pending]"
  "length (requests (snd (play slow_env overlap ([], paid_world)))) = 2"
  unfolding slow_env_def paid_world_eq by code_simp+

theorem overlapping_pollers_justified_witness:
  "\<exists>r. outbox (tables (snd (play slow_env overlap ([], paid_world)))) = [r] \<and>
     (no_url (event_of r) \<or> accepted (requests (snd (play slow_env overlap ([], paid_world)))) (event_of r))"
proof -
  obtain ps w' where p: "play slow_env overlap ([], paid_world) = (ps, w')" by fastforce
  then have "(istep slow_env)\<^sup>*\<^sup>* ([], paid_world) (ps, w')" using play_isteps by metis
  from overlapping_pollers_justified [OF this paid_in_order] overlap_states(1) p show ?thesis by auto
qed

text \<open>
  C13. A mark is not tied to the claim it belongs to: a poller whose lease has ended can put an event
  back that another one has delivered, so that it is sent again.
\<close>

theorem stale_mark_undoes_delivery:
  "\<exists>orc ps1 w1 ps2 w2. (istep orc)\<^sup>*\<^sup>* ([], paid_world) (ps1, w1) \<and> (istep orc)\<^sup>*\<^sup>* (ps1, w1) (ps2, w2) \<and>
     map ob_status (outbox (tables w1)) = [Delivered] \<and>
     map ob_status (outbox (tables w2)) = [Pending]"
proof -
  obtain ps1 w1 where p: "play slow_env overlap ([], paid_world) = (ps1, w1)" by fastforce
  obtain ps2 w2 where q: "play slow_env [Call 0] (ps1, w1) = (ps2, w2)" by fastforce
  have "play orc (ms @ ns) s = play orc ns (play orc ms s)" for orc ms ns s
    by (induction orc ms s rule: play.induct) (auto split: prod.splits)
  then have "play slow_env (overlap @ [Call 0]) ([], paid_world) = (ps2, w2)" using p q by simp
  then show ?thesis
    using overlap_states(1,2) p play_isteps [of slow_env "([], paid_world)" overlap]
      play_isteps [of slow_env "(ps1, w1)" "[Call 0]"] q
    by (intro exI [of _ slow_env] exI [of _ ps1] exI [of _ w1] exI [of _ ps2] exI [of _ w2]) simp
qed

end
