(* ===== verification/Locks.thy ===== *)
theory Locks
  imports Interleave
begin

text \<open>
  Row locks. \<open>locks\<close> names the rows that a statement locks until its transaction ends: the rows it
  changes, inserts or selects \<open>FOR UPDATE\<close>. \<open>apart H d d'\<close> says that the tables went from \<open>d\<close> to
  \<open>d'\<close> without touching the rows \<open>H\<close>. A statement touches only what it locks, and a statement
  whose rows are locked has the same reply however the other rows change meanwhile.
\<close>

section \<open>Rows and locks\<close>

text \<open>A row by its primary key or another unique column.\<close>

datatype row_id =
    AccountRow int
  | KeyRow string
  | TransferRow uuid
  | TransferKey string
  | PostingRow int
  | EventRow uuid

text \<open>The locks of a statement that affected \<open>n\<close> rows and returned \<open>rows\<close>.\<close>

fun locks :: "env \<Rightarrow> stmt \<Rightarrow> nat \<Rightarrow> sqlval list list \<Rightarrow> row_id list" where
  "locks v (DebitIfFunds amt i) n rows = (if n = 0 then [] else [AccountRow (sint i)])"
| "locks v (SelectBalanceForUpdate i) n rows = (if rows = [] then [] else [AccountRow (sint i)])"
| "locks v (DebitById amt i) n rows = (if n = 0 then [] else [AccountRow (sint i)])"
| "locks v (CreditById amt i) n rows = (if n = 0 then [] else [AccountRow (sint i)])"
| "locks v (LockPair lo hi) n rows = [AccountRow i. [VInt i] \<leftarrow> rows]"
| "locks v (InsertTransfer tid key amt cur f t) n rows = [TransferRow tid, TransferKey key]"
| "locks v (InsertPostings tid i1 a1 i2 a2) n rows = [PostingRow (e_id v), PostingRow (e_id v + 1)]"
| "locks v (InsertKey key h) n rows = (if n = 0 then [] else [KeyRow key])"
| "locks v (StealKey h key threshold) n rows = (if n = 0 then [] else [KeyRow key])"
| "locks v (CompleteKey code body key) n rows = (if n = 0 then [] else [KeyRow key])"
| "locks v (InsertAccount name cur url) n rows = [AccountRow (e_id v)]"
| "locks v (UpdateWebhook url i) n rows = (if n = 0 then [] else [AccountRow (sint i)])"
| "locks v (InsertOutbox ty payload url) n rows = [EventRow (e_uuid v)]"
| "locks v (ClaimEvents lim threshold) n rows = [EventRow i. VText i # _ \<leftarrow> rows]"
| "locks v (DeliverEvent i) n rows = (if n = 0 then [] else [EventRow i])"
| "locks v (KillEvent i reason) n rows = (if n = 0 then [] else [EventRow i])"
| "locks v (FailEvent i reason m) n rows = (if n = 0 then [] else [EventRow i])"
| "locks v s n rows = []"

text \<open>The statements of the executors inside their transactions.\<close>

fun tx_stmt :: "stmt \<Rightarrow> bool" where
  "tx_stmt (DebitIfFunds _ _) = True"
| "tx_stmt (AccountExists _) = True"
| "tx_stmt (SelectBalanceForUpdate _) = True"
| "tx_stmt (DebitById _ _) = True"
| "tx_stmt (LockPair _ _) = True"
| "tx_stmt (CreditById _ _) = True"
| "tx_stmt (SelectCurrencies _ _) = True"
| "tx_stmt (InsertTransfer _ _ _ _ _ _) = True"
| "tx_stmt (InsertPostings _ _ _ _ _) = True"
| "tx_stmt (InsertKey _ _) = True"
| "tx_stmt (SelectKey _) = True"
| "tx_stmt (StealKey _ _ _) = True"
| "tx_stmt (CompleteKey _ _ _) = True"
| "tx_stmt (SelectWebhook _) = True"
| "tx_stmt (InsertOutbox _ _ _) = True"
| "tx_stmt _ = False"

text \<open>The statements that handlers and pollers send on the pool and that change something.\<close>

fun pool_stmt :: "stmt \<Rightarrow> bool" where
  "pool_stmt (InsertAccount _ _ _) = True"
| "pool_stmt (UpdateWebhook _ _) = True"
| "pool_stmt (ClaimEvents _ _) = True"
| "pool_stmt (DeliverEvent _) = True"
| "pool_stmt (KillEvent _ _) = True"
| "pool_stmt (FailEvent _ _ _) = True"
| "pool_stmt _ = False"

section \<open>Changes apart from the locked rows\<close>

text \<open>
  No account goes away or changes its currency, no key or transfer goes away; the rows in \<open>H\<close> stay
  as they are, and where there is none, none appears.
\<close>

definition accounts_apart :: "row_id set \<Rightarrow> db \<Rightarrow> db \<Rightarrow> bool" where
  "accounts_apart H d d' \<longleftrightarrow>
     (\<forall>i a. find_account i d = Some a \<longrightarrow>
        (\<exists>a'. find_account i d' = Some a' \<and> acc_currency a' = acc_currency a)) \<and>
     (\<forall>i. AccountRow i \<in> H \<longrightarrow> find_account i d' = find_account i d)"

definition keys_apart :: "row_id set \<Rightarrow> db \<Rightarrow> db \<Rightarrow> bool" where
  "keys_apart H d d' \<longleftrightarrow>
     (\<forall>k. find_key k d \<noteq> None \<longrightarrow> find_key k d' \<noteq> None) \<and>
     (\<forall>k. KeyRow k \<in> H \<longrightarrow> find_key k d' = find_key k d)"

definition ids_apart :: "row_id set \<Rightarrow> db \<Rightarrow> db \<Rightarrow> bool" where
  "ids_apart H d d' \<longleftrightarrow>
     tr_id ` set (transfers d) \<subseteq> tr_id ` set (transfers d') \<and>
     (\<forall>i. TransferRow i \<in> H \<longrightarrow> i \<in> tr_id ` set (transfers d') \<longrightarrow> i \<in> tr_id ` set (transfers d)) \<and>
     (\<forall>k. TransferKey k \<in> H \<longrightarrow> k \<in> tr_key ` set (transfers d') \<longrightarrow> k \<in> tr_key ` set (transfers d)) \<and>
     (\<forall>i. PostingRow i \<in> H \<longrightarrow> i \<in> po_id ` set (postings d') \<longrightarrow> i \<in> po_id ` set (postings d)) \<and>
     (\<forall>i. EventRow i \<in> H \<longrightarrow> i \<in> ob_id ` set (outbox d') \<longrightarrow> i \<in> ob_id ` set (outbox d))"

definition apart :: "row_id set \<Rightarrow> db \<Rightarrow> db \<Rightarrow> bool" where
  "apart H d d' \<longleftrightarrow> accounts_apart H d d' \<and> keys_apart H d d' \<and> ids_apart H d d'"

lemma apart_refl [simp]: "accounts_apart H d d" "keys_apart H d d" "ids_apart H d d" "apart H d d"
  by (simp_all add: accounts_apart_def keys_apart_def ids_apart_def apart_def)

lemma accounts_apart_trans: "accounts_apart H d d1 \<Longrightarrow> accounts_apart H d1 d' \<Longrightarrow> accounts_apart H d d'"
  unfolding accounts_apart_def by (metis (no_types, lifting))

lemma keys_apart_trans: "keys_apart H d d1 \<Longrightarrow> keys_apart H d1 d' \<Longrightarrow> keys_apart H d d'"
  unfolding keys_apart_def by simp

lemma ids_apart_trans: "ids_apart H d d1 \<Longrightarrow> ids_apart H d1 d' \<Longrightarrow> ids_apart H d d'"
  unfolding ids_apart_def by (meson subset_trans)

lemma apart_trans: "apart H d d1 \<Longrightarrow> apart H d1 d' \<Longrightarrow> apart H d d'"
  unfolding apart_def by (blast intro: accounts_apart_trans keys_apart_trans ids_apart_trans)

lemma apart_mono: "apart H d d' \<Longrightarrow> H' \<subseteq> H \<Longrightarrow> apart H' d d'"
  unfolding apart_def accounts_apart_def keys_apart_def ids_apart_def by (simp add: subset_iff)

lemma apart_account: "apart H d d' \<Longrightarrow> AccountRow i \<in> H \<Longrightarrow> find_account i d' = find_account i d"
  by (simp add: apart_def accounts_apart_def)

lemma apart_key: "apart H d d' \<Longrightarrow> KeyRow k \<in> H \<Longrightarrow> find_key k d' = find_key k d"
  by (simp add: apart_def keys_apart_def)

lemma apart_has: "apart H d d' \<Longrightarrow> find_account i d = Some a \<Longrightarrow>
    \<exists>a'. find_account i d' = Some a' \<and> acc_currency a' = acc_currency a"
  by (simp add: apart_def accounts_apart_def)

lemma accounts_apart_same:
  "accounts d1 = accounts d \<Longrightarrow> accounts d1' = accounts d' \<Longrightarrow> accounts_apart H d1 d1' = accounts_apart H d d'"
  by (simp add: accounts_apart_def find_account_def)

lemma keys_apart_same:
  "idem_keys d1 = idem_keys d \<Longrightarrow> idem_keys d1' = idem_keys d' \<Longrightarrow> keys_apart H d1 d1' = keys_apart H d d'"
  by (simp add: keys_apart_def find_key_def)

lemma ids_apart_same:
  "transfers d1 = transfers d \<Longrightarrow> transfers d1' = transfers d' \<Longrightarrow> postings d1 = postings d \<Longrightarrow>
   postings d1' = postings d' \<Longrightarrow> outbox d1 = outbox d \<Longrightarrow> outbox d1' = outbox d' \<Longrightarrow>
   ids_apart H d1 d1' = ids_apart H d d'"
  by (simp add: ids_apart_def)

section \<open>Replacing rows\<close>

lemma put_account_pk [simp]: "pk_ok (put_account a d) = pk_ok d"
  by (simp add: pk_ok_def)

lemma put_account_parts [simp]:
  "keys_apart H d (put_account b d)" "ids_apart H d (put_account b d)"
  "keys_apart H (put_account b d) (put_account b' d') = keys_apart H d d'"
  "ids_apart H (put_account b d) (put_account b' d') = ids_apart H d d'"
  using keys_apart_same [of d d "put_account b d" d H] keys_apart_same [of "put_account b d" d "put_account b' d'" d']
    ids_apart_same [of d d "put_account b d" d H] ids_apart_same [of "put_account b d" d "put_account b' d'" d']
  by simp_all

lemma apart_put:
  assumes "find_account (acc_id b) d = Some a" and "acc_currency b = acc_currency a"
    and "AccountRow (acc_id b) \<notin> H"
  shows "apart H d (put_account b d)"
proof -
  have "accounts_apart H d (put_account b d)"
    unfolding accounts_apart_def find_put_account using assms by (auto split: option.splits)
  then show ?thesis by (simp add: apart_def)
qed

lemma apart_put_both:
  assumes "apart H d d'" and "find_account (acc_id b) d = Some a"
  shows "apart H (put_account b d) (put_account b d')"
proof -
  have acc: "accounts_apart H d d'" using assms(1) by (simp add: apart_def)
  have "accounts_apart H (put_account b d) (put_account b d')"
    unfolding accounts_apart_def
  proof (intro conjI allI impI)
    fix i r assume r: "find_account i (put_account b d) = Some r"
    then obtain a0 where a0: "find_account i d = Some a0" "r = (if i = acc_id b then b else a0)"
      by (auto simp: find_put_account split: option.splits)
    with acc obtain a1 where "find_account i d' = Some a1" "acc_currency a1 = acc_currency a0"
      unfolding accounts_apart_def by blast
    with a0 show "\<exists>a'. find_account i (put_account b d') = Some a' \<and> acc_currency a' = acc_currency r"
      by (simp add: find_put_account)
  next
    fix i assume "AccountRow i \<in> H"
    with acc show "find_account i (put_account b d') = find_account i (put_account b d)"
      by (simp add: find_put_account accounts_apart_def)
  qed
  with assms(1) show ?thesis by (simp add: apart_def)
qed

text \<open>A new version of the row of a key.\<close>

definition put_key :: "string \<Rightarrow> (key_row \<Rightarrow> key_row) \<Rightarrow> db \<Rightarrow> db" where
  "put_key k f d = d\<lparr>idem_keys := map (\<lambda>r. if ik_key r = k then f r else r) (idem_keys d)\<rparr>"

lemma find_put_key:
  assumes "\<And>r. ik_key (f r) = ik_key r"
  shows "find_key j (put_key k f d) = (if j = k then map_option f (find_key j d) else find_key j d)"
proof -
  have "find (\<lambda>r. ik_key r = j) (map (\<lambda>r. if ik_key r = k then f r else r) rs) =
      (if j = k then map_option f (find (\<lambda>r. ik_key r = j) rs) else find (\<lambda>r. ik_key r = j) rs)" for rs
    by (induction rs) (auto simp: assms)
  then show ?thesis by (simp add: find_key_def put_key_def)
qed

lemma put_key_frame [simp]:
  "accounts (put_key k f d) = accounts d" "transfers (put_key k f d) = transfers d"
  "postings (put_key k f d) = postings d" "outbox (put_key k f d) = outbox d"
  by (simp_all add: put_key_def)

lemma put_key_pk:
  assumes "\<And>r. ik_key (f r) = ik_key r"
  shows "pk_ok (put_key k f d) = pk_ok d"
proof -
  have "map ik_key (idem_keys (put_key k f d)) = map ik_key (idem_keys d)"
    by (simp add: put_key_def assms)
  then show ?thesis by (simp add: pk_ok_def)
qed

lemma put_key_parts [simp]:
  "accounts_apart H d (put_key k f d)" "ids_apart H d (put_key k f d)"
  "accounts_apart H (put_key k f d) (put_key k f' d') = accounts_apart H d d'"
  "ids_apart H (put_key k f d) (put_key k f' d') = ids_apart H d d'"
  using accounts_apart_same [of d d "put_key k f d" d H] accounts_apart_same [of "put_key k f d" d "put_key k f' d'" d']
    ids_apart_same [of d d "put_key k f d" d H] ids_apart_same [of "put_key k f d" d "put_key k f' d'" d']
  by simp_all

lemma apart_put_key:
  assumes f: "\<And>r. ik_key (f r) = ik_key r"
  shows "KeyRow k \<notin> H \<Longrightarrow> apart H d (put_key k f d)"
    and "apart H d d' \<Longrightarrow> apart H (put_key k f d) (put_key k f d')"
  by (auto simp: apart_def keys_apart_def find_put_key [of f, OF f])

lemma update_keys_put:
  assumes pk: "pk_ok d"
  shows "update_keys (\<lambda>r. ik_key r = k) (\<lambda>r. Inr (f r)) d =
    (if find_key k d = None then Inr (0, [], d) else Inr (1, [], put_key k f d))"
proof (cases "find_key k d")
  case None
  then have "update_rows (\<lambda>r. ik_key r = k) (\<lambda>r. Inr (f r)) (idem_keys d) = (Inr (0, idem_keys d) :: err + _)"
    by (intro update_rows_none) (auto simp: find_key_None)
  with None show ?thesis by (simp add: update_keys_def)
next
  case (Some r)
  with update_keys_by_id [OF pk Some, of "\<lambda>_. True" f] show ?thesis by (simp add: put_key_def)
qed

section \<open>Updates of one account\<close>

lemma update_account_pk:
  assumes pk: "pk_ok d" and id: "\<And>b b'. f b = Inr b' \<Longrightarrow> acc_id b' = acc_id b"
  shows "update_accounts (\<lambda>b. acc_id b = i \<and> Q b) f d =
    (case find_account i d of
       None \<Rightarrow> Inr (0, [], d)
     | Some a \<Rightarrow>
         if Q a then (case f a of Inl e \<Rightarrow> Inl e | Inr a' \<Rightarrow> Inr (1, [], put_account a' d))
         else Inr (0, [], d))"
proof (cases "find_account i d")
  case None
  then show ?thesis by (simp add: update_accounts_missing)
next
  case (Some a)
  with update_accounts_by_id [OF pk Some, of f Q] id show ?thesis by simp
qed

text \<open>The new version of the row keeps its id and currency.\<close>

definition keeps_account :: "(account_row \<Rightarrow> err + account_row) \<Rightarrow> bool" where
  "keeps_account f \<longleftrightarrow>
     (\<forall>b b'. f b = Inr b' \<longrightarrow> acc_id b' = acc_id b \<and> acc_currency b' = acc_currency b)"

lemma account_update_frame:
  assumes u: "update_accounts (\<lambda>b. acc_id b = i \<and> Q b) f d = Inr (n, rows, d1)"
    and pk: "pk_ok d" and f: "keeps_account f" and free: "n \<noteq> 0 \<Longrightarrow> AccountRow i \<notin> H"
  shows "pk_ok d1 \<and> apart H d d1 \<and> (n = 0 \<longrightarrow> d1 = d)"
proof -
  have id: "\<And>b b'. f b = Inr b' \<Longrightarrow> acc_id b' = acc_id b" using f by (simp add: keeps_account_def)
  show ?thesis
  proof (cases "n = 0")
    case True
    with u have "d1 = d"
      by (auto simp: update_account_pk [OF pk id] split: option.splits if_splits sum.splits)
    then show ?thesis using pk by simp
  next
    case False
    with u obtain a a' where a: "find_account i d = Some a" and "f a = Inr a'" and d1: "d1 = put_account a' d"
      by (auto simp: update_account_pk [OF pk id] split: option.splits if_splits sum.splits)
    with f have "acc_id a' = i" "acc_currency a' = acc_currency a"
      using find_account_Some [OF a] by (auto simp: keeps_account_def)
    with apart_put [of a' d a H] a free [OF False] show ?thesis using pk False by (simp add: d1)
  qed
qed

lemma account_update_stable:
  assumes u: "update_accounts (\<lambda>b. acc_id b = i \<and> Q b) f d = Inr (n, rows, d1)"
    and pk: "pk_ok d" "pk_ok d'" and f: "keeps_account f" and ap: "apart H d d'" and H: "AccountRow i \<in> H"
  shows "\<exists>d1'. update_accounts (\<lambda>b. acc_id b = i \<and> Q b) f d' = Inr (n, rows, d1') \<and> apart H d1 d1'"
proof -
  have id: "\<And>b b'. f b = Inr b' \<Longrightarrow> acc_id b' = acc_id b" using f by (simp add: keeps_account_def)
  note same = apart_account [OF ap H]
  show ?thesis
  proof (cases "find_account i d")
    case None
    with u same ap show ?thesis by (simp add: update_account_pk [OF pk(1) id] update_account_pk [OF pk(2) id])
  next
    case (Some a)
    show ?thesis
    proof (cases "Q a")
      case False
      with u same Some ap show ?thesis
        by (simp add: update_account_pk [OF pk(1) id] update_account_pk [OF pk(2) id])
    next
      case True
      with u Some obtain a' where a': "f a = Inr a'" and r: "n = 1" "rows = []" "d1 = put_account a' d"
        by (auto simp: update_account_pk [OF pk(1) id] split: sum.splits)
      have "acc_id a' = i" using id [OF a'] find_account_Some [OF Some] by simp
      then have "apart H d1 (put_account a' d')" using apart_put_both [OF ap, of a' a] Some r by simp
      with same Some True a' r show ?thesis by (simp add: update_account_pk [OF pk(2) id])
    qed
  qed
qed

lemma keeps_account_updates [simp]:
  "keeps_account (\<lambda>a. set_balance (g a) a)" "keeps_account (\<lambda>a. Inr (a\<lparr>acc_webhook := u\<rparr>))"
  by (auto simp: keeps_account_def set_balance_def split: if_splits)

section \<open>A statement touches what it locks\<close>

lemma update_outbox_ids:
  assumes "update_outbox P f d = Inr (n, rows, d1)" and "\<And>r r'. f r = Inr r' \<Longrightarrow> ob_id r' = ob_id r"
  shows "accounts d1 = accounts d \<and> transfers d1 = transfers d \<and> postings d1 = postings d \<and>
    idem_keys d1 = idem_keys d \<and> map ob_id (outbox d1) = map ob_id (outbox d)"
proof -
  obtain os where u: "update_rows P f (outbox d) = Inr (n, os)" and d1: "d1 = d\<lparr>outbox := os\<rparr>"
    using assms(1) by (auto simp: update_outbox_def split: sum.splits)
  have "ob_id (projr (f r)) = ob_id r" if "r \<in> set (outbox d)" "P r" for r
    using update_rows_Inr [OF u] that assms(2) by blast
  then have "map ob_id os = map ob_id (outbox d)" using update_rows_Inr [OF u] by auto
  with d1 show ?thesis by simp
qed

lemma outbox_ids_apart:
  assumes "accounts d1 = accounts d \<and> transfers d1 = transfers d \<and> postings d1 = postings d \<and>
    idem_keys d1 = idem_keys d \<and> map ob_id (outbox d1) = map ob_id (outbox d)"
  shows "apart H d d1 \<and> pk_ok d1 = pk_ok d"
proof -
  have "ob_id ` set (outbox d1) = ob_id ` set (outbox d)" using assms by (metis list.set_map)
  with assms show ?thesis
    by (simp add: apart_def accounts_apart_def find_account_def keys_apart_def find_key_def ids_apart_def pk_ok_def)
qed

lemma find_key_append:
  "find_key k (d\<lparr>idem_keys := idem_keys d @ [r]\<rparr>) =
    (case find_key k d of None \<Rightarrow> if ik_key r = k then Some r else None | Some x \<Rightarrow> Some x)"
  by (simp add: find_key_def find_append split: option.split)

lemma find_account_append:
  "find_account i (d\<lparr>accounts := accounts d @ [a]\<rparr>) =
    (case find_account i d of None \<Rightarrow> if acc_id a = i then Some a else None | Some x \<Rightarrow> Some x)"
  by (simp add: find_account_def find_append split: option.split)

lemma insert_key_apart:
  assumes "apart H d d'" and "find_key (ik_key r) d = None" and "find_key (ik_key r) d' = None"
  shows "apart H (d\<lparr>idem_keys := idem_keys d @ [r]\<rparr>) (d'\<lparr>idem_keys := idem_keys d' @ [r]\<rparr>)"
  using assms
  by (auto simp: apart_def keys_apart_def find_key_append accounts_apart_def ids_apart_def split: option.splits)

lemma steal_key_frame:
  assumes u: "exec_stmt v (StealKey h key threshold) d = Inr (n, rows, d1)" and pk: "pk_ok d"
    and free: "n \<noteq> 0 \<Longrightarrow> KeyRow key \<notin> H"
  shows "pk_ok d1 \<and> apart H d d1 \<and> (n = 0 \<longrightarrow> d1 = d)"
proof -
  let ?f = "\<lambda>r. r\<lparr>ik_status := InProgress, ik_hash := h, ik_claimed := e_now v\<rparr>"
  have f: "ik_key (?f r) = ik_key r" for r by simp
  consider "n = 0" "d1 = d" | "n \<noteq> 0" "d1 = put_key key ?f d"
  proof (cases "find_key key d")
    case None
    then have "update_rows (\<lambda>r. ik_key r = key \<and> ik_status r = InProgress \<and> ik_claimed r < e_now v - threshold)
        (\<lambda>r. Inr (?f r)) (idem_keys d) = (Inr (0, idem_keys d) :: err + _)"
      by (intro update_rows_none) (auto simp: find_key_None)
    with u that(1) show ?thesis by (simp add: sql_steal_key_def update_keys_def)
  next
    case (Some r)
    with u that show ?thesis
      by (auto simp: sql_steal_key_def update_keys_by_id [OF pk Some] put_key_def split: if_splits)
  qed
  then show ?thesis
    using pk put_key_pk [of ?f, OF f] apart_put_key(1) [of ?f, OF f] free by cases simp_all
qed

lemma outbox_stmt_ids:
  assumes "exec_stmt v s d = Inr (n, rows, d1)"
    and "\<exists>i. s = DeliverEvent i \<or> (\<exists>reason m. s = KillEvent i reason \<or> s = FailEvent i reason m)"
  shows "accounts d1 = accounts d \<and> transfers d1 = transfers d \<and> postings d1 = postings d \<and>
    idem_keys d1 = idem_keys d \<and> map ob_id (outbox d1) = map ob_id (outbox d)"
proof -
  obtain i f where "update_outbox (\<lambda>r. ob_id r = i) f d = Inr (n, rows, d1)"
    and "\<And>r r'. f r = Inr r' \<Longrightarrow> ob_id r' = ob_id r"
    using assms
    by (auto simp: sql_deliver_event_def sql_kill_event_def sql_fail_event_def Let_def split: if_splits)
      (force split: if_splits)+
  then show ?thesis by (rule update_outbox_ids)
qed

lemma stmt_frame_update:
  assumes u: "exec_stmt v s d = Inr (n, rows, d1)" and pk: "pk_ok d"
    and s: "\<exists>i. (\<exists>a. s = DebitIfFunds a i \<or> s = DebitById a i \<or> s = CreditById a i) \<or> (\<exists>url. s = UpdateWebhook url i)"
    and free: "set (locks v s n rows) \<inter> H = {}"
  shows "pk_ok d1 \<and> apart H d d1 \<and> (n = 0 \<longrightarrow> d1 = d)"
proof -
  obtain i Q f where "update_accounts (\<lambda>b. acc_id b = i \<and> Q b) f d = Inr (n, rows, d1)"
    and "keeps_account f" and "n \<noteq> 0 \<Longrightarrow> AccountRow i \<notin> H"
  proof -
    from s consider a i where "s = DebitIfFunds a i" | a i where "s = DebitById a i"
      | a i where "s = CreditById a i" | url i where "s = UpdateWebhook url i" by blast
    then show ?thesis
    proof cases
      case (1 a i)
      show ?thesis by (rule that [of "sint i" "\<lambda>b. sint a \<le> acc_balance b"]) (use u free 1 in \<open>auto simp: sql_debit_if_funds_def\<close>)
    next
      case (2 a i)
      show ?thesis by (rule that [of "sint i" "\<lambda>_. True"]) (use u free 2 in \<open>auto simp: sql_debit_by_id_def\<close>)
    next
      case (3 a i)
      show ?thesis by (rule that [of "sint i" "\<lambda>_. True"]) (use u free 3 in \<open>auto simp: sql_credit_by_id_def\<close>)
    next
      case (4 url i)
      show ?thesis by (rule that [of "sint i" "\<lambda>_. True"]) (use u free 4 in \<open>auto simp: sql_update_webhook_def\<close>)
    qed
  qed
  then show ?thesis using account_update_frame pk by blast
qed

lemma stmt_frame:
  assumes u: "exec_stmt v s d = Inr (n, rows, d1)" and pk: "pk_ok d" and s: "tx_stmt s \<or> pool_stmt s"
    and free: "set (locks v s n rows) \<inter> H = {}"
  shows "pk_ok d1 \<and> apart H d d1"
proof (cases s)
  case (InsertTransfer tid key amt cur f t)
  with u free pk show ?thesis
    by (auto simp: sql_insert_transfer_def apart_def accounts_apart_def find_account_def keys_apart_def
        find_key_def ids_apart_def pk_ok_def Let_def split: option.splits if_splits)
next
  case (InsertPostings tid i1 a1 i2 a2)
  with u free pk show ?thesis
    by (auto simp: sql_insert_postings_def apart_def accounts_apart_def find_account_def keys_apart_def
        find_key_def ids_apart_def pk_ok_def Let_def split: option.splits if_splits)
next
  case (InsertOutbox ty p url)
  with u free pk show ?thesis
    by (auto simp: sql_insert_outbox_def apart_def accounts_apart_def find_account_def keys_apart_def
        find_key_def ids_apart_def pk_ok_def Let_def split: option.splits if_splits)
next
  case (InsertKey key h)
  with u free pk show ?thesis
    by (auto simp: sql_insert_key_def apart_def keys_apart_def find_key_append accounts_apart_def ids_apart_def
        find_account_def pk_ok_def split: option.splits if_splits)
next
  case (InsertAccount name cur url)
  with u free pk show ?thesis
    by (auto simp: sql_insert_account_def apart_def accounts_apart_def find_account_append keys_apart_def
        find_key_def ids_apart_def pk_ok_def has_account_def Let_def split: option.splits if_splits)
next
  case (CompleteKey code body key)
  let ?f = "\<lambda>r. r\<lparr>ik_status := Done, ik_code := Some code, ik_body := Some body\<rparr>"
  have f: "ik_key (?f r) = ik_key r" for r by simp
  show ?thesis
    using u free pk CompleteKey put_key_pk [of ?f, OF f] apart_put_key(1) [of ?f, OF f]
    by (auto simp: sql_complete_key_def update_keys_put [OF pk] split: if_splits)
next
  case (StealKey h key threshold)
  then have "n \<noteq> 0 \<Longrightarrow> KeyRow key \<notin> H" using free by auto
  with steal_key_frame [of v h key threshold d n rows d1 H] u pk StealKey show ?thesis by blast
next
  case (ClaimEvents lim threshold)
  with u have "accounts d1 = accounts d \<and> transfers d1 = transfers d \<and> postings d1 = postings d \<and>
    idem_keys d1 = idem_keys d \<and> map ob_id (outbox d1) = map ob_id (outbox d)"
    by (auto simp: sql_claim_events_def claim_row_def Let_def split: if_splits)
  from outbox_ids_apart [OF this] pk show ?thesis by blast
qed (use s u pk free stmt_frame_update [OF u pk _ free] outbox_stmt_ids [OF u, THEN outbox_ids_apart]
     in \<open>auto simp: sql_account_exists_def sql_select_balance_for_update_def sql_lock_pair_def sql_select_currencies_def
       sql_select_key_def sql_select_webhook_def Let_def\<close>)

text \<open>A statement that locks nothing has changed nothing.\<close>

lemma no_locks_no_change:
  assumes u: "exec_stmt v s d = Inr (n, rows, d1)" and pk: "pk_ok d" and s: "tx_stmt s"
    and none: "locks v s n rows = []"
  shows "d1 = d"
proof (cases s)
  case (InsertKey key h)
  with u none show ?thesis by (auto simp: sql_insert_key_def split: if_splits)
next
  case (CompleteKey code body key)
  with u none show ?thesis by (auto simp: sql_complete_key_def update_keys_put [OF pk] split: if_splits)
next
  case (StealKey h key threshold)
  with steal_key_frame [of v h key threshold d n rows d1 "{}"] u none pk show ?thesis by (auto split: if_splits)
qed (use s u pk none stmt_frame_update [OF u pk, of "{}"]
     in \<open>auto simp: sql_account_exists_def sql_select_balance_for_update_def sql_lock_pair_def sql_select_currencies_def
       sql_select_key_def sql_select_webhook_def Let_def split: if_splits\<close>)

section \<open>A statement on locked rows has a firm reply\<close>

text \<open>
  With the rows \<open>H\<close> locked, what the statement replied does not depend on other rows any more. The
  reply to the lock statement itself is not looked at by the code.
\<close>

fun firm :: "row_id set \<Rightarrow> stmt \<Rightarrow> nat \<Rightarrow> sqlval list list \<Rightarrow> bool" where
  "firm H (InsertKey key h) n rows = True"
| "firm H (CompleteKey code body key) n rows = (KeyRow key \<in> H)"
| "firm H (LockPair lo hi) n rows = True"
| "firm H (SelectCurrencies f t) n rows = (rows \<noteq> [])"
| "firm H (DebitIfFunds amt i) n rows = (n \<noteq> 0)"
| "firm H (SelectBalanceForUpdate i) n rows = (rows \<noteq> [])"
| "firm H (DebitById amt i) n rows = (AccountRow (sint i) \<in> H)"
| "firm H (CreditById amt i) n rows = (n \<noteq> 0)"
| "firm H (InsertTransfer tid key amt cur f t) n rows = True"
| "firm H (InsertPostings tid i1 a1 i2 a2) n rows = True"
| "firm H (SelectWebhook i) n rows = (AccountRow (sint i) \<in> H)"
| "firm H (InsertOutbox ty payload url) n rows = True"
| "firm H s n rows = False"

definition lock_only :: "stmt \<Rightarrow> bool" where
  "lock_only s \<longleftrightarrow> (\<exists>lo hi. s = LockPair lo hi)"

definition same_reply :: "stmt \<Rightarrow> nat \<times> sqlval list list \<Rightarrow> nat \<times> sqlval list list \<Rightarrow> bool" where
  "same_reply s q q' \<longleftrightarrow> lock_only s \<or> q' = q"

lemma select_currencies_stable:
  assumes u: "exec_stmt v (SelectCurrencies f t) d = Inr (n, rows, d1)" and pk: "pk_ok d" "pk_ok d'"
    and ap: "apart H d d'" and rows: "rows \<noteq> []"
  shows "exec_stmt v (SelectCurrencies f t) d' = Inr (n, rows, d') \<and> d1 = d"
proof -
  from u rows obtain a b where a: "find_account (sint f) d = Some a" and b: "find_account (sint t) d = Some b"
    by (auto simp: sql_select_currencies_def accounts_with_id [OF pk(1)] split: option.splits)
  obtain a' b' where "find_account (sint f) d' = Some a'" "acc_currency a' = acc_currency a"
    "find_account (sint t) d' = Some b'" "acc_currency b' = acc_currency b"
    using apart_has [OF ap a] apart_has [OF ap b] by auto
  with u a b show ?thesis
    by (auto simp: sql_select_currencies_def accounts_with_id [OF pk(1)] accounts_with_id [OF pk(2)])
qed

lemma apart_ids:
  assumes "apart H d d'"
  shows "TransferRow i \<in> H \<Longrightarrow> i \<notin> tr_id ` set (transfers d) \<Longrightarrow> i \<notin> tr_id ` set (transfers d')"
    "TransferKey k \<in> H \<Longrightarrow> k \<notin> tr_key ` set (transfers d) \<Longrightarrow> k \<notin> tr_key ` set (transfers d')"
    "PostingRow j \<in> H \<Longrightarrow> j \<notin> po_id ` set (postings d) \<Longrightarrow> j \<notin> po_id ` set (postings d')"
    "EventRow i \<in> H \<Longrightarrow> i \<notin> ob_id ` set (outbox d) \<Longrightarrow> i \<notin> ob_id ` set (outbox d')"
    "i \<in> tr_id ` set (transfers d) \<Longrightarrow> i \<in> tr_id ` set (transfers d')"
proof -
  have p: "ids_apart H d d'" using assms by (simp add: apart_def)
  note q = p [unfolded ids_apart_def]
  show "TransferRow i \<in> H \<Longrightarrow> i \<notin> tr_id ` set (transfers d) \<Longrightarrow> i \<notin> tr_id ` set (transfers d')"
    using q [THEN conjunct2, THEN conjunct1] by metis
  show "TransferKey k \<in> H \<Longrightarrow> k \<notin> tr_key ` set (transfers d) \<Longrightarrow> k \<notin> tr_key ` set (transfers d')"
    using q [THEN conjunct2, THEN conjunct2, THEN conjunct1] by metis
  show "PostingRow j \<in> H \<Longrightarrow> j \<notin> po_id ` set (postings d) \<Longrightarrow> j \<notin> po_id ` set (postings d')"
    using q [THEN conjunct2, THEN conjunct2, THEN conjunct2, THEN conjunct1] by metis
  show "EventRow i \<in> H \<Longrightarrow> i \<notin> ob_id ` set (outbox d) \<Longrightarrow> i \<notin> ob_id ` set (outbox d')"
    using q [THEN conjunct2, THEN conjunct2, THEN conjunct2, THEN conjunct2] by metis
  show "i \<in> tr_id ` set (transfers d) \<Longrightarrow> i \<in> tr_id ` set (transfers d')"
    using q [THEN conjunct1] by (rule subsetD)
qed

lemma apart_append:
  assumes "apart H d d'"
  shows "apart H (d\<lparr>transfers := transfers d @ ts\<rparr>) (d'\<lparr>transfers := transfers d' @ ts\<rparr>)"
    "apart H (d\<lparr>postings := postings d @ ps\<rparr>) (d'\<lparr>postings := postings d' @ ps\<rparr>)"
    "apart H (d\<lparr>outbox := outbox d @ os\<rparr>) (d'\<lparr>outbox := outbox d' @ os\<rparr>)"
proof -
  have p: "accounts_apart H d d'" "keys_apart H d d'" "ids_apart H d d'" using assms by (simp_all add: apart_def)
  have "ids_apart H (d\<lparr>transfers := transfers d @ ts\<rparr>) (d'\<lparr>transfers := transfers d' @ ts\<rparr>)"
    "ids_apart H (d\<lparr>postings := postings d @ ps\<rparr>) (d'\<lparr>postings := postings d' @ ps\<rparr>)"
    "ids_apart H (d\<lparr>outbox := outbox d @ os\<rparr>) (d'\<lparr>outbox := outbox d' @ os\<rparr>)"
    using p(3) unfolding ids_apart_def by (simp_all add: image_Un le_supI1 flip: imp_conjL)
  then show "apart H (d\<lparr>transfers := transfers d @ ts\<rparr>) (d'\<lparr>transfers := transfers d' @ ts\<rparr>)"
    "apart H (d\<lparr>postings := postings d @ ps\<rparr>) (d'\<lparr>postings := postings d' @ ps\<rparr>)"
    "apart H (d\<lparr>outbox := outbox d @ os\<rparr>) (d'\<lparr>outbox := outbox d' @ os\<rparr>)"
    using p(1,2) by (simp_all add: apart_def accounts_apart_def find_account_def keys_apart_def find_key_def)
qed

lemma apart_found: "apart H d d' \<Longrightarrow> has_account i d \<Longrightarrow> has_account i d'"
  using apart_has [of H d d' i] by (auto simp: has_account_find)

lemma stmt_stable_update:
  assumes u: "exec_stmt v s d = Inr (n, rows, d1)" and pk: "pk_ok d" "pk_ok d'" and ap: "apart H d d'"
    and s: "\<exists>a. s = DebitIfFunds a i \<or> s = DebitById a i \<or> s = CreditById a i" and H: "AccountRow (sint i) \<in> H"
  shows "\<exists>d1'. exec_stmt v s d' = Inr (n, rows, d1') \<and> apart H d1 d1'"
proof -
  obtain Q f where u': "\<And>x. exec_stmt v s x = update_accounts (\<lambda>b. acc_id b = sint i \<and> Q b) f x"
    and keeps: "keeps_account f"
  proof -
    from s consider a where "s = DebitIfFunds a i" | a where "s = DebitById a i" | a where "s = CreditById a i"
      by blast
    then show ?thesis
    proof cases
      case (1 a)
      show ?thesis by (rule that [of "\<lambda>b. sint a \<le> acc_balance b"]) (auto simp: 1 sql_debit_if_funds_def)
    next
      case (2 a)
      show ?thesis by (rule that [of "\<lambda>_. True"]) (auto simp: 2 sql_debit_by_id_def)
    next
      case (3 a)
      show ?thesis by (rule that [of "\<lambda>_. True"]) (auto simp: 3 sql_credit_by_id_def)
    qed
  qed
  from account_update_stable [OF u [unfolded u'] pk keeps ap H] show ?thesis by (simp add: u')
qed

lemma insert_transfer_stable:
  assumes u: "exec_stmt v (InsertTransfer tid key amt cur f t) d = Inr (n, rows, d1)" and ap: "apart H d d'"
    and H: "{TransferRow tid, TransferKey key} \<subseteq> H"
  shows "\<exists>d1'. exec_stmt v (InsertTransfer tid key amt cur f t) d' = Inr (n, rows, d1') \<and> apart H d1 d1'"
proof -
  have "has_account (sint f) d" "has_account (sint t) d" "tid \<notin> tr_id ` set (transfers d)"
    "key \<notin> tr_key ` set (transfers d)"
    using u by (auto simp: sql_insert_transfer_def Let_def split: option.splits if_splits)
  moreover have "has_account (sint f) d'" "has_account (sint t) d'"
    using calculation apart_found [OF ap] by auto
  moreover have "tid \<notin> tr_id ` set (transfers d')" "key \<notin> tr_key ` set (transfers d')"
    using calculation H apart_ids(1,2) [OF ap] by simp_all
  ultimately show ?thesis
    using u apart_append(1) [OF ap] by (auto simp: sql_insert_transfer_def Let_def split: option.splits if_splits)
qed

lemma insert_postings_stable:
  assumes u: "exec_stmt v (InsertPostings tid i1 a1 i2 a2) d = Inr (n, rows, d1)" and ap: "apart H d d'"
    and H: "{PostingRow (e_id v), PostingRow (e_id v + 1)} \<subseteq> H"
  shows "\<exists>d1'. exec_stmt v (InsertPostings tid i1 a1 i2 a2) d' = Inr (n, rows, d1') \<and> apart H d1 d1'"
proof -
  have "has_account (sint i1) d" "has_account (sint i2) d" "tid \<in> tr_id ` set (transfers d)"
    "e_id v \<notin> po_id ` set (postings d)" "e_id v + 1 \<notin> po_id ` set (postings d)"
    using u by (auto simp: sql_insert_postings_def Let_def split: if_splits)
  moreover have "has_account (sint i1) d'" "has_account (sint i2) d'"
    using calculation apart_found [OF ap] by auto
  moreover have "tid \<in> tr_id ` set (transfers d')" "e_id v \<notin> po_id ` set (postings d')"
    "e_id v + 1 \<notin> po_id ` set (postings d')"
    using calculation H apart_ids(3,5) [OF ap] by simp_all
  ultimately show ?thesis
    using u apart_append(2) [OF ap] by (auto simp: sql_insert_postings_def Let_def)
qed

lemma insert_outbox_stable:
  assumes u: "exec_stmt v (InsertOutbox ty p url) d = Inr (n, rows, d1)" and ap: "apart H d d'"
    and H: "EventRow (e_uuid v) \<in> H"
  shows "\<exists>d1'. exec_stmt v (InsertOutbox ty p url) d' = Inr (n, rows, d1') \<and> apart H d1 d1'"
proof -
  have "e_uuid v \<notin> ob_id ` set (outbox d)" using u by (auto simp: sql_insert_outbox_def split: if_splits)
  moreover have "e_uuid v \<notin> ob_id ` set (outbox d')"
    using calculation H by (intro apart_ids(4) [OF ap])
  ultimately show ?thesis using u apart_append(3) [OF ap] by (auto simp: sql_insert_outbox_def)
qed

lemma stmt_stable:
  assumes u: "exec_stmt v s d = Inr (n, rows, d1)" and pk: "pk_ok d" "pk_ok d'" and ap: "apart H d d'"
    and H: "set (locks v s n rows) \<subseteq> H" and f: "firm H s n rows"
  shows "\<exists>q d1'. exec_stmt v s d' = Inr (fst q, snd q, d1') \<and> same_reply s (n, rows) q \<and> apart H d1 d1'"
proof -
  have ?thesis if "\<exists>d1'. exec_stmt v s d' = Inr (n, rows, d1') \<and> apart H d1 d1'"
    using that by (force simp: same_reply_def)
  moreover have ?thesis if "lock_only s"
    using that u ap by (auto simp: lock_only_def same_reply_def sql_lock_pair_def Let_def)
  moreover have "lock_only s \<or> (\<exists>d1'. exec_stmt v s d' = Inr (n, rows, d1') \<and> apart H d1 d1')"
  proof (cases s)
    case (InsertKey key h)
    note u = u [unfolded InsertKey]
    show ?thesis
    proof (cases "find_key key d")
      case None
      then have r: "n = 1" "rows = []" "d1 = d\<lparr>idem_keys := idem_keys d @ [new_key key h (e_now v)]\<rparr>"
        using u by (auto simp: sql_insert_key_def new_key_def find_key_None)
      have "find_key key d' = None" using apart_key [OF ap, of key] H r None InsertKey by simp
      moreover have "ik_key (new_key key h (e_now v)) = key" by (simp add: new_key_def)
      ultimately show ?thesis
        using insert_key_apart [OF ap, of "new_key key h (e_now v)"] None r InsertKey
        by (auto simp: sql_insert_key_def new_key_def find_key_None)
    next
      case (Some k)
      moreover have "find_key key d' \<noteq> None" using Some ap by (simp add: apart_def keys_apart_def)
      ultimately show ?thesis
        using u ap InsertKey find_key_None [of key d] find_key_None [of key d']
        by (auto simp: sql_insert_key_def split: if_splits)
    qed
  next
    case (CompleteKey code body key)
    let ?f = "\<lambda>r. r\<lparr>ik_status := Done, ik_code := Some code, ik_body := Some body\<rparr>"
    have f': "ik_key (?f r) = ik_key r" for r by simp
    have "find_key key d' = find_key key d" using apart_key [OF ap, of key] f CompleteKey by simp
    then show ?thesis
      using u CompleteKey ap apart_put_key(2) [of ?f, OF f' ap]
      by (auto simp: sql_complete_key_def update_keys_put [OF pk(1)] update_keys_put [OF pk(2)] split: if_splits)
  next
    case (SelectCurrencies f' t)
    with select_currencies_stable [of v f' t d n rows d1 d' H] u pk ap f show ?thesis by auto
  next
    case (SelectBalanceForUpdate i)
    with f H have "find_account (sint i) d' = find_account (sint i) d" using apart_account [OF ap] by simp
    with u SelectBalanceForUpdate ap show ?thesis
      by (auto simp: sql_select_balance_for_update_def accounts_with_id [OF pk(1)] accounts_with_id [OF pk(2)] Let_def)
  next
    case (SelectWebhook i)
    with f have "find_account (sint i) d' = find_account (sint i) d" using apart_account [OF ap] by simp
    with u SelectWebhook ap show ?thesis
      by (auto simp: sql_select_webhook_def accounts_with_id [OF pk(1)] accounts_with_id [OF pk(2)] Let_def)
  next
    case (LockPair lo hi)
    then show ?thesis by (simp add: lock_only_def)
  next
    case (InsertTransfer tid key amt cur f' t)
    with insert_transfer_stable u ap H show ?thesis by auto
  next
    case (InsertPostings tid i1 a1 i2 a2)
    with insert_postings_stable u ap H show ?thesis by auto
  next
    case (InsertOutbox ty p url)
    with insert_outbox_stable u ap H show ?thesis by auto
  next
    case (DebitIfFunds a i)
    with stmt_stable_update [OF u pk ap, of i] H f show ?thesis by auto
  next
    case (DebitById a i)
    with stmt_stable_update [OF u pk ap, of i] H f show ?thesis by auto
  next
    case (CreditById a i)
    with stmt_stable_update [OF u pk ap, of i] H f show ?thesis by auto
  qed (use f in simp_all)
  ultimately show ?thesis by blast
qed

end
