(* ===== verification/Concurrent.thy ===== *)
theory Concurrent
  imports Locks
begin

text \<open>
  Transactions that overlap. Any number of sessions run \<open>Execute\<close> or \<open>ExecuteWithForUpdate\<close>, call by
  call, in any order, on the same tables, at PostgreSQL's default isolation level \<open>READ COMMITTED\<close>:
  a statement sees what is committed when it starts, with the session's own changes on top, and it
  waits for rows that another session has locked. Between the calls, handlers and pollers change the
  tables with statements of their own. The theory ends with the shape of the executors' programs
  that makes them safe; theory Serial draws the conclusions.
\<close>

section \<open>The log of a transaction\<close>

text \<open>A statement that succeeded inside a transaction, with its environment and its reply.\<close>

type_synonym entry = "env \<times> stmt \<times> nat \<times> sqlval list list"

definition entry_locks :: "entry \<Rightarrow> row_id list" where
  "entry_locks e = (case e of (v, s, n, rows) \<Rightarrow> locks v s n rows)"

text \<open>The rows that a session has locked.\<close>

definition held :: "entry list \<Rightarrow> row_id set" where
  "held L = set (concat (map entry_locks L))"

text \<open>
  What a session sees: the committed tables with its own changes made to them. A statement that
  locked no row has changed none.
\<close>

definition redo :: "entry \<Rightarrow> db \<Rightarrow> db" where
  "redo e d =
     (case e of (v, s, n, rows) \<Rightarrow>
        if locks v s n rows = [] then d
        else (case exec_stmt v s d of Inl _ \<Rightarrow> d | Inr (_, _, d') \<Rightarrow> d'))"

primrec overlay :: "entry list \<Rightarrow> db \<Rightarrow> db" where
  "overlay [] d = d"
| "overlay (e # L) d = overlay L (redo e d)"

section \<open>Sessions\<close>

type_synonym answer = "err + transfer \<times> stored_response option"

text \<open>
  A session: its request, the rest of its program, the counters and the transaction (the field
  \<open>tables\<close> of its world and the view are brought up to date before every call), the log, and the rows
  that its statement in progress has locked already while it waits for others.
\<close>

record session =
  s_req :: transfer_request
  s_prog :: "answer prog"
  s_world :: world
  s_log :: "entry list"
  s_part :: "row_id list"

definition holds :: "session \<Rightarrow> row_id set" where
  "holds s = held (s_log s) \<union> set (s_part s)"

definition finished :: "session \<Rightarrow> bool" where
  "finished s \<longleftrightarrow> (case s_prog s of Ret a \<Rightarrow> True | _ \<Rightarrow> False)"

definition refresh :: "db \<Rightarrow> session \<Rightarrow> world" where
  "refresh d s = (s_world s)\<lparr>tables := d,
     txn := map_option (\<lambda>t. t\<lparr>view := overlay (s_log s) d\<rparr>) (txn (s_world s))\<rparr>"

text \<open>The entry that the next call makes in the log, if it is a statement that succeeds.\<close>

definition tx_entry :: "environ \<Rightarrow> stmt \<Rightarrow> world \<Rightarrow> entry option" where
  "tx_entry orc s w =
     (case (txn w, call_tx orc s w) of
        (Some t, Inr (n, rows), _) \<Rightarrow> Some (stmt_env orc (tx_now t) s w, s, n, rows)
      | _ \<Rightarrow> None)"

definition next_entry :: "environ \<Rightarrow> 'a prog \<Rightarrow> world \<Rightarrow> entry option" where
  "next_entry orc p w =
     (case p of
        Exec InTx s k \<Rightarrow> tx_entry orc s w
      | Query InTx s k \<Rightarrow> tx_entry orc s w
      | _ \<Rightarrow> None)"

text \<open>The end of the transaction releases the locks.\<close>

definition next_log :: "environ \<Rightarrow> session \<Rightarrow> world \<Rightarrow> world \<Rightarrow> entry list" where
  "next_log orc s w w' =
     (case txn w' of
        None \<Rightarrow> []
      | Some t \<Rightarrow> s_log s @ (case next_entry orc (s_prog s) w of None \<Rightarrow> [] | Some e \<Rightarrow> [e]))"

definition advance :: "environ \<Rightarrow> db \<Rightarrow> session \<Rightarrow> session \<times> db" where
  "advance orc d s =
     (case pstep orc (s_prog s) (refresh d s) of (p, w') \<Rightarrow>
        (s\<lparr>s_prog := p, s_world := w', s_log := next_log orc s (refresh d s) w',
           s_part := []\<rparr>, tables w'))"

text \<open>The rows that the next call locks; none of the rows is locked by a session other than \<open>i\<close>.\<close>

definition next_locks :: "environ \<Rightarrow> db \<Rightarrow> session \<Rightarrow> row_id list" where
  "next_locks orc d s =
     (case next_entry orc (s_prog s) (refresh d s) of None \<Rightarrow> [] | Some e \<Rightarrow> entry_locks e)"

definition unlocked :: "session list \<Rightarrow> nat \<Rightarrow> row_id list \<Rightarrow> bool" where
  "unlocked ss i R \<longleftrightarrow> (\<forall>j < length ss. j \<noteq> i \<longrightarrow> set R \<inter> holds (ss ! j) = {})"

definition may_call :: "environ \<Rightarrow> db \<Rightarrow> session list \<Rightarrow> nat \<Rightarrow> bool" where
  "may_call orc d ss i \<longleftrightarrow> unlocked ss i (next_locks orc d (ss ! i))"

definition new_session :: "strategy \<Rightarrow> transfer_request \<Rightarrow> world \<Rightarrow> session" where
  "new_session st req c = \<lparr>s_req = req, s_prog = execute_by st req, s_world = c\<lparr>txn := None\<rparr>, s_log = [],
     s_part = []\<rparr>"

text \<open>A session whose client or connection is gone: the server rolls its transaction back.\<close>

definition abandon :: "err \<Rightarrow> session \<Rightarrow> session" where
  "abandon e s = s\<lparr>s_prog := Ret (Inl e), s_world := (s_world s)\<lparr>txn := None\<rparr>, s_log := [], s_part := []\<rparr>"

text \<open>A session that is not finished makes its next call, unless it has to wait for a lock.\<close>

inductive proceeds :: "(nat \<Rightarrow> environ) \<Rightarrow> session list \<times> db \<Rightarrow> session list \<times> db \<Rightarrow> bool" for E where
  "i < length ss \<Longrightarrow> \<not> finished (ss ! i) \<Longrightarrow> may_call (E i) d ss i \<Longrightarrow>
     advance (E i) d (ss ! i) = (s', d') \<Longrightarrow> proceeds E (ss, d) (ss[i := s'], d')"

text \<open>
  \<open>SELECT ... ORDER BY id FOR UPDATE\<close> locks its rows one by one, in this order, and keeps those it
  has while it waits for the next one.
\<close>

definition locks_in_order :: "'a prog \<Rightarrow> bool" where
  "locks_in_order p \<longleftrightarrow> (case p of Exec c s k \<Rightarrow> c = InTx \<and> lock_only s | _ \<Rightarrow> False)"

text \<open>
  Steps: a request arrives; a session makes its next call or locks one more row for it; a session
  dies; a handler or a poller executes a statement on the pool. \<open>adm\<close> says which requests arrive, \<open>lim\<close>
  bounds the account ids in use from above: new accounts get larger ones.
\<close>

definition new_id :: "int \<Rightarrow> stmt \<Rightarrow> env \<Rightarrow> bool" where
  "new_id lim s v \<longleftrightarrow> (case s of InsertAccount name cur url \<Rightarrow> lim \<le> e_id v | _ \<Rightarrow> True)"

type_synonym admission = "strategy \<Rightarrow> transfer_request \<Rightarrow> db \<Rightarrow> bool"

inductive cstep ::
  "(nat \<Rightarrow> environ) \<Rightarrow> int \<Rightarrow> admission \<Rightarrow> session list \<times> db \<Rightarrow> session list \<times> db \<Rightarrow> bool" for E lim adm where
  arrives: "adm st req d \<Longrightarrow> cstep E lim adm (ss, d) (ss @ [new_session st req c], d)"
| calls: "proceeds E x y \<Longrightarrow> cstep E lim adm x y"
| locks_row: "i < length ss \<Longrightarrow> locks_in_order (s_prog (ss ! i)) \<Longrightarrow>
    next_locks (E i) d (ss ! i) = s_part (ss ! i) @ r # R \<Longrightarrow> unlocked ss i [r] \<Longrightarrow>
    cstep E lim adm (ss, d) (ss[i := (ss ! i)\<lparr>s_part := s_part (ss ! i) @ [r]\<rparr>], d)"
| dies: "i < length ss \<Longrightarrow> cstep E lim adm (ss, d) (ss[i := abandon e (ss ! i)], d)"
| pooled: "pool_stmt s \<Longrightarrow> new_id lim s v \<Longrightarrow> exec_stmt v s d = Inr (n, rows, d') \<Longrightarrow>
    unlocked ss (length ss) (locks v s n rows) \<Longrightarrow> cstep E lim adm (ss, d) (ss, d')"

section \<open>Programs that are safe to interleave\<close>

text \<open>
  Where a session is: outside a transaction; in one whose replies are firm, with the rows \<open>H\<close> locked;
  in one that will be rolled back; in one that an error has aborted; behind a commit that succeeded.
\<close>

datatype mode = Idle | Firm "row_id set" | Doomed | Aborted | Committed

definition in_tx :: "mode \<Rightarrow> bool" where
  "in_tx m \<longleftrightarrow> m \<noteq> Idle \<and> m \<noteq> Committed"

lemma in_tx_simps [simp]: "in_tx (Firm H)" "in_tx Doomed" "in_tx Aborted" "\<not> in_tx Idle" "\<not> in_tx Committed"
  by (simp_all add: in_tx_def)

definition after_stmt :: "mode \<Rightarrow> env \<Rightarrow> stmt \<Rightarrow> nat \<Rightarrow> sqlval list list \<Rightarrow> mode" where
  "after_stmt m v s n rows =
     (case m of
        Firm H \<Rightarrow>
          if firm (H \<union> set (locks v s n rows)) s n rows then Firm (H \<union> set (locks v s n rows)) else Doomed
      | _ \<Rightarrow> m)"

text \<open>Replies that are possible: a key that is not one's own is done.\<close>

definition possible :: "mode \<Rightarrow> stmt \<Rightarrow> nat \<Rightarrow> sqlval list list \<Rightarrow> bool" where
  "possible m s n rows \<longleftrightarrow>
     (case s of
        InsertKey key h \<Rightarrow> n \<le> 1
      | SelectKey key \<Rightarrow>
          (\<forall>H. m = Firm H \<longrightarrow> KeyRow key \<notin> H \<longrightarrow> (\<forall>row \<in> set rows. row ! 1 = VText ''done''))
      | _ \<Rightarrow> True)"

text \<open>The program does not look at the reply.\<close>

definition ignores :: "(err + nat \<Rightarrow> 'a prog) \<Rightarrow> bool" where
  "ignores k \<longleftrightarrow> (\<forall>n n'. k (Inr n) = k (Inr n'))"

text \<open>
  A commit is reached only with firm replies. \<open>G\<close> is what is required of the program at every
  \<open>BEGIN\<close>, \<open>Q\<close> of its result.
\<close>

primrec safe :: "('a prog \<Rightarrow> bool) \<Rightarrow> (mode \<Rightarrow> 'a \<Rightarrow> bool) \<Rightarrow> 'a prog \<Rightarrow> mode \<Rightarrow> bool" where
  "safe G Q (Ret a) m = Q m a"
| "safe G Q (BeginTx k) m =
     (m = Idle \<and> G (BeginTx k) \<and> (\<forall>e. safe G Q (k (Some e)) Idle) \<and> safe G Q (k None) (Firm {}))"
| "safe G Q (CommitTx k) m =
     ((m = Aborted \<or> (\<exists>H. m = Firm H) \<and> safe G Q (k None) Committed) \<and>
      (\<forall>e. safe G Q (k (Some e)) Idle))"
| "safe G Q (RollbackTx p) m = safe G Q p (if m = Committed then Committed else Idle)"
| "safe G Q (Exec c s k) m =
     (c = InTx \<and> tx_stmt s \<and> in_tx m \<and> (\<forall>e. safe G Q (k (Inl e)) Aborted) \<and>
      (lock_only s \<longrightarrow> ignores k) \<and>
      (m \<noteq> Aborted \<longrightarrow>
        (\<forall>v n rows. possible m s n rows \<longrightarrow> safe G Q (k (Inr n)) (after_stmt m v s n rows))))"
| "safe G Q (Query c s k) m =
     (c = InTx \<and> tx_stmt s \<and> in_tx m \<and> (\<forall>e. safe G Q (k (Inl e)) Aborted) \<and> \<not> lock_only s \<and>
      (m \<noteq> Aborted \<longrightarrow>
        (\<forall>v n rows. possible m s n rows \<longrightarrow> safe G Q (k (Inr rows)) (after_stmt m v s n rows))))"
| "safe G Q (NewUUID k) m = (in_tx m \<and> (\<forall>u. safe G Q (k u) m))"
| "safe G Q (TimeNow k) m = (in_tx m \<and> (\<forall>t. safe G Q (k t) m))"
| "safe G Q (NewRequest u k) m = False"
| "safe G Q (DoRequest q k) m = False"
| "safe G Q (Sleep t p) m = False"

lemma ignores_bindp: "ignores k \<Longrightarrow> ignores (\<lambda>r. bindp (k r) f)"
  by (auto simp: ignores_def) metis

lemma safe_bindp:
  "safe (\<lambda>_. False) (\<lambda>m a. safe G Q (f a) m) p m \<Longrightarrow> safe G Q (bindp p f) m"
  by (induction p arbitrary: m) (auto simp: ignores_bindp)

lemma safe_mono:
  "safe G Q p m \<Longrightarrow> (\<And>m a. Q m a \<Longrightarrow> Q' m a) \<Longrightarrow> safe G Q' p m"
  by (induction p arbitrary: m) auto

lemma safe_tryp:
  "safe (\<lambda>_. False) (\<lambda>m r. case r of Inl e \<Rightarrow> Q m (Inl e) | Inr a \<Rightarrow> safe G Q (f a) m) p m \<Longrightarrow>
     safe G Q (tryp p f) m"
  unfolding tryp_def by (rule safe_bindp, erule safe_mono) (auto split: sum.splits)

section \<open>The executors are safe\<close>

text \<open>An error is passed on from anywhere in the transaction.\<close>

definition passes_errors :: "(mode \<Rightarrow> err + 'a \<Rightarrow> bool) \<Rightarrow> bool" where
  "passes_errors Q \<longleftrightarrow> (\<forall>m e. in_tx m \<longrightarrow> Q m (Inl e))"

lemma passes_errorsD: "passes_errors Q \<Longrightarrow> in_tx m \<Longrightarrow> Q m (Inl e)"
  by (simp add: passes_errors_def)

lemmas tx_prims = tryp_def exec_def query_def uuid_New_def time_Now_def after_stmt_def possible_def lock_only_def

definition key_rows :: "transfer_request \<Rightarrow> row_id set" where
  "key_rows req = (if IdempotencyKey req = [] then {} else {KeyRow (IdempotencyKey req)})"

lemma scan_Inl [simp]: "scan_key (Inl e) = Inl e" "scan_transfer (Inl e) = Inl e"
  by (simp_all add: scan_key_def scan_transfer_def)

lemma scan_done:
  assumes "scan_key (query_row (Inr rows)) = Inr (h, ''in_progress'', c, b, t)"
    and "\<forall>row \<in> set rows. row ! Suc 0 = VText ''done''"
  shows False
  using assms
  by (cases rows) (auto simp: scan_key_def split: list.splits sum.splits elim!: cell_text.elims)

lemma safe_claim_existing:
  assumes e: "passes_errors Q" and old: "\<And>s. Q Doomed (Inr (False, Some s))" and key: "KeyRow key \<notin> H"
  shows "safe G Q (claim_existing key h) (Firm H)"
  using passes_errorsD [OF e] old key
  by (auto simp: claim_existing_def tx_prims split: sum.splits option.splits dest: scan_done)

lemma safe_claim_key:
  assumes e: "passes_errors Q" and old: "\<And>s. Q Doomed (Inr (False, Some s))"
    and new: "Q (Firm (key_rows req)) (Inr (True, None))"
  shows "safe G Q (claim_key_for req) (Firm {})"
proof -
  have "\<not> n \<noteq> Suc 0" if "n \<noteq> 0" "n \<le> 1" for n :: nat using that by simp
  then show ?thesis
    using passes_errorsD [OF e] new safe_claim_existing [OF e old, of "IdempotencyKey req" "{}"]
    by (auto simp: claim_key_for_def ClaimInTx_def key_rows_def tx_prims split: sum.splits option.splits)
qed

lemma safe_complete_key:
  assumes e: "passes_errors Q" and ok: "\<And>H'. Q (Firm H') (Inr ())" and H: "key_rows req \<subseteq> H"
  shows "safe G Q (complete_key_for req t) (Firm H)"
  using passes_errorsD [OF e] ok H
  by (auto simp: complete_key_for_def Complete_def key_rows_def tx_prims split: sum.splits)

lemma safe_debits:
  assumes e: "passes_errors Q" and ok: "\<And>H'. H \<subseteq> H' \<Longrightarrow> Q (Firm H') (Inr ())"
  shows "safe G Q (debitConditionalUpdate i amt) (Firm H)"
    and "safe G Q (debitSelectForUpdate i amt) (Firm H)"
  using passes_errorsD [OF e]
  by (auto simp: debitConditionalUpdate_def debitSelectForUpdate_def tx_prims intro!: ok split: sum.splits)

lemma safe_write:
  assumes e: "passes_errors Q" and ok: "\<And>H'. H \<subseteq> H' \<Longrightarrow> Q (Firm H') (Inr t)"
    and H: "AccountRow (sint (ToAccount req)) \<in> H"
  shows "safe G Q (write_postings_and_event req t) (Firm H)"
  using passes_errorsD [OF e] H
  by (auto simp: write_postings_and_event_def GetWebhookURLInTx_def InsertOutboxEventInTx_def tx_prims
      intro!: ok split: sum.splits)

lemma safe_insert:
  assumes e: "passes_errors Q" and ok: "\<And>H' t. H \<subseteq> H' \<Longrightarrow> Q (Firm H') (Inr t)"
    and H: "AccountRow (sint (ToAccount req)) \<in> H"
  shows "safe G Q (insertTransferAndPostings req) (Firm H)"
proof -
  have "safe G Q (write_postings_and_event req t) (Firm (insert a (insert b H)))" for t a b
    by (rule safe_write [OF e]) (use H in \<open>auto intro!: ok\<close>)
  then show ?thesis
    using passes_errorsD [OF e]
    by (auto simp: insertTransferAndPostings_def tx_prims split: sum.splits)
qed

lemma safe_execTx:
  assumes e: "passes_errors Q" and ok: "\<And>H' t. H \<subseteq> H' \<Longrightarrow> Q (Firm H') (Inr t)"
    and debit: "\<And>P H i amt. passes_errors P \<Longrightarrow> (\<And>H'. H \<subseteq> H' \<Longrightarrow> P (Firm H') (Inr ())) \<Longrightarrow>
      safe (\<lambda>_. False) P (debit i amt) (Firm H)"
  shows "safe G Q (execTxWithDebit req debit) (Firm H)"
proof -
  have credit: "safe G Q (tryp (exec InTx (CreditById (Amount req) (ToAccount req))) (\<lambda>n.
      if n = 0 then fail_with ErrAccountNotFound else insertTransferAndPostings req)) (Firm H')"
    if "H \<subseteq> H'" for H'
  proof -
    have "safe G Q (insertTransferAndPostings req) (Firm (insert (AccountRow (sint (ToAccount req))) H'))"
      by (rule safe_insert [OF e]) (use that in \<open>auto intro!: ok\<close>)
    then show ?thesis using passes_errorsD [OF e] by (auto simp: tx_prims)
  qed
  have "safe G Q (tryp (debit (FromAccount req) (Amount req)) (\<lambda>_.
      tryp (exec InTx (CreditById (Amount req) (ToAccount req))) (\<lambda>n.
        if n = 0 then fail_with ErrAccountNotFound else insertTransferAndPostings req))) (Firm H)"
    by (rule safe_tryp, rule debit) (use passes_errorsD [OF e] credit in \<open>auto simp: passes_errors_def\<close>)
  then show ?thesis
    using passes_errorsD [OF e]
    by (auto simp: execTxWithDebit_def query_def after_stmt_def possible_def lock_only_def split: sum.splits)
qed

section \<open>Whole requests\<close>

text \<open>
  What holds at every \<open>BEGIN\<close> of an executor: run from there by itself, without failing calls, the
  program posts its request exactly once if it says so.
\<close>

definition posts_alone :: "transfer_request \<Rightarrow> answer prog \<Rightarrow> bool" where
  "posts_alone req p \<longleftrightarrow>
     (\<forall>orc seed w t w'. txn w = None \<longrightarrow> ledger_ok seed (tables w) \<longrightarrow>
        run orc p w = (Inr (t, None), w') \<longrightarrow> posted_once req (tables w) t (tables w'))"

text \<open>A transfer is reported as posted behind a commit that succeeded, and only there.\<close>

definition reports :: "mode \<Rightarrow> answer \<Rightarrow> bool" where
  "reports m a \<longleftrightarrow>
     (m = Idle \<and> (\<forall>t. a \<noteq> Inr (t, None))) \<or> (m = Committed \<and> (\<exists>t. a = Inr (t, None)))"

lemma settled_posts_alone:
  assumes "\<And>\<sigma> orc w r w'. txn w = None \<Longrightarrow> rows_ok (tables w) \<Longrightarrow> fits \<sigma> orc w \<Longrightarrow>
      run orc p w = (r, w') \<Longrightarrow> settles (outcome \<sigma> req) (refused \<sigma> req) orc w r w'"
  shows "posts_alone req p"
  unfolding posts_alone_def
proof (intro allI impI)
  fix orc seed w t w'
  assume w: "txn w = None" and ok: "ledger_ok seed (tables w)" and r: "run orc p w = (Inr (t, None), w')"
  from assms [OF w ledger_rows_ok [OF ok] fits_sources_of r] ok
  show "posted_once req (tables w) t (tables w')"
    by (auto simp: settles_def posted_once_def ledger_ok_def dest!: posts_post [OF ledger_rows_ok [OF ok]])
qed

lemma loops_post_alone:
  "posts_alone req (execute_loop (Suc n) req)" "posts_alone req (forUpdate_loop (Suc n) req)"
  by (rule settled_posts_alone, erule (3) execute.loop_settles [OF _ _ _ zero_less_Suc])
    (rule settled_posts_alone, erule (3) forUpdate.loop_settles [OF _ _ _ zero_less_Suc])

lemma reports_simps [simp]:
  "reports Idle a = (\<forall>t. a \<noteq> Inr (t, None))" "reports Committed a = (\<exists>t. a = Inr (t, None))"
  by (simp_all add: reports_def)

lemma safe_execute_loop: "safe (posts_alone req) reports (execute_loop n req) Idle"
proof (induction n)
  case 0
  then show ?case by (simp add: in_tx_def)
next
  case (Suc n)
  let ?again = "\<lambda>r. case r of
      Inl e \<Rightarrow> if isRetriableConflict e then execute_loop n req else fail_with e | Inr x \<Rightarrow> return x"
  let ?Q = "\<lambda>m r. safe (posts_alone req) reports (RollbackTx (?again r)) m"
  have e: "?Q m (Inl e)" if "in_tx m" for m e
    using Suc that by (auto simp: in_tx_def)
  have idle: "?Q Idle (Inl e)" for e using Suc by (auto simp: in_tx_def)
  have body: "safe (\<lambda>_. False) ?Q (executeOnce_body req) (Firm {})"
    unfolding executeOnce_body_def
  proof (rule safe_tryp, rule safe_claim_key, goal_cases)
    case 3
    have "safe (\<lambda>_. False) ?Q (tryp (execTx req) (\<lambda>result. tryp (complete_key_for req result) (\<lambda>_.
         CommitTx (\<lambda>c. case c of Some e \<Rightarrow> fail_with e | None \<Rightarrow> return (result, None))))) (Firm (key_rows req))"
      unfolding execTx_def
    proof (rule safe_tryp, rule safe_execTx, goal_cases)
      case (2 H' t)
      have "safe (\<lambda>_. False) ?Q (tryp (complete_key_for req t) (\<lambda>_.
         CommitTx (\<lambda>c. case c of Some e \<Rightarrow> fail_with e | None \<Rightarrow> return (t, None)))) (Firm H')"
        by (rule safe_tryp, rule safe_complete_key)
          (use e idle 2 in \<open>auto simp: passes_errors_def in_tx_def\<close>)
      then show ?case by simp
    qed (use e safe_debits(1) in \<open>auto simp: passes_errors_def\<close>)
    then show ?case by simp
  qed (use e in \<open>auto simp: passes_errors_def in_tx_def\<close>)
  have "safe (posts_alone req) reports (bindp (executeOnce_body req) (\<lambda>r. RollbackTx (?again r))) (Firm {})"
    by (rule safe_bindp [OF body])
  with Suc loops_post_alone(1) [of req n] show ?case
    by (auto simp: executeOnce_def bindp_assoc in_tx_def)
qed

lemma safe_forUpdate_loop: "safe (posts_alone req) reports (forUpdate_loop n req) Idle"
proof (induction n)
  case 0
  then show ?case by simp
next
  case (Suc n)
  let ?safe = "safe (posts_alone req) reports"
  let ?retry = "\<lambda>e. RollbackTx (retry_or e (forUpdate_loop n req))"
  let ?commit = "\<lambda>t. CommitTx (\<lambda>c. case c of Some e \<Rightarrow> ?retry e | None \<Rightarrow> return (t, None))"
  let ?complete = "\<lambda>t. bindp (complete_key_for req t) (\<lambda>r. case r of
      Inl e \<Rightarrow> RollbackTx (fail_with e) | Inr _ \<Rightarrow> ?commit t)"
  let ?body = "bindp (execTxWithDebit req debitSelectForUpdate) (\<lambda>r. case r of
      Inl e \<Rightarrow> ?retry e | Inr t \<Rightarrow> ?complete t)"
  let ?lock = "\<lambda>lo hi. bindp (exec InTx (LockPair lo hi)) (\<lambda>r. case r of Inl e \<Rightarrow> ?retry e | Inr _ \<Rightarrow> ?body)"
  have e: "?safe (?retry e) m" "?safe (RollbackTx (fail_with e)) m" if "in_tx m" for m e
    using Suc that by (auto simp: in_tx_def retry_or_def)
  have replay: "?safe (RollbackTx (return (zero_transfer, Some s))) Doomed" for s by simp
  have commit: "?safe (?commit t) (Firm H)" for t H
    using Suc by (auto simp: retry_or_def)
  have complete: "?safe (?complete t) (Firm H)" if "key_rows req \<subseteq> H" for t H
    by (rule safe_bindp, rule safe_complete_key)
      (use e commit that in \<open>auto simp: passes_errors_def simp del: safe.simps\<close>)
  have body: "?safe ?body (Firm H)" if "key_rows req \<subseteq> H" for H
    by (rule safe_bindp, rule safe_execTx)
      (use e complete that in \<open>auto simp: passes_errors_def intro: safe_debits(2) simp del: safe.simps\<close>)
  have lock: "?safe (?lock lo hi) (Firm (key_rows req))" for lo hi
    using e(1) [of Aborted] body
    by (auto simp: exec_def ignores_def after_stmt_def simp del: safe.simps(4))
  have "?safe (bindp (claim_key_for req) (\<lambda>r. case r of
      Inl e \<Rightarrow> ?retry e
    | Inr (won, stored) \<Rightarrow>
        if \<not> won then RollbackTx (return (zero_transfer, stored))
        else (case lock_order req of (lo, hi) \<Rightarrow> ?lock lo hi))) (Firm {})"
    by (rule safe_bindp, rule safe_claim_key)
      (use e replay lock in \<open>auto simp: passes_errors_def split: prod.splits simp del: safe.simps(4-11)\<close>)
  then show ?case
    using loops_post_alone(2) [of req n] by (auto simp del: safe.simps(3-11))
qed

lemma safe_execute_by: "safe (posts_alone req) reports (execute_by st req) Idle"
  by (cases st) (simp_all add: Execute_def ExecuteWithForUpdate_def safe_execute_loop safe_forUpdate_loop
      del: execute_loop.simps forUpdate_loop.simps)

end
