(* ===== verification/Repeat.thy ===== *)
theory Repeat
  imports Concurrent
begin

text \<open>
  Repeating a transaction. For every session that may still commit, repeating its log on the
  committed tables gives the replies it got (\<open>rerun\<close>), so that its program can be run again, alone,
  from \<open>BEGIN\<close> (\<open>follows\<close>). \<open>session_call\<close> sums up what one call of a session does: nothing to the
  tables, or it posts the request on the tables committed at that moment.
\<close>

section \<open>Repeating a log\<close>

primrec rerun :: "entry list \<Rightarrow> db \<Rightarrow> db option" where
  "rerun [] d = Some d"
| "rerun (e # L) d =
     (case e of (v, s, n, rows) \<Rightarrow>
       (case exec_stmt v s d of
          Inl _ \<Rightarrow> None
        | Inr (n', rows', d') \<Rightarrow> if same_reply s (n, rows) (n', rows') then rerun L d' else None))"

lemma rerun_append: "rerun (L @ L') d = (case rerun L d of None \<Rightarrow> None | Some v \<Rightarrow> rerun L' v)"
  by (induction L arbitrary: d) (auto split: prod.splits sum.splits)

lemma held_simps [simp]: "held [] = {}" "held (e # L) = set (entry_locks e) \<union> held L"
  "held (L @ L') = held L \<union> held L'"
  by (auto simp: held_def)

text \<open>All replies of the log are firm with the rows \<open>H\<close> locked.\<close>

definition log_firm :: "row_id set \<Rightarrow> entry list \<Rightarrow> bool" where
  "log_firm H L \<longleftrightarrow> list_all (\<lambda>(v, s, n, rows). tx_stmt s \<and> firm H s n rows) L"

lemma log_firm_simps [simp]:
  "log_firm H []"
  "log_firm H ((v, s, n, rows) # L) \<longleftrightarrow> tx_stmt s \<and> firm H s n rows \<and> log_firm H L"
  "log_firm H (L @ L') \<longleftrightarrow> log_firm H L \<and> log_firm H L'"
  by (auto simp: log_firm_def)

lemma firm_mono: "firm H s n rows \<Longrightarrow> H \<subseteq> H' \<Longrightarrow> firm H' s n rows"
  by (cases s) auto

lemma log_firm_mono: "log_firm H L \<Longrightarrow> H \<subseteq> H' \<Longrightarrow> log_firm H' L"
  by (induction L) (auto simp: log_firm_def dest: firm_mono)

lemma lock_only_frame: "lock_only s \<Longrightarrow> exec_stmt v s d = Inr (n, rows, d1) \<Longrightarrow> d1 = d"
  by (auto simp: lock_only_def sql_lock_pair_def Let_def)

lemma entry_frame:
  assumes u: "exec_stmt v s d = Inr (n', rows', d1)" and same: "same_reply s (n, rows) (n', rows')"
    and pk: "pk_ok d" and s: "tx_stmt s"
  shows "redo (v, s, n, rows) d = d1 \<and> pk_ok d1 \<and>
    (set (locks v s n rows) \<inter> H = {} \<longrightarrow> apart H d d1)"
proof (cases "lock_only s")
  case True
  with lock_only_frame [OF True u] u pk show ?thesis by (simp add: redo_def)
next
  case False
  with same have "n' = n" "rows' = rows" by (auto simp: same_reply_def)
  with stmt_frame [OF u pk, of H] stmt_frame [OF u pk, of "{}"] no_locks_no_change [OF u pk s] s u
  show ?thesis by (auto simp: redo_def)
qed

lemma rerun_overlay:
  "rerun L d = Some v \<Longrightarrow> pk_ok d \<Longrightarrow> log_firm F L \<Longrightarrow>
     overlay L d = v \<and> pk_ok v \<and> (held L \<inter> H = {} \<longrightarrow> apart H d v)"
proof (induction L arbitrary: d)
  case Nil
  then show ?case by simp
next
  case (Cons e L)
  obtain x s n rows where e: "e = (x, s, n, rows)" by (cases e)
  with Cons.prems(1) obtain n' rows' d1 where u: "exec_stmt x s d = Inr (n', rows', d1)"
    and same: "same_reply s (n, rows) (n', rows')" and L: "rerun L d1 = Some v"
    by (auto split: sum.splits if_splits)
  have s: "tx_stmt s" and F: "log_firm F L" using Cons.prems(3) e by auto
  note fr = entry_frame [OF u same Cons.prems(2) s, of H]
  from Cons.IH [OF L _ F] fr show ?case
    by (auto simp: e entry_locks_def Int_Un_distrib2 intro: apart_trans)
qed

lemma rerun_stable:
  "rerun L d = Some v \<Longrightarrow> pk_ok d \<Longrightarrow> pk_ok d' \<Longrightarrow> apart H d d' \<Longrightarrow> held L \<subseteq> H \<Longrightarrow> log_firm H L \<Longrightarrow>
     \<exists>v'. rerun L d' = Some v'"
proof (induction L arbitrary: d d')
  case Nil
  then show ?case by simp
next
  case (Cons e L)
  obtain x s n rows where e: "e = (x, s, n, rows)" by (cases e)
  with Cons.prems(1) obtain n' rows' d1 where u: "exec_stmt x s d = Inr (n', rows', d1)"
    and same: "same_reply s (n, rows) (n', rows')" and L: "rerun L d1 = Some v"
    by (auto split: sum.splits if_splits)
  have s: "tx_stmt s" "firm H s n rows" and F: "log_firm H L" and H: "set (locks x s n rows) \<subseteq> H" "held L \<subseteq> H"
    using Cons.prems(5,6) e by (auto simp: entry_locks_def)
  have "\<exists>q d1'. exec_stmt x s d' = Inr (fst q, snd q, d1') \<and> same_reply s (n, rows) q \<and> apart H d1 d1'"
  proof (cases "lock_only s")
    case True
    with u Cons.prems(4) show ?thesis by (auto simp: lock_only_def same_reply_def sql_lock_pair_def Let_def)
  next
    case False
    with same have "n' = n" "rows' = rows" by (auto simp: same_reply_def)
    with stmt_stable [OF u Cons.prems(2-4)] H(1) s(2) show ?thesis by simp
  qed
  then obtain n1 rows1 d1' where u': "exec_stmt x s d' = Inr (n1, rows1, d1')"
    and same': "same_reply s (n, rows) (n1, rows1)" and ap: "apart H d1 d1'" by auto
  have "pk_ok d1" "pk_ok d1'"
    using entry_frame [OF u same Cons.prems(2) s(1)] entry_frame [OF u' same' Cons.prems(3) s(1)] by auto
  from Cons.IH [OF L this ap H(2) F] show ?case by (simp add: e u' same')
qed

section \<open>Repeating a transaction\<close>

text \<open>The world without its tables and its transaction: the counters.\<close>

definition core :: "world \<Rightarrow> world" where
  "core w = w\<lparr>tables := empty_db, txn := None\<rparr>"

lemma core_simps [simp]:
  "core (core w) = core w" "core (w\<lparr>tables := d\<rparr>) = core w" "core (w\<lparr>txn := t\<rparr>) = core w"
  "core (tick w) = tick (core w)" "core (draw_ids orc s w) = draw_ids orc s (core w)"
  "stmt_env orc now s (core w) = stmt_env orc now s w" "calls (core w) = calls w"
  by (simp_all add: core_def tick_def) (cases s; simp add: draw_ids_def stmt_env_def)+

definition put_tx :: "db \<Rightarrow> timestamp \<Rightarrow> db \<Rightarrow> world \<Rightarrow> world" where
  "put_tx T now d c = c\<lparr>tables := T, txn := Some \<lparr>view = d, tx_now = now, aborted = False\<rparr>\<rparr>"

definition no_fail :: "environ \<Rightarrow> environ" where
  "no_fail orc = orc\<lparr>o_fault := \<lambda>_. None\<rparr>"

lemma put_tx_tick: "put_tx T now d (tick c) = tick (put_tx T now d c)"
  by (cases c) (simp add: put_tx_def tick_def)

lemma put_tx_sel [simp]: "calls (put_tx T now d c) = calls c" "tables (put_tx T now d c) = T"
  by (simp_all add: put_tx_def)

text \<open>
  From the program \<open>p0\<close>, the replies of the log lead to the program \<open>p\<close>.
\<close>

inductive follows ::
  "environ \<Rightarrow> timestamp \<Rightarrow> 'a prog \<Rightarrow> world \<Rightarrow> entry list \<Rightarrow> 'a prog \<Rightarrow> world \<Rightarrow> bool"
  for orc now p0 c0 where
  start: "follows orc now p0 c0 [] p0 c0"
| exec: "follows orc now p0 c0 L (Exec InTx s k) c \<Longrightarrow> (lock_only s \<Longrightarrow> ignores k) \<Longrightarrow>
    follows orc now p0 c0 (L @ [(stmt_env orc now s c, s, n, rows)]) (k (Inr n)) (tick (draw_ids orc s c))"
| query: "follows orc now p0 c0 L (Query InTx s k) c \<Longrightarrow> \<not> lock_only s \<Longrightarrow>
    follows orc now p0 c0 (L @ [(stmt_env orc now s c, s, n, rows)]) (k (Inr rows)) (tick (draw_ids orc s c))"
| uuid: "follows orc now p0 c0 L (NewUUID k) c \<Longrightarrow> follows orc now p0 c0 L (k (o_uuid orc (calls c))) (tick c)"
| time: "follows orc now p0 c0 L (TimeNow k) c \<Longrightarrow> follows orc now p0 c0 L (k (o_clock orc (calls c))) (tick c)"

lemma put_tx_call:
  assumes "exec_stmt (stmt_env orc now s c) s v = Inr (n, rows, v')"
  shows "call (no_fail orc) InTx s (put_tx T now v c) =
    (Inr (n, rows), put_tx T now v' (tick (draw_ids orc s c)))"
proof -
  have "stmt_env (no_fail orc) now s (put_tx T now v c) = stmt_env orc now s c"
    by (cases s) (simp_all add: stmt_env_def no_fail_def put_tx_def)
  moreover have "tick (draw_ids (no_fail orc) s ((put_tx T now v c)\<lparr>txn := Some \<lparr>view = v', tx_now = now, aborted = False\<rparr>\<rparr>)) =
      put_tx T now v' (tick (draw_ids orc s c))"
    by (cases s) (simp_all add: put_tx_def tick_def draw_ids_def no_fail_def)
  ultimately show ?thesis
    using assms by (simp add: call_def call_tx_def put_tx_def) (simp add: no_fail_def)
qed

lemma follows_run:
  "follows orc now p0 c0 L p c \<Longrightarrow> rerun L d = Some v \<Longrightarrow>
     run (no_fail orc) p0 (put_tx T now d c0) = run (no_fail orc) p (put_tx T now v c)"
proof (induction arbitrary: v rule: follows.induct)
  case start
  then show ?case by simp
next
  case (exec L s k c n rows)
  from exec.prems obtain v1 n' rows' where v1: "rerun L d = Some v1"
    and u: "exec_stmt (stmt_env orc now s c) s v1 = Inr (n', rows', v)"
    and same: "same_reply s (n, rows) (n', rows')"
    by (auto simp: rerun_append split: option.splits sum.splits if_splits)
  have "k (Inr n') = k (Inr n)"
    using same exec.hyps(2) by (auto simp: same_reply_def ignores_def)
  then show ?case using exec.IH [OF v1] put_tx_call [OF u, where T = T] by simp
next
  case (query L s k c n rows)
  from query.prems obtain v1 n' rows' where v1: "rerun L d = Some v1"
    and u: "exec_stmt (stmt_env orc now s c) s v1 = Inr (n', rows', v)"
    and same: "same_reply s (n, rows) (n', rows')"
    by (auto simp: rerun_append split: option.splits sum.splits if_splits)
  have "rows' = rows" using same query.hyps(2) by (simp add: same_reply_def)
  then show ?case using query.IH [OF v1] put_tx_call [OF u, where T = T] by simp
next
  case (uuid L k c)
  then show ?case by (simp add: no_fail_def put_tx_tick put_tx_sel)
next
  case (time L k c)
  then show ?case by (simp add: no_fail_def put_tx_tick put_tx_sel)
qed

section \<open>The end of a program\<close>

text \<open>The result of a program that only rolls back and returns.\<close>

primrec final :: "'a prog \<Rightarrow> 'a option" where
  "final (Ret a) = Some a"
| "final (BeginTx k) = None"
| "final (CommitTx k) = None"
| "final (RollbackTx p) = final p"
| "final (Exec c s k) = None"
| "final (Query c s k) = None"
| "final (NewUUID k) = None"
| "final (TimeNow k) = None"
| "final (NewRequest u k) = None"
| "final (DoRequest q k) = None"
| "final (Sleep t p) = None"

lemma committed_final:
  "safe G Q p Committed \<Longrightarrow> \<exists>a. final p = Some a \<and> Q Committed a \<and>
     (\<forall>orc w. \<exists>w'. run orc p w = (a, w') \<and> tables w' = tables w)"
proof (induction p)
  case (RollbackTx p)
  then obtain a where a: "final p = Some a" "Q Committed a"
    "\<And>orc w. \<exists>w'. run orc p w = (a, w') \<and> tables w' = tables w" by auto
  have "\<exists>w'. run orc (RollbackTx p) w = (a, w') \<and> tables w' = tables w" for orc w
    using a(3) [of orc "rollback_tx w"] by (simp add: rollback_tx_def)
  with a show ?case by simp
qed auto

text \<open>The transfer that a session has reported, or is about to report, as posted.\<close>

definition reported :: "session \<Rightarrow> transfer option" where
  "reported s = (case final (s_prog s) of Some (Inr (t, None)) \<Rightarrow> Some t | _ \<Rightarrow> None)"

lemma final_reports: "safe G reports p m \<Longrightarrow> final p = Some a \<Longrightarrow> m \<noteq> Committed \<Longrightarrow> a \<noteq> Inr (t, None)"
  by (induction p arbitrary: m) (auto simp: reports_def split: if_splits)

section \<open>The invariant of a session\<close>

text \<open>
  In a transaction with firm replies: what it has done so far can be repeated on the committed
  tables, from its \<open>BEGIN\<close> on.
\<close>

definition tracked :: "environ \<Rightarrow> db \<Rightarrow> session \<Rightarrow> txn \<Rightarrow> bool" where
  "tracked orc d s t \<longleftrightarrow>
     (\<exists>k c v. posts_alone (s_req s) (BeginTx k) \<and> tx_now t = o_clock orc (calls c) \<and> core c = c \<and>
        follows orc (tx_now t) (k None) (tick c) (s_log s) (s_prog s) (core (s_world s)) \<and>
        rerun (s_log s) d = Some v \<and> log_firm (held (s_log s)) (s_log s))"

definition session_mode :: "environ \<Rightarrow> db \<Rightarrow> session \<Rightarrow> mode \<Rightarrow> bool" where
  "session_mode orc d s m \<longleftrightarrow>
     (case txn (s_world s) of
        None \<Rightarrow> s_log s = [] \<and> \<not> in_tx m
      | Some t \<Rightarrow> in_tx m \<and> (aborted t \<longleftrightarrow> m = Aborted) \<and>
          (\<forall>H. m = Firm H \<longrightarrow> H = held (s_log s) \<and> tracked orc d s t))"

definition on_books :: "transfer_request \<Rightarrow> transfer \<Rightarrow> db \<Rightarrow> bool" where
  "on_books req t d \<longleftrightarrow>
     transfer_row_of t \<in> set (transfers d) \<and>
     (IdempotencyKey req \<noteq> [] \<longrightarrow> T_IdempotencyKey t = IdempotencyKey req)"

definition session_ok :: "environ \<Rightarrow> db \<Rightarrow> session \<Rightarrow> bool" where
  "session_ok orc d s \<longleftrightarrow>
     (\<exists>m. session_mode orc d s m \<and> safe (posts_alone (s_req s)) reports (s_prog s) m) \<and>
     (\<forall>t. reported s = Some t \<longrightarrow> on_books (s_req s) t d)"

lemma tracked_stable:
  assumes "tracked orc d s t" and "pk_ok d" and "pk_ok d'" and "apart (held (s_log s)) d d'"
  shows "tracked orc d' s t"
  using assms rerun_stable [OF _ assms(2-4)] unfolding tracked_def by blast

text \<open>What the others do does not disturb a session.\<close>

lemma session_ok_stable:
  assumes ok: "session_ok orc d s" and pk: "pk_ok d" "pk_ok d'" and ap: "apart (held (s_log s)) d d'"
    and tr: "set (transfers d) \<subseteq> set (transfers d')"
  shows "session_ok orc d' s"
proof -
  obtain m where m: "session_mode orc d s m" "safe (posts_alone (s_req s)) reports (s_prog s) m"
    using ok by (auto simp: session_ok_def)
  have "session_mode orc d' s m"
    using m(1) tracked_stable [OF _ pk ap] by (auto simp: session_mode_def split: option.splits)
  with m(2) ok tr show ?thesis by (auto simp: session_ok_def on_books_def)
qed

lemma posts_aloneD:
  "posts_alone req p \<Longrightarrow> txn w = None \<Longrightarrow> ledger_ok seed (tables w) \<Longrightarrow> run orc p w = (Inr (t, None), w') \<Longrightarrow>
     posted_once req (tables w) t (tables w')"
  unfolding posts_alone_def by blast

text \<open>A commit with firm replies posts the request on the tables committed by then.\<close>

lemma commit_posts:
  assumes tr: "tracked orc d s t" and p: "s_prog s = CommitTx k"
    and safe: "safe G reports (k None) Committed" and ok: "ledger_ok seed d"
  shows "\<exists>x. final (k None) = Some (Inr (x, None)) \<and> posted_once (s_req s) d x (overlay (s_log s) d) \<and>
    (\<forall>H. held (s_log s) \<inter> H = {} \<longrightarrow> apart H d (overlay (s_log s) d))"
proof -
  obtain kb c v where alone: "posts_alone (s_req s) (BeginTx kb)" and now: "tx_now t = o_clock orc (calls c)"
    and c: "core c = c" and f: "follows orc (tx_now t) (kb None) (tick c) (s_log s) (CommitTx k) (core (s_world s))"
    and v: "rerun (s_log s) d = Some v" and firm: "log_firm (held (s_log s)) (s_log s)"
    using tr p by (auto simp: tracked_def)
  have pk: "pk_ok d" using ledger_rows_ok [OF ok] by auto
  note over = rerun_overlay [OF v pk firm]
  obtain a where a: "final (k None) = Some a" "reports Committed a"
    and run_k: "\<And>orc w. \<exists>w'. run orc (k None) w = (a, w') \<and> tables w' = tables w"
    using committed_final [OF safe] by blast
  let ?w = "c\<lparr>tables := d\<rparr>" let ?co = "no_fail orc"
  have "run ?co (BeginTx kb) ?w = run ?co (kb None) (put_tx d (tx_now t) d (tick c))"
    by (simp add: begin_tx_def no_fail_def put_tx_tick now) (simp add: put_tx_def tick_def)
  also have "\<dots> = run ?co (CommitTx k) (put_tx d (tx_now t) v (core (s_world s)))"
    by (rule follows_run [OF f v])
  also have "\<dots> = run ?co (k None) (tick ((put_tx d (tx_now t) v (core (s_world s)))\<lparr>tables := v, txn := None\<rparr>))"
    by (simp add: commit_tx_def no_fail_def) (simp add: put_tx_def)
  finally obtain w' where r: "run ?co (BeginTx kb) ?w = (a, w')" and w': "tables w' = v"
    using run_k by force
  obtain x where x: "a = Inr (x, None)" using a(2) by auto
  have "txn ?w = None" using c by (simp add: core_def) (metis world.select_convs(2) world.surjective world.update_convs(2))
  then have "posted_once (s_req s) d x v"
    using posts_aloneD [OF alone _ _ r [unfolded x]] ok w' by simp
  with a x over show ?thesis by auto
qed

section \<open>One call of a session\<close>

lemma refresh_sel [simp]:
  "tables (refresh d s) = d" "core (refresh d s) = core (s_world s)" "calls (refresh d s) = calls (s_world s)"
  "txn (refresh d s) = map_option (\<lambda>t. t\<lparr>view := overlay (s_log s) d\<rparr>) (txn (s_world s))"
  by (simp_all add: refresh_def)

lemma session_mode_firm:
  assumes "session_mode orc d s (Firm H)" and "pk_ok d"
  obtains t where "txn (s_world s) = Some t" "\<not> aborted t" "H = held (s_log s)" "tracked orc d s t"
    "rerun (s_log s) d = Some (overlay (s_log s) d)" "pk_ok (overlay (s_log s) d)"
    "\<And>H'. H \<inter> H' = {} \<Longrightarrow> apart H' d (overlay (s_log s) d)" "log_firm (held (s_log s)) (s_log s)"
proof -
  obtain t where t: "txn (s_world s) = Some t" "\<not> aborted t" "H = held (s_log s)" "tracked orc d s t"
    using assms(1) by (auto simp: session_mode_def split: option.splits)
  then obtain v where v: "rerun (s_log s) d = Some v" and f: "log_firm (held (s_log s)) (s_log s)"
    by (auto simp: tracked_def)
  from rerun_overlay [OF v assms(2) f] have "overlay (s_log s) d = v" "pk_ok v"
    "\<And>H'. H \<inter> H' = {} \<Longrightarrow> apart H' d v" using t(3) by auto
  with that [OF t _ _ _ f] v show ?thesis by simp
qed

lemma reply_possible:
  assumes m: "session_mode orc d s m" and led: "ledger_ok seed d"
    and u: "exec_stmt v st (overlay (s_log s) d) = Inr (n, rows, d1)"
  shows "possible m st n rows"
proof (cases st)
  case (InsertKey key h)
  with u show ?thesis by (auto simp: possible_def sql_insert_key_def split: if_splits)
next
  case (SelectKey key)
  have "row ! 1 = VText ''done''" if m': "m = Firm H" and key: "KeyRow key \<notin> H" and row: "row \<in> set rows" for H row
  proof -
    have pk: "pk_ok d" using ledger_rows_ok [OF led] by auto
    obtain v where v: "v = overlay (s_log s) d" "pk_ok v" and ap: "apart {KeyRow key} d v"
      using session_mode_firm [OF m [unfolded m'] pk] key by (metis disjoint_insert(2) inf_bot_right)
    have same: "find_key key v = find_key key d" by (rule apart_key [OF ap]) simp
    have "rows = (case find_key key v of None \<Rightarrow> [] | Some r \<Rightarrow> [[VText (ik_hash r), VText (key_status_text (ik_status r)),
                        (case ik_code r of None \<Rightarrow> VNull | Some c \<Rightarrow> VInt c),
                        (case ik_body r of None \<Rightarrow> VNull | Some b \<Rightarrow> VJson b),
                        VTime (ik_claimed r)]])"
      using u SelectKey v by (auto simp: sql_select_key_def keys_with_id Let_def split: option.splits)
    with row obtain r where r: "find_key key d = Some r" and row': "row ! 1 = VText (key_status_text (ik_status r))"
      using same by (auto split: option.splits)
    have "key_settled d r" using keys_settled_find [OF _ r] led by (simp add: ledger_ok_def)
    with row' show ?thesis by (simp add: key_settled_def)
  qed
  with SelectKey show ?thesis by (simp add: possible_def)
qed (simp_all add: possible_def)

text \<open>A statement: it fails and the transaction is aborted, or it makes an entry in the log.\<close>

lemma tx_call:
  assumes m: "session_mode orc d s m" and "in_tx m" and led: "ledger_ok seed d"
    and c: "call_tx orc st (refresh d s) = (r, w')"
  shows "tables w' = d \<and> (\<exists>u. txn w' = Some u) \<and>
    (case r of
       Inl e \<Rightarrow> tx_entry orc st (refresh d s) = None \<and> (\<forall>u. txn w' = Some u \<longrightarrow> aborted u)
     | Inr (n, rows) \<Rightarrow> \<exists>t v d1. txn (s_world s) = Some t \<and> m \<noteq> Aborted \<and>
         v = stmt_env orc (tx_now t) st (core (s_world s)) \<and>
         tx_entry orc st (refresh d s) = Some (v, st, n, rows) \<and>
         exec_stmt v st (overlay (s_log s) d) = Inr (n, rows, d1) \<and> possible m st n rows \<and>
         core w' = tick (draw_ids orc st (core (s_world s))) \<and>
         txn w' = Some (t\<lparr>view := d1\<rparr>))"
proof -
  obtain t where t: "txn (s_world s) = Some t" "aborted t = (m = Aborted)"
    using m assms(2) by (auto simp: session_mode_def split: option.splits)
  have env: "stmt_env orc now st (refresh d s) = stmt_env orc now st (core (s_world s))" for now
    using core_simps(6) [of orc now st "refresh d s"] by (simp del: core_simps(6))
  show ?thesis
  proof (cases r)
    case (Inl e)
    with c t show ?thesis
      by (auto simp: tx_entry_def call_tx_def split: if_splits option.splits sum.splits prod.splits)
  next
    case (Inr q)
    obtain n rows where q: "q = (n, rows)" by (cases q)
    from c t Inr q obtain d1
      where a: "\<not> aborted t" and u: "exec_stmt (stmt_env orc (tx_now t) st (core (s_world s))) st (overlay (s_log s) d) = Inr (n, rows, d1)"
      and w': "w' = tick (draw_ids orc st ((refresh d s)\<lparr>txn := Some (t\<lparr>view := d1\<rparr>)\<rparr>))"
      by (auto simp: call_tx_def env split: if_splits option.splits sum.splits prod.splits)
    then have "core w' = tick (draw_ids orc st (core (s_world s)))" by simp
    moreover have "tx_entry orc st (refresh d s) = Some (stmt_env orc (tx_now t) st (core (s_world s)), st, n, rows)"
      using c Inr q t by (simp add: tx_entry_def env)
    ultimately show ?thesis
      using t a u w' Inr q reply_possible [OF m led u] by auto
  qed
qed

text \<open>The mode after a statement.\<close>

lemma stmt_mode:
  assumes m: "session_mode orc d s m" and led: "ledger_ok seed d" and st: "tx_stmt st"
    and t: "txn (s_world s) = Some t" "m \<noteq> Aborted"
    and u: "exec_stmt (stmt_env orc (tx_now t) st (core (s_world s))) st (overlay (s_log s) d) = Inr (n, rows, d1)"
    and w': "core w' = tick (draw_ids orc st (core (s_world s)))" "txn w' = Some (t\<lparr>view := d1\<rparr>)"
    and f: "\<And>now p0 c0 L c. follows orc now p0 c0 L (s_prog s) c \<Longrightarrow>
      follows orc now p0 c0 (L @ [(stmt_env orc now st c, st, n, rows)]) p (tick (draw_ids orc st c))"
  shows "session_mode orc d
    (s\<lparr>s_prog := p, s_world := w', s_log := s_log s @ [(stmt_env orc (tx_now t) st (core (s_world s)), st, n, rows)],
      s_part := []\<rparr>)
    (after_stmt m (stmt_env orc (tx_now t) st (core (s_world s))) st n rows)"
proof -
  let ?v = "stmt_env orc (tx_now t) st (core (s_world s))"
  have a: "\<not> aborted t" and "in_tx m" using m t by (auto simp: session_mode_def)
  show ?thesis
  proof (cases "\<exists>H. m = Firm H \<and> firm (H \<union> set (locks ?v st n rows)) st n rows")
    case False
    then show ?thesis
      using a w'(2) t(2) \<open>in_tx m\<close> by (cases m) (auto simp: session_mode_def after_stmt_def in_tx_def)
  next
    case True
    then obtain H where H: "m = Firm H" and firm: "firm (H \<union> set (locks ?v st n rows)) st n rows" by blast
    have pk: "pk_ok d" using ledger_rows_ok [OF led] by auto
    from m H have "session_mode orc d s (Firm H)" by simp
    then obtain Hs: "H = held (s_log s)" and tr: "tracked orc d s t"
      and re: "rerun (s_log s) d = Some (overlay (s_log s) d)" and lf: "log_firm (held (s_log s)) (s_log s)"
      by (rule session_mode_firm [OF _ pk]) (use t in auto)
    let ?L = "s_log s @ [(?v, st, n, rows)]"
    have "rerun ?L d = Some d1" using re u by (simp add: rerun_append same_reply_def)
    moreover have "held ?L = H \<union> set (locks ?v st n rows)" by (simp add: Hs entry_locks_def)
    moreover have "log_firm (held ?L) ?L"
      using lf firm st log_firm_mono [OF lf, of "held ?L"] Hs by (simp add: entry_locks_def)
    moreover obtain k c where "posts_alone (s_req s) (BeginTx k)" "tx_now t = o_clock orc (calls c)" "core c = c"
      and fo: "follows orc (tx_now t) (k None) (tick c) (s_log s) (s_prog s) (core (s_world s))"
      using tr by (auto simp: tracked_def)
    moreover note f [OF fo]
    ultimately have "tracked orc d (s\<lparr>s_prog := p, s_world := w', s_log := ?L, s_part := []\<rparr>) (t\<lparr>view := d1\<rparr>)"
      unfolding tracked_def by (intro exI [of _ k] exI [of _ c] exI [of _ d1]) (simp add: w'(1))
    with \<open>held ?L = _\<close> a w'(2) H firm show ?thesis
      by (simp add: session_mode_def after_stmt_def)
  qed
qed

lemma safe_reported: "safe G reports (s_prog s) m \<Longrightarrow> m \<noteq> Committed \<Longrightarrow> reported s = None"
  by (auto simp: reported_def dest: final_reports split: option.splits sum.splits)

lemma posted_on_books: "posted_once req d t d' \<Longrightarrow> on_books req t d'"
  by (auto simp: posted_once_def may_post_def post_def on_books_def)

text \<open>
  What a call does to the committed tables: nothing, with at most the locks \<open>R\<close> added, or it posts
  the request of the session, on rows that the session has locked.
\<close>

definition quiet_call :: "row_id set \<Rightarrow> db \<Rightarrow> session \<Rightarrow> session \<Rightarrow> db \<Rightarrow> bool" where
  "quiet_call R d s s' d' \<longleftrightarrow>
     d' = d \<and> held (s_log s') \<subseteq> held (s_log s) \<union> R \<and> (reported s' = None \<or> reported s' = reported s)"

definition posting_call :: "db \<Rightarrow> session \<Rightarrow> session \<Rightarrow> db \<Rightarrow> bool" where
  "posting_call d s s' d' \<longleftrightarrow>
     (\<exists>k. s_prog s = CommitTx k) \<and> s_log s' = [] \<and>
     (\<exists>t. posted_once (s_req s) d t d' \<and> (reported s' = None \<or> reported s' = Some t)) \<and>
     (\<forall>H. held (s_log s) \<inter> H = {} \<longrightarrow> apart H d d')"

definition good_call :: "environ \<Rightarrow> row_id set \<Rightarrow> db \<Rightarrow> session \<Rightarrow> session \<Rightarrow> db \<Rightarrow> bool" where
  "good_call orc R d s s' d' \<longleftrightarrow>
     s_req s' = s_req s \<and> session_ok orc d' s' \<and> (quiet_call R d s s' d' \<or> posting_call d s s' d')"

lemma quietI:
  assumes "session_ok orc d s" and "session_mode orc d s' m" and "safe (posts_alone (s_req s)) reports (s_prog s') m"
    and "s_req s' = s_req s" and "held (s_log s') \<subseteq> held (s_log s) \<union> R"
    and "m = Committed \<Longrightarrow> reported s' = reported s"
  shows "good_call orc R d s s' d"
proof -
  have "reported s' = None \<or> reported s' = reported s"
    using safe_reported [OF assms(3)] assms(6) by blast
  moreover from this have "session_ok orc d s'"
    using assms(1-4) by (auto simp: session_ok_def)
  ultimately show ?thesis using assms(4,5) by (simp add: good_call_def quiet_call_def)
qed

lemma begin_call:
  assumes ok: "session_ok orc d s" and p: "s_prog s = BeginTx k" and adv: "advance orc d s = (s', d')"
  shows "good_call orc R d s s' d'"
proof -
  obtain m where m: "session_mode orc d s m" and safe: "safe (posts_alone (s_req s)) reports (s_prog s) m"
    using ok by (auto simp: session_ok_def)
  then have tx: "txn (s_world s) = None" "s_log s = []" and G: "posts_alone (s_req s) (BeginTx k)"
    and safe': "\<And>e. safe (posts_alone (s_req s)) reports (k (Some e)) Idle"
      "safe (posts_alone (s_req s)) reports (k None) (Firm {})"
    using p by (auto simp: session_mode_def split: option.splits)
  show ?thesis
  proof (cases "o_fault orc (calls (s_world s))")
    case (Some e)
    with adv p tx have "s' = s\<lparr>s_prog := k (Some (fault_err e)), s_world := tick (refresh d s), s_log := [], s_part := []\<rparr>" "d' = d"
      by (auto simp: advance_def begin_tx_def next_log_def)
    then show ?thesis
      using quietI [OF ok, of s' Idle R] safe' tx by (simp add: session_mode_def)
  next
    case None
    let ?t = "\<lparr>view = d, tx_now = o_clock orc (calls (s_world s)), aborted = False\<rparr>"
    from None adv p tx have s': "s' = s\<lparr>s_prog := k None, s_world := tick ((refresh d s)\<lparr>txn := Some ?t\<rparr>), s_log := [], s_part := []\<rparr>" "d' = d"
      by (auto simp: advance_def begin_tx_def next_log_def next_entry_def)
    have "tracked orc d s' ?t"
      unfolding tracked_def
      by (rule exI [of _ k], rule exI [of _ "core (s_world s)"]) (use G in \<open>simp add: s' follows.start\<close>)
    then have "session_mode orc d s' (Firm {})" by (simp add: session_mode_def s')
    from quietI [OF ok this, of R] safe' s' show ?thesis by simp
  qed
qed

lemma commit_call:
  assumes ok: "session_ok orc d s" and led: "ledger_ok seed d" and p: "s_prog s = CommitTx k"
    and adv: "advance orc d s = (s', d')"
  shows "good_call orc R d s s' d'"
proof -
  obtain m where m: "session_mode orc d s m" and safe: "safe (posts_alone (s_req s)) reports (s_prog s) m"
    using ok by (auto simp: session_ok_def)
  have pk: "pk_ok d" using ledger_rows_ok [OF led] by auto
  have idle: "\<And>e. safe (posts_alone (s_req s)) reports (k (Some e)) Idle" using safe p by simp
  consider "m = Aborted" | H where "m = Firm H" "safe (posts_alone (s_req s)) reports (k None) Committed"
    using safe p by auto
  then show ?thesis
  proof cases
    case 1
    then obtain t where "txn (s_world s) = Some t" "aborted t"
      using m by (auto simp: session_mode_def split: option.splits)
    with adv p have "s' = s\<lparr>s_prog := k (Some ErrTxCommitRollback),
        s_world := tick ((refresh d s)\<lparr>txn := None\<rparr>), s_log := [], s_part := []\<rparr>" "d' = d"
      by (auto simp: advance_def commit_tx_def next_log_def)
    then show ?thesis using quietI [OF ok, of s' Idle R] idle by (simp add: session_mode_def)
  next
    case (2 H)
    then obtain t where t: "txn (s_world s) = Some t" "\<not> aborted t" and tr: "tracked orc d s t"
      using m session_mode_firm [OF _ pk] by blast
    obtain x where x: "final (k None) = Some (Inr (x, None))"
      and posted: "posted_once (s_req s) d x (overlay (s_log s) d)"
      and ap: "\<forall>H. held (s_log s) \<inter> H = {} \<longrightarrow> apart H d (overlay (s_log s) d)"
      using commit_posts [OF tr p 2(2) led] by blast
    consider e where "s_prog s' = k (Some e)" "d' = d" | e where "s_prog s' = k (Some e)" "d' = overlay (s_log s) d"
      | "s_prog s' = k None" "d' = overlay (s_log s) d"
      using adv p t by (auto simp: advance_def commit_tx_def split: option.splits if_splits)
    moreover have s': "txn (s_world s') = None" "s_log s' = []" "s_req s' = s_req s"
      using adv p t by (auto simp: advance_def commit_tx_def next_log_def split: option.splits if_splits)
    ultimately show ?thesis
    proof cases
      case (1 e)
      with quietI [OF ok, of s' Idle R] idle s' show ?thesis by (simp add: session_mode_def)
    next
      case (2 e)
      have "reported s' = None" using safe_reported [of "posts_alone (s_req s)" s' Idle] idle 2(1) by simp
      moreover have "session_ok orc d' s'"
        using idle 2(1) s' calculation unfolding session_ok_def by (auto simp: session_mode_def intro!: exI [of _ Idle])
      ultimately show ?thesis
        using posted ap p s' 2(2) by (auto simp: good_call_def posting_call_def)
    next
      case 3
      have rep: "reported s' = Some x" using 3(1) x by (simp add: reported_def)
      have "session_ok orc d' s'"
        using 2(2) 3 s' rep posted_on_books [OF posted] unfolding session_ok_def
        by (auto simp: session_mode_def intro!: exI [of _ Committed])
      with rep show ?thesis
        using posted ap p s' 3(2) by (auto simp: good_call_def posting_call_def)
    qed
  qed
qed

text \<open>A statement, as \<open>Exec\<close> or \<open>Query\<close>; \<open>f\<close> is what goes on after a reply.\<close>

lemma stmt_call:
  assumes ok: "session_ok orc d s" and led: "ledger_ok seed d" and adv: "advance orc d s = (s', d')"
    and m: "session_mode orc d s m" "in_tx m" and st: "tx_stmt st"
    and entry: "next_entry orc (s_prog s) (refresh d s) = tx_entry orc st (refresh d s)"
    and step: "\<And>r w'. call_tx orc st (refresh d s) = (r, w') \<Longrightarrow>
      pstep orc (s_prog s) (refresh d s) = (case r of Inl e \<Rightarrow> h e | Inr q \<Rightarrow> f q, w')"
    and err: "\<And>e. safe (posts_alone (s_req s)) reports (h e) Aborted"
    and reply: "\<And>v n rows. m \<noteq> Aborted \<Longrightarrow> possible m st n rows \<Longrightarrow>
      safe (posts_alone (s_req s)) reports (f (n, rows)) (after_stmt m v st n rows)"
    and fol: "\<And>now p0 c0 L c n rows. follows orc now p0 c0 L (s_prog s) c \<Longrightarrow>
      follows orc now p0 c0 (L @ [(stmt_env orc now st c, st, n, rows)]) (f (n, rows)) (tick (draw_ids orc st c))"
  shows "good_call orc (set (case next_entry orc (s_prog s) (refresh d s) of None \<Rightarrow> [] | Some e \<Rightarrow> entry_locks e)) d s s' d'"
proof -
  obtain r w' where c: "call_tx orc st (refresh d s) = (r, w')" by fastforce
  note call = tx_call [OF m led c]
  then obtain u where u: "txn w' = Some u" and d': "tables w' = d" by auto
  show ?thesis
  proof (cases r)
    case (Inl e)
    with call u have none: "tx_entry orc st (refresh d s) = None" and a: "aborted u" by auto
    with adv step [OF c] Inl u entry d' have "s' = s\<lparr>s_prog := h e, s_world := w', s_log := s_log s, s_part := []\<rparr>" "d' = d"
      by (auto simp: advance_def next_log_def)
    with quietI [OF ok, of s' Aborted] err u a show ?thesis by (simp add: session_mode_def)
  next
    case (Inr q)
    obtain n rows where q: "q = (n, rows)" by (cases q)
    with call Inr obtain t v d1 where t: "txn (s_world s) = Some t" "m \<noteq> Aborted"
      and v: "v = stmt_env orc (tx_now t) st (core (s_world s))"
      and en: "tx_entry orc st (refresh d s) = Some (v, st, n, rows)"
      and ex: "exec_stmt v st (overlay (s_log s) d) = Inr (n, rows, d1)" and pos: "possible m st n rows"
      and w': "core w' = tick (draw_ids orc st (core (s_world s)))" "txn w' = Some (t\<lparr>view := d1\<rparr>)" by auto
    from adv step [OF c] Inr q u entry en d'
    have s': "s' = s\<lparr>s_prog := f (n, rows), s_world := w', s_log := s_log s @ [(v, st, n, rows)], s_part := []\<rparr>" "d' = d"
      by (auto simp: advance_def next_log_def)
    have "session_mode orc d s' (after_stmt m v st n rows)"
      unfolding s' v by (rule stmt_mode [OF m(1) led st t ex [unfolded v] w' fol])
    moreover have "after_stmt m v st n rows \<noteq> Committed"
      using m(2) by (cases m) (simp_all add: after_stmt_def)
    moreover have "held (s_log s') \<subseteq> held (s_log s) \<union>
        set (case next_entry orc (s_prog s) (refresh d s) of None \<Rightarrow> [] | Some e \<Rightarrow> entry_locks e)"
      by (simp add: s' entry en)
    ultimately show ?thesis
      using quietI [OF ok, of s' "after_stmt m v st n rows"] reply [OF t(2) pos] s' by simp
  qed
qed

lemma value_call:
  assumes ok: "session_ok orc d s" and m: "session_mode orc d s m" "in_tx m"
    and adv: "advance orc d s = (s', d')"
    and step: "pstep orc (s_prog s) (refresh d s) = (p, tick (refresh d s))"
      "next_entry orc (s_prog s) (refresh d s) = None"
    and safe: "safe (posts_alone (s_req s)) reports p m"
    and fol: "\<And>now p0 c0 L. follows orc now p0 c0 L (s_prog s) (core (s_world s)) \<Longrightarrow>
      follows orc now p0 c0 L p (tick (core (s_world s)))"
  shows "good_call orc R d s s' d'"
proof -
  obtain t where t: "txn (s_world s) = Some t" using m by (auto simp: session_mode_def split: option.splits)
  with adv step have s': "s' = s\<lparr>s_prog := p, s_world := tick (refresh d s), s_log := s_log s, s_part := []\<rparr>" "d' = d"
    by (auto simp: advance_def next_log_def)
  have "tracked orc d s t \<Longrightarrow> tracked orc d s' (t\<lparr>view := overlay (s_log s) d\<rparr>)"
    using fol unfolding tracked_def by (auto simp: s') metis
  then have "session_mode orc d s' m"
    using m t by (auto simp: session_mode_def s')
  moreover have "m \<noteq> Committed" using m(2) by auto
  ultimately show ?thesis using quietI [OF ok, of s' m R] safe s' by simp
qed

lemma session_call:
  assumes ok: "session_ok orc d s" and led: "ledger_ok seed d" and adv: "advance orc d s = (s', d')"
  shows "good_call orc (set (case next_entry orc (s_prog s) (refresh d s) of None \<Rightarrow> [] | Some e \<Rightarrow> entry_locks e)) d s s' d'"
proof -
  obtain m where m: "session_mode orc d s m" and safe: "safe (posts_alone (s_req s)) reports (s_prog s) m"
    using ok by (auto simp: session_ok_def)
  show ?thesis
  proof (cases "s_prog s")
    case (Ret a)
    with safe have "\<not> in_tx m" by (auto simp: reports_def)
    with m adv Ret have s': "s' = s\<lparr>s_prog := Ret a, s_world := refresh d s, s_log := [], s_part := []\<rparr>" "d' = d" "s_log s = []"
        "txn (s_world s) = None"
      by (auto simp: advance_def next_log_def session_mode_def split: option.splits)
    with quietI [OF ok, of s' m] safe Ret \<open>\<not> in_tx m\<close> show ?thesis
      by (simp add: session_mode_def reported_def)
  next
    case (BeginTx k)
    then show ?thesis by (rule begin_call [OF ok _ adv])
  next
    case (CommitTx k)
    then show ?thesis by (rule commit_call [OF ok led _ adv])
  next
    case (RollbackTx p)
    let ?m = "if m = Committed then Committed else Idle"
    from adv RollbackTx have s': "s' = s\<lparr>s_prog := p, s_world := rollback_tx (refresh d s), s_log := [], s_part := []\<rparr>" "d' = d"
      by (auto simp: advance_def next_log_def rollback_tx_def)
    then have "session_mode orc d s' ?m" by (simp add: session_mode_def rollback_tx_def)
    with quietI [OF ok, of s' ?m] safe RollbackTx s' show ?thesis by (simp add: reported_def)
  next
    case (Exec c st k)
    with safe have c: "c = InTx" "tx_stmt st" "in_tx m" "\<And>e. safe (posts_alone (s_req s)) reports (k (Inl e)) Aborted"
      and i: "lock_only st \<Longrightarrow> ignores k" by auto
    show ?thesis
    proof (rule stmt_call [OF ok led adv m c(3,2), where h = "\<lambda>e. k (Inl e)" and f = "\<lambda>q. k (Inr (fst q))"])
      show "pstep orc (s_prog s) (refresh d s) = (case r of Inl e \<Rightarrow> k (Inl e) | Inr q \<Rightarrow> k (Inr (fst q)), w')"
        if "call_tx orc st (refresh d s) = (r, w')" for r w'
        using that Exec c by (cases r) (simp_all add: call_def)
    qed (use Exec c safe i in \<open>auto simp: next_entry_def intro: follows.exec\<close>)
  next
    case (Query c st k)
    with safe have c: "c = InTx" "tx_stmt st" "in_tx m" "\<And>e. safe (posts_alone (s_req s)) reports (k (Inl e)) Aborted"
      and i: "\<not> lock_only st" by auto
    show ?thesis
    proof (rule stmt_call [OF ok led adv m c(3,2), where h = "\<lambda>e. k (Inl e)" and f = "\<lambda>q. k (Inr (snd q))"])
      show "pstep orc (s_prog s) (refresh d s) = (case r of Inl e \<Rightarrow> k (Inl e) | Inr q \<Rightarrow> k (Inr (snd q)), w')"
        if "call_tx orc st (refresh d s) = (r, w')" for r w'
        using that Query c by (cases r) (simp_all add: call_def)
    qed (use Query c safe i in \<open>auto simp: next_entry_def intro: follows.query\<close>)
  next
    case (NewUUID k)
    show ?thesis
      by (rule value_call [OF ok m _ adv, where p = "k (o_uuid orc (calls (s_world s)))"])
        (use NewUUID safe follows.uuid in \<open>fastforce simp: next_entry_def\<close>)+
  next
    case (TimeNow k)
    show ?thesis
      by (rule value_call [OF ok m _ adv, where p = "k (o_clock orc (calls (s_world s)))"])
        (use TimeNow safe follows.time in \<open>fastforce simp: next_entry_def\<close>)+
  qed (use safe in simp_all)
qed

end
