(* ===== verification/Serial.thy ===== *)
theory Serial
  imports Repeat
begin

text \<open>
  Overlapping transactions are serializable in the order of their commits: what a commit publishes is
  what the request does when it runs alone on the tables committed at that moment (theory Repeat).
  Here the invariant of all sessions and the committed tables, kept by every step.
\<close>

section \<open>Statements on the pool\<close>

lemma webhook_ledger:
  assumes ok: "ledger_ok seed d"
  shows "ledger_ok seed (d\<lparr>accounts := map (\<lambda>a. if P a then a\<lparr>acc_webhook := u\<rparr> else a) (accounts d)\<rparr>)"
proof -
  let ?f = "\<lambda>a. if P a then a\<lparr>acc_webhook := u\<rparr> else a"
  let ?d = "d\<lparr>accounts := map ?f (accounts d)\<rparr>"
  have f: "acc_id (?f a) = acc_id a" "acc_balance (?f a) = acc_balance a" "acc_currency (?f a) = acc_currency a"
    "account_row_ok (?f a) = account_row_ok a" for a by (simp_all add: account_row_ok_def)
  have has: "has_account i ?d = has_account i d" for i
    by (simp add: has_account_def image_image f(1) del: if_image_distrib)
  have "books_ok seed ?d"
    using ok f by (simp add: ledger_ok_def books_ok_def constraints_ok_def has comp_def booked_def journal_def
        conserved_def double_entry_def entries_of_def events_match_def one_currency_def del: if_image_distrib)
  moreover have "keys_settled ?d"
    using ok by (simp add: ledger_ok_def keys_settled_def key_settled_def)
  ultimately show ?thesis by (simp add: ledger_ok_def)
qed

lemma update_outbox_ledger:
  assumes u: "update_outbox P f d = Inr (n, rows, d')" and ok: "ledger_ok seed d"
    and f: "\<And>r r'. f r = Inr r' \<Longrightarrow> same_event r r'"
  shows "ledger_ok seed d' \<and> transfers d' = transfers d \<and> accounts d' = accounts d"
proof -
  obtain os where r: "update_rows P f (outbox d) = Inr (n, os)" and d': "d' = d\<lparr>outbox := os\<rparr>"
    using u by (auto simp: update_outbox_def split: sum.splits)
  have "same_event x (if P x then projr (f x) else x)" if "x \<in> set (outbox d)" for x
    using update_rows_Inr [OF r] that f by auto
  then have "list_all2 same_event (outbox d) os"
    using update_rows_Inr [OF r] by (simp add: list_all2_map2 list.rel_refl_strong)
  with outbox_progress_ledger [OF _ ok] d' show ?thesis by simp
qed

lemma pool_stmt_ledger:
  assumes s: "pool_stmt s" and id: "new_id lim s v" and u: "exec_stmt v s d = Inr (n, rows, d')"
    and ok: "ledger_ok seed d" and seed: "\<forall>i \<ge> lim. seed i = 0"
  shows "ledger_ok seed d' \<and> transfers d' = transfers d \<and> total_balance d' = total_balance d"
proof (cases s)
  case (InsertAccount name cur url)
  with u obtain c where c: "char3 cur = Some c" and new: "\<not> has_account (e_id v) d"
    and d': "d' = d\<lparr>accounts := accounts d @ [new_account (e_id v) name c url (e_now v)]\<rparr>"
    by (auto simp: sql_insert_account_def new_account_def Let_def split: option.splits if_splits)
  have "seed (e_id v) = 0" using id InsertAccount seed by (simp add: new_id_def)
  from new_account_ledger [OF ok new this char3_idem [OF c]] show ?thesis
    by (simp add: d' total_balance_def new_account_def)
next
  case (UpdateWebhook url i)
  let ?P = "\<lambda>a. acc_id a = sint i"
  have "update_rows ?P (\<lambda>a. Inr (a\<lparr>acc_webhook := Some url\<rparr>)) (accounts d) =
      (Inr (length (filter ?P (accounts d)), map (\<lambda>a. if ?P a then a\<lparr>acc_webhook := Some url\<rparr> else a) (accounts d)) :: err + _)"
    by (rule update_rows_total) simp
  with u UpdateWebhook have d': "d' = d\<lparr>accounts := map (\<lambda>a. if ?P a then a\<lparr>acc_webhook := Some url\<rparr> else a) (accounts d)\<rparr>"
    by (simp add: sql_update_webhook_def update_accounts_def)
  have "map acc_balance (accounts d') = map acc_balance (accounts d)" by (simp add: d')
  then have "total_balance d' = total_balance d" by (simp only: total_balance_def)
  with webhook_ledger [OF ok, of ?P "Some url"] show ?thesis by (simp add: d')
next
  case (ClaimEvents l threshold)
  with u obtain ids where d': "d' = d\<lparr>outbox := map (\<lambda>r. if ob_id r \<in> set ids then claim_row v threshold r else r) (outbox d)\<rparr>"
    by (auto simp: sql_claim_events_def Let_def split: if_splits)
  have "list_all2 same_event (outbox d) (outbox d')"
    by (auto simp: d' list_all2_map2 same_event_def claim_row_def intro!: list.rel_refl_strong)
  from outbox_progress_ledger [OF this ok] show ?thesis by (simp add: d' total_balance_def)
next
  case (DeliverEvent i)
  with u update_outbox_ledger [OF _ ok, of _ _ n rows d'] show ?thesis
    by (force simp: sql_deliver_event_def same_event_def total_balance_def)
next
  case (KillEvent i reason)
  let ?f = "\<lambda>r. if \<not> int4 (ob_attempts r + 1) then Inl numeric_out_of_range
            else Inr (r\<lparr>ob_status := DeadLetter, ob_reason := Some reason, ob_next := None,
                        ob_attempts := ob_attempts r + 1\<rparr>)"
  have "same_event r r'" if "?f r = Inr r'" for r r'
    using that by (auto simp: same_event_def split: if_splits)
  with u KillEvent update_outbox_ledger [OF _ ok, of _ ?f n rows d'] show ?thesis
    by (simp add: sql_kill_event_def total_balance_def)
next
  case (FailEvent i reason m)
  let ?f = "\<lambda>r. if \<not> int4 (ob_attempts r + 1) then Inl numeric_out_of_range
            else if m \<le> ob_attempts r + 1
              then Inr (r\<lparr>ob_attempts := ob_attempts r + 1, ob_reason := Some reason,
                          ob_status := DeadLetter, ob_next := None\<rparr>)
            else if \<not> bigint (backoff v (ob_attempts r + 1)) then Inl datetime_overflow
            else Inr (r\<lparr>ob_attempts := ob_attempts r + 1, ob_reason := Some reason,
                        ob_status := Pending, ob_next := Some (backoff v (ob_attempts r + 1))\<rparr>)"
  have "same_event r r'" if "?f r = Inr r'" for r r'
    using that by (auto simp: same_event_def split: if_splits)
  with u FailEvent update_outbox_ledger [OF _ ok, of _ ?f n rows d'] show ?thesis
    by (simp add: sql_fail_event_def total_balance_def Let_def)
qed (use s in simp_all)

section \<open>The invariant of the system\<close>

text \<open>Transfers posted and statements executed one after another, with the transfers that were posted.\<close>

inductive serially :: "db \<Rightarrow> (transfer_request \<times> transfer) list \<Rightarrow> db \<Rightarrow> bool" for d0 where
  start: "serially d0 [] d0"
| posting: "serially d0 h d \<Longrightarrow> posted_once req d t d' \<Longrightarrow> serially d0 (h @ [(req, t)]) d'"
| between: "serially d0 h d \<Longrightarrow> pool_stmt s \<Longrightarrow> exec_stmt v s d = Inr (n, rows, d') \<Longrightarrow> serially d0 h d'"

definition apart_locks :: "session list \<Rightarrow> bool" where
  "apart_locks ss \<longleftrightarrow>
     (\<forall>i < length ss. \<forall>j < length ss. i \<noteq> j \<longrightarrow> holds (ss ! i) \<inter> holds (ss ! j) = {})"

definition reported_once :: "session list \<Rightarrow> bool" where
  "reported_once ss \<longleftrightarrow>
     (\<forall>i < length ss. \<forall>j < length ss. \<forall>t t'. i \<noteq> j \<longrightarrow> reported (ss ! i) = Some t \<longrightarrow>
        reported (ss ! j) = Some t' \<longrightarrow> T_IdempotencyKey t \<noteq> T_IdempotencyKey t')"

definition sessions_ok :: "(nat \<Rightarrow> environ) \<Rightarrow> session list \<Rightarrow> db \<Rightarrow> bool" where
  "sessions_ok E ss d \<longleftrightarrow>
     (\<forall>i < length ss. session_ok (E i) d (ss ! i)) \<and> apart_locks ss \<and> reported_once ss"

text \<open>Every report is in the history, and every transfer of the history is on the books.\<close>

definition history_ok :: "session list \<Rightarrow> db \<Rightarrow> db \<Rightarrow> (transfer_request \<times> transfer) list \<Rightarrow> bool" where
  "history_ok ss d0 d h \<longleftrightarrow>
     serially d0 h d \<and> distinct (map (T_IdempotencyKey \<circ> snd) h) \<and>
     (\<forall>x \<in> set h. fst x \<in> s_req ` set ss \<and> on_books (fst x) (snd x) d) \<and>
     (\<forall>s \<in> set ss. \<forall>t. reported s = Some t \<longrightarrow> (s_req s, t) \<in> set h)"

lemma others_stable:
  assumes ok: "sessions_ok E ss d" and led: "ledger_ok seed d" "ledger_ok seed' d'" and j: "j < length ss"
    and ap: "apart (held (s_log (ss ! j))) d d'" and tr: "set (transfers d) \<subseteq> set (transfers d')"
  shows "session_ok (E j) d' (ss ! j)"
proof -
  have "session_ok (E j) d (ss ! j)" using ok j by (simp add: sessions_ok_def)
  from session_ok_stable [OF this rows_ok_pk [OF ledger_rows_ok [OF led(1)]]
      rows_ok_pk [OF ledger_rows_ok [OF led(2)]] ap tr] show ?thesis .
qed

lemma posted_fresh_key:
  assumes "posted_once req d t d'" and "on_books req' t' d"
  shows "T_IdempotencyKey t \<noteq> T_IdempotencyKey t'"
proof -
  have "T_IdempotencyKey t \<notin> tr_key ` set (transfers d)"
    using assms(1) by (auto simp: posted_once_def may_post_def postable_def fresh_ids_def)
  moreover have "tr_key (transfer_row_of t') \<in> tr_key ` set (transfers d)"
    using assms(2) unfolding on_books_def by (metis imageI)
  ultimately show ?thesis by (auto simp: transfer_row_of_def)
qed

lemma posted_ledger: "posted_once req d t d' \<Longrightarrow> ledger_ok seed d \<Longrightarrow>
    ledger_ok seed d' \<and> set (transfers d) \<subseteq> set (transfers d') \<and> total_balance d' = total_balance d"
  using post_total [OF ledger_rows_ok]
  by (auto simp: posted_once_def intro: post_ledger_ok) (auto simp: post_def)

lemma on_books_mono: "on_books req t d \<Longrightarrow> set (transfers d) \<subseteq> set (transfers d') \<Longrightarrow> on_books req t d'"
  by (auto simp: on_books_def)

lemma map_update_same: "i < length xs \<Longrightarrow> f y = f (xs ! i) \<Longrightarrow> f ` set (xs[i := y]) = f ` set xs"
  by (metis list.set_map list_update_id map_update)

lemma apart_locksD:
  "apart_locks ss \<Longrightarrow> i < length ss \<Longrightarrow> j < length ss \<Longrightarrow> i \<noteq> j \<Longrightarrow> holds (ss ! i) \<inter> holds (ss ! j) = {}"
  by (simp add: apart_locks_def)

lemma apart_locks_update:
  assumes ok: "apart_locks ss"
    and new: "\<And>j. j < length ss \<Longrightarrow> j \<noteq> i \<Longrightarrow> holds s' \<inter> holds (ss ! j) = {}"
  shows "apart_locks (ss[i := s'])"
  unfolding apart_locks_def
proof (intro allI impI)
  fix a b assume "a < length (ss[i := s'])" "b < length (ss[i := s'])" "a \<noteq> b"
  then show "holds (ss[i := s'] ! a) \<inter> holds (ss[i := s'] ! b) = {}"
    using apart_locksD [OF ok, of a b] new [of a] new [of b]
    by (cases "a = i"; cases "b = i") (simp_all add: Int_commute)
qed

lemma update_nth_all:
  "(\<And>j. j < length xs \<Longrightarrow> j \<noteq> i \<Longrightarrow> P j (xs ! j)) \<Longrightarrow> P i y \<Longrightarrow> \<forall>j < length (xs[i := y]). P j (xs[i := y] ! j)"
  by (metis length_list_update nth_list_update_eq nth_list_update_neq)

lemma reported_onceD:
  "reported_once ss \<Longrightarrow> i < length ss \<Longrightarrow> j < length ss \<Longrightarrow> i \<noteq> j \<Longrightarrow> reported (ss ! i) = Some t \<Longrightarrow>
     reported (ss ! j) = Some t' \<Longrightarrow> T_IdempotencyKey t \<noteq> T_IdempotencyKey t'"
  by (simp add: reported_once_def)

lemma reported_once_update:
  assumes ok: "reported_once ss"
    and new: "\<And>j t t'. j < length ss \<Longrightarrow> j \<noteq> i \<Longrightarrow> reported s' = Some t \<Longrightarrow> reported (ss ! j) = Some t' \<Longrightarrow>
      T_IdempotencyKey t \<noteq> T_IdempotencyKey t'"
  shows "reported_once (ss[i := s'])"
  unfolding reported_once_def
proof (intro allI impI)
  fix a b t t'
  assume "a < length (ss[i := s'])" "b < length (ss[i := s'])" "a \<noteq> b"
    and r: "reported (ss[i := s'] ! a) = Some t" "reported (ss[i := s'] ! b) = Some t'"
  then have l: "a < length ss" "b < length ss" "a \<noteq> b" by simp_all
  show "T_IdempotencyKey t \<noteq> T_IdempotencyKey t'"
  proof (cases "a = i \<or> b = i")
    case False
    then show ?thesis using reported_onceD [OF ok l] r by simp
  next
    case True
    then show ?thesis using new [of b t t'] new [of a t' t] r l by (cases "a = i") auto
  qed
qed

text \<open>A step keeps the invariants; it extends the history by what it commits.\<close>

definition step_kept ::
  "(nat \<Rightarrow> environ) \<Rightarrow> (int \<Rightarrow> int) \<Rightarrow> db \<Rightarrow> (transfer_request \<times> transfer) list \<Rightarrow> db \<Rightarrow> session list \<Rightarrow> db \<Rightarrow> bool" where
  "step_kept E seed d0 h d ss' d' \<longleftrightarrow>
     sessions_ok E ss' d' \<and> ledger_ok seed d' \<and> total_balance d' = total_balance d \<and>
     (\<exists>h'. history_ok ss' d0 d' h')"

lemma arrive_kept:
  assumes ok: "sessions_ok E ss d" and led: "ledger_ok seed d" and h: "history_ok ss d0 d h"
  shows "step_kept E seed d0 h d (ss @ [new_session st req c]) d"
proof -
  let ?s = "new_session st req c"
  have "session_mode orc d ?s Idle" for orc by (simp add: session_mode_def new_session_def)
  moreover have s: "safe (posts_alone (s_req ?s)) reports (s_prog ?s) Idle"
    using safe_execute_by by (simp add: new_session_def)
  moreover have rep: "reported ?s = None" using safe_reported [OF s] by simp
  ultimately have "session_ok orc d ?s" for orc unfolding session_ok_def by auto
  moreover have "holds ?s = {}" by (simp add: new_session_def holds_def)
  ultimately have "sessions_ok E (ss @ [?s]) d"
    using ok rep by (auto simp: sessions_ok_def apart_locks_def reported_once_def nth_append less_Suc_eq)
  moreover have "history_ok (ss @ [?s]) d0 d h" using h rep by (auto simp: history_ok_def)
  ultimately show ?thesis using led by (auto simp: step_kept_def)
qed

text \<open>A session changes, with no new locks held by others and no new report, the tables as they are.\<close>

lemma change_kept:
  assumes ok: "sessions_ok E ss d" and led: "ledger_ok seed d" and h: "history_ok ss d0 d h" and i: "i < length ss"
    and s': "session_ok (E i) d s'" "s_req s' = s_req (ss ! i)"
    and held: "holds s' \<subseteq> holds (ss ! i) \<union> set R" "unlocked ss i R"
    and rep: "reported s' = None \<or> reported s' = reported (ss ! i)"
  shows "step_kept E seed d0 h d (ss[i := s']) d"
proof -
  have "holds s' \<inter> holds (ss ! j) = {}" if "j < length ss" "j \<noteq> i" for j
  proof -
    have "holds (ss ! i) \<inter> holds (ss ! j) = {}"
      using ok i that by (simp add: sessions_ok_def apart_locks_def)
    moreover have "set R \<inter> holds (ss ! j) = {}" using held(2) that by (simp add: unlocked_def)
    ultimately show ?thesis using held(1) by blast
  qed
  then have "apart_locks (ss[i := s'])"
    using ok by (intro apart_locks_update) (simp_all add: sessions_ok_def)
  moreover have "reported_once (ss[i := s'])"
  proof (rule reported_once_update)
    show once: "reported_once ss" using ok by (simp add: sessions_ok_def)
    show "T_IdempotencyKey t \<noteq> T_IdempotencyKey t'"
      if "j < length ss" "j \<noteq> i" "reported s' = Some t" "reported (ss ! j) = Some t'" for j t t'
      using reported_onceD [OF once i that(1) not_sym [OF that(2)] _ that(4)] rep that(3) by simp
  qed
  ultimately have "sessions_ok E (ss[i := s']) d"
    using ok update_nth_all [of ss i "\<lambda>j. session_ok (E j) d" s'] s'(1) unfolding sessions_ok_def by blast
  moreover have "history_ok (ss[i := s']) d0 d h"
  proof -
    have "(s_req s, t) \<in> set h" if "s \<in> set (ss[i := s'])" "reported s = Some t" for s t
    proof (cases "s = s'")
      case True
      then have "reported (ss ! i) = Some t" using that rep by simp
      then show ?thesis using h nth_mem [OF i] s'(2) True by (auto simp: history_ok_def)
    next
      case False
      then have "s \<in> set ss" using that(1) set_update_subset_insert [of ss i s'] by blast
      then show ?thesis using h that(2) by (simp add: history_ok_def)
    qed
    then show ?thesis
      using h map_update_same [OF i, of s_req s'] s'(2) by (simp add: history_ok_def)
  qed
  ultimately show ?thesis using led by (auto simp: step_kept_def)
qed

lemma commit_kept:
  assumes ok: "sessions_ok E ss d" and led: "ledger_ok seed d" and h: "history_ok ss d0 d h" and i: "i < length ss"
    and s': "session_ok (E i) d' s'" "s_req s' = s_req (ss ! i)" and post: "posting_call d (ss ! i) s' d'"
    and part: "s_part s' = []"
  shows "step_kept E seed d0 h d (ss[i := s']) d'"
proof -
  obtain t where t: "posted_once (s_req (ss ! i)) d t d'" and rep: "reported s' = None \<or> reported s' = Some t"
    and log: "s_log s' = []" and ap: "\<And>H. held (s_log (ss ! i)) \<inter> H = {} \<Longrightarrow> apart H d d'"
    using post by (auto simp: posting_call_def)
  note led' = posted_ledger [OF t led]
  have books: "on_books req t' d'" if "on_books req t' d" for req t'
    using on_books_mono [OF that] led' by blast
  have locks: "held (s_log (ss ! j)) \<inter> held (s_log (ss ! k)) = {}" if "j < length ss" "k < length ss" "j \<noteq> k" for j k
    using ok that by (auto simp: sessions_ok_def apart_locks_def holds_def)
  have "session_ok (E j) d' (ss ! j)" if "j < length ss" "j \<noteq> i" for j
    by (rule others_stable [OF ok led _ that(1) ap]) (use led' locks [OF i that(1)] that in auto)
  moreover have "apart_locks (ss[i := s'])"
    using ok log part by (intro apart_locks_update) (simp_all add: sessions_ok_def holds_def)
  moreover have "reported_once (ss[i := s'])"
  proof -
    have old: "on_books (s_req (ss ! j)) t' d" if "j < length ss" "reported (ss ! j) = Some t'" for j t'
      using ok that by (auto simp: sessions_ok_def session_ok_def)
    have new: "T_IdempotencyKey t \<noteq> T_IdempotencyKey t'" if "j < length ss" "reported (ss ! j) = Some t'" for j t'
      by (rule posted_fresh_key [OF t old [OF that]])
    show ?thesis
      using ok rep new by (intro reported_once_update) (auto simp: sessions_ok_def)
  qed
  ultimately have "sessions_ok E (ss[i := s']) d'"
    using update_nth_all [of ss i "\<lambda>j. session_ok (E j) d'" s'] s'(1) unfolding sessions_ok_def by blast
  moreover have "history_ok (ss[i := s']) d0 d' (h @ [(s_req (ss ! i), t)])"
  proof -
    have "T_IdempotencyKey (snd x) \<noteq> T_IdempotencyKey t" if "x \<in> set h" for x
      using posted_fresh_key [OF t, of "fst x" "snd x"] h that by (auto simp: history_ok_def)
    then have "T_IdempotencyKey t \<notin> (T_IdempotencyKey \<circ> snd) ` set h" by (metis comp_apply imageE)
    then have "distinct (map (T_IdempotencyKey \<circ> snd) (h @ [(s_req (ss ! i), t)]))"
      using h by (simp add: history_ok_def)
    moreover have "(s_req s, t') \<in> set (h @ [(s_req (ss ! i), t)])" if "s \<in> set (ss[i := s'])" "reported s = Some t'" for s t'
    proof (cases "s = s'")
      case True
      then show ?thesis using that(2) rep s'(2) by auto
    next
      case False
      then have "s \<in> set ss" using that(1) set_update_subset_insert [of ss i s'] by blast
      then show ?thesis using h that(2) by (simp add: history_ok_def)
    qed
    moreover have "s_req ` set (ss[i := s']) = s_req ` set ss"
      by (rule map_update_same [OF i]) (rule s'(2))
    moreover have "serially d0 (h @ [(s_req (ss ! i), t)]) d'"
      using h t serially.posting by (auto simp: history_ok_def)
    ultimately show ?thesis
      using h books posted_on_books [OF t] i by (simp add: history_ok_def)
  qed
  ultimately show ?thesis using led' by (auto simp: step_kept_def)
qed

lemma pooled_kept:
  assumes ok: "sessions_ok E ss d" and led: "ledger_ok seed d" and h: "history_ok ss d0 d h"
    and s: "pool_stmt s" "new_id lim s v" "exec_stmt v s d = Inr (n, rows, d')" and seed: "\<forall>i \<ge> lim. seed i = 0"
    and free: "unlocked ss (length ss) (locks v s n rows)"
  shows "step_kept E seed d0 h d ss d'"
proof -
  note led' = pool_stmt_ledger [OF s led seed]
  have pk: "pk_ok d" using ledger_rows_ok [OF led] by auto
  have "session_ok (E j) d' (ss ! j)" if "j < length ss" for j
  proof (rule others_stable [OF ok led _ that])
    have "set (locks v s n rows) \<inter> held (s_log (ss ! j)) = {}" using free that by (auto simp: unlocked_def holds_def)
    with stmt_frame [OF s(3) pk] s(1) show "apart (held (s_log (ss ! j))) d d'" by blast
  qed (use led' in auto)
  then have "sessions_ok E ss d'" using ok by (simp add: sessions_ok_def)
  moreover have "history_ok ss d0 d' h"
    using h serially.between [OF _ s(1,3)] led' by (auto simp: history_ok_def on_books_def)
  ultimately show ?thesis using led' by (auto simp: step_kept_def)
qed

lemma dies_kept:
  assumes ok: "sessions_ok E ss d" and led: "ledger_ok seed d" and h: "history_ok ss d0 d h" and i: "i < length ss"
  shows "step_kept E seed d0 h d (ss[i := abandon e (ss ! i)]) d"
proof (rule change_kept [OF ok led h i, where R = "[]"])
  have "reported (abandon e (ss ! i)) = None" by (simp add: reported_def abandon_def)
  moreover have "session_mode (E i) d (abandon e (ss ! i)) Idle" by (simp add: session_mode_def abandon_def)
  moreover have "safe G reports (s_prog (abandon e (ss ! i))) Idle" for G by (simp add: abandon_def)
  ultimately show "session_ok (E i) d (abandon e (ss ! i))"
    "reported (abandon e (ss ! i)) = None \<or> reported (abandon e (ss ! i)) = reported (ss ! i)"
    unfolding session_ok_def by auto
qed (simp_all add: abandon_def unlocked_def holds_def)

lemma session_ok_part: "session_ok orc d s \<Longrightarrow> session_ok orc d (s\<lparr>s_part := R\<rparr>)"
proof -
  have "tracked orc d (s\<lparr>s_part := R\<rparr>) t = tracked orc d s t" for t by (simp add: tracked_def)
  then have "session_mode orc d (s\<lparr>s_part := R\<rparr>) m = session_mode orc d s m" for m
    by (cases "txn (s_world s)") (simp_all add: session_mode_def)
  moreover have "reported (s\<lparr>s_part := R\<rparr>) = reported s" by (simp add: reported_def)
  ultimately show "session_ok orc d s \<Longrightarrow> session_ok orc d (s\<lparr>s_part := R\<rparr>)" by (simp add: session_ok_def)
qed

lemma proceeds_kept:
  assumes st: "proceeds E (ss, d) (ss', d')" and ok: "sessions_ok E ss d" and led: "ledger_ok seed d"
    and h: "history_ok ss d0 d h"
  shows "step_kept E seed d0 h d ss' d'"
  using st
proof cases
  case (1 i s')
  note calls = 1
  let ?R = "next_locks (E i) d (ss ! i)"
  have "session_ok (E i) d (ss ! i)" using ok calls by (simp add: sessions_ok_def)
  from session_call [OF this led] calls have good: "good_call (E i) (set ?R) d (ss ! i) s' d'"
    by (simp add: next_locks_def)
  have free: "unlocked ss i ?R" using calls by (simp add: may_call_def)
  have part: "s_part s' = []" using calls by (auto simp: advance_def split: prod.splits)
  from good consider "quiet_call (set ?R) d (ss ! i) s' d'" | "posting_call d (ss ! i) s' d'"
    by (auto simp: good_call_def)
  then show ?thesis
  proof cases
    case 1
    then have "holds s' \<subseteq> holds (ss ! i) \<union> set ?R" using part by (auto simp: quiet_call_def holds_def)
    with 1 show ?thesis
      using change_kept [OF ok led h calls(2) _ _ _ free, of s'] good calls(1)
      by (simp add: good_call_def quiet_call_def)
  next
    case 2
    then show ?thesis
      using commit_kept [OF ok led h calls(2) _ _ _ part] good calls(1) by (simp add: good_call_def)
  qed
qed

lemma cstep_kept:
  assumes st: "cstep E lim adm (ss, d) (ss', d')" and ok: "sessions_ok E ss d" and led: "ledger_ok seed d"
    and h: "history_ok ss d0 d h" and seed: "\<forall>i \<ge> lim. seed i = 0"
  shows "step_kept E seed d0 h d ss' d'"
  using st
proof cases
  case (arrives st req c)
  then show ?thesis using arrive_kept [OF ok led h] by simp
next
  case calls
  then show ?thesis using proceeds_kept [OF _ ok led h] by simp
next
  case (locks_row i r R)
  let ?s = "(ss ! i)\<lparr>s_part := s_part (ss ! i) @ [r]\<rparr>"
  have "session_ok (E i) d (ss ! i)" using ok locks_row by (simp add: sessions_ok_def)
  then have "session_ok (E i) d ?s" by (rule session_ok_part)
  moreover have "reported ?s = reported (ss ! i)" by (simp add: reported_def)
  ultimately show ?thesis
    using change_kept [OF ok led h locks_row(3), of ?s "[r]"] locks_row by (simp add: holds_def)
next
  case (dies i e)
  then show ?thesis using dies_kept [OF ok led h] by simp
next
  case (pooled s v n rows)
  then show ?thesis using pooled_kept [OF ok led h _ _ _ seed] by simp
qed

lemma csteps_keep:
  assumes st: "(cstep E lim adm)\<^sup>*\<^sup>* ([], d0) (ss, d)" and led: "ledger_ok seed d0" and seed: "\<forall>i \<ge> lim. seed i = 0"
  shows "sessions_ok E ss d \<and> ledger_ok seed d \<and> total_balance d = total_balance d0 \<and>
    (\<exists>h. history_ok ss d0 d h)"
  using st
proof (induction "(ss, d)" arbitrary: ss d rule: rtranclp_induct)
  case base
  have "history_ok [] d0 d0 []" by (simp add: history_ok_def serially.start)
  then show ?case using led by (auto simp: sessions_ok_def apart_locks_def reported_once_def)
next
  case (step y)
  obtain ss1 d1 where y: "y = (ss1, d1)" by (cases y)
  with step.hyps(3) obtain h where "sessions_ok E ss1 d1" "ledger_ok seed d1" "total_balance d1 = total_balance d0"
    "history_ok ss1 d0 d1 h" by blast
  with cstep_kept [OF step.hyps(2) [unfolded y], of seed d0 h] seed show ?case
    by (auto simp: step_kept_def)
qed

end
