(* ===== verification/Bounds.thy ===== *)
theory Bounds
  imports System
begin

text \<open>
  How many calls (statements, clock readings, UUIDs, HTTP requests, pauses) a request or a poll can
  make at most, whatever the replies are: handlers and polls end, and retries are bounded.
\<close>

section \<open>Programs with a bounded number of calls\<close>

primrec within :: "'a prog \<Rightarrow> nat \<Rightarrow> bool" where
  "within (Ret a) n = True"
| "within (BeginTx k) n = (case n of 0 \<Rightarrow> False | Suc m \<Rightarrow> \<forall>r. within (k r) m)"
| "within (CommitTx k) n = (case n of 0 \<Rightarrow> False | Suc m \<Rightarrow> \<forall>r. within (k r) m)"
| "within (RollbackTx p) n = (case n of 0 \<Rightarrow> False | Suc m \<Rightarrow> within p m)"
| "within (Exec c s k) n = (case n of 0 \<Rightarrow> False | Suc m \<Rightarrow> \<forall>r. within (k r) m)"
| "within (Query c s k) n = (case n of 0 \<Rightarrow> False | Suc m \<Rightarrow> \<forall>r. within (k r) m)"
| "within (NewUUID k) n = (case n of 0 \<Rightarrow> False | Suc m \<Rightarrow> \<forall>r. within (k r) m)"
| "within (TimeNow k) n = (case n of 0 \<Rightarrow> False | Suc m \<Rightarrow> \<forall>r. within (k r) m)"
| "within (NewRequest u k) n = (case n of 0 \<Rightarrow> False | Suc m \<Rightarrow> \<forall>r. within (k r) m)"
| "within (DoRequest q k) n = (case n of 0 \<Rightarrow> False | Suc m \<Rightarrow> \<forall>r. within (k r) m)"
| "within (Sleep d p) n = (case n of 0 \<Rightarrow> False | Suc m \<Rightarrow> within p m)"

lemma within_add: "within p n \<Longrightarrow> within p (n + d)"
  by (induction p arbitrary: n) (auto split: nat.splits)

lemma within_mono: "within p n \<Longrightarrow> n \<le> m \<Longrightarrow> within p m"
  using within_add [of p n "m - n"] by simp

lemma within_bindp:
  assumes "within p n" and f: "\<And>a. within (f a) m" and "n + m \<le> k"
  shows "within (bindp p f) k"
proof -
  have "within (bindp p f) (n + m)"
    using assms(1)
  proof (induction p arbitrary: n)
    case (Ret a)
    show ?case using within_mono [OF f, of "n + m"] by simp
  qed (auto split: nat.splits)
  then show ?thesis using assms(3) by (rule within_mono)
qed

lemma within_tryp:
  assumes "within p n" and "\<And>a. within (f a) m" and "n + m \<le> k"
  shows "within (tryp p f) k"
  unfolding tryp_def by (rule within_bindp [OF assms(1) _ assms(3)]) (use assms(2) in \<open>auto split: sum.split\<close>)

lemma within_one: "within (exec c s) (Suc n)" "within (query c s) (Suc n)" "within uuid_New (Suc n)"
  "within time_Now (Suc n)"
  by (simp_all add: exec_def query_def uuid_New_def time_Now_def)

lemma within_case_sum:
  "(\<And>x. within (f x) n) \<Longrightarrow> (\<And>y. within (g y) n) \<Longrightarrow> within (case s of Inl x \<Rightarrow> f x | Inr y \<Rightarrow> g y) n"
  by (cases s) auto

lemma call_calls: "call orc c s w = (r, w') \<Longrightarrow> calls w' = Suc (calls w)"
  by (auto simp: call_def call_tx_def call_pool_def
      split: conn.splits option.splits if_splits sum.splits prod.splits)

lemma run_within:
  "run orc p w = (a, w') \<Longrightarrow> within p n \<Longrightarrow> calls w' \<le> calls w + n"
proof (induction p arbitrary: n w)
  case (BeginTx k)
  obtain r w1 where r: "begin_tx orc w = (r, w1)" by fastforce
  then have "calls w1 = Suc (calls w)" by (auto simp: begin_tx_def split: option.splits)
  with BeginTx r show ?case by (fastforce split: nat.splits)
next
  case (CommitTx k)
  obtain r w1 where r: "commit_tx orc w = (r, w1)" by fastforce
  then have "calls w1 = Suc (calls w)" by (auto simp: commit_tx_def split: option.splits if_splits)
  with CommitTx r show ?case by (fastforce split: nat.splits)
next
  case (Exec c s k)
  obtain r w1 where r: "call orc c s w = (r, w1)" by fastforce
  with Exec call_calls [OF r] show ?case by (fastforce split: nat.splits)
next
  case (Query c s k)
  obtain r w1 where r: "call orc c s w = (r, w1)" by fastforce
  with Query call_calls [OF r] show ?case by (fastforce split: nat.splits)
qed (fastforce simp: rollback_tx_def split: nat.splits)+

section \<open>The parts of a transfer\<close>

lemmas unfold_calls = tryp_def exec_def query_def uuid_New_def time_Now_def numeral_eq_Suc

lemma within_claim_key: "within (claim_key_for req) 4"
  by (simp add: claim_key_for_def ClaimInTx_def claim_existing_def unfold_calls
      split: sum.split option.split)

lemma within_complete_key: "within (complete_key_for req t) 1"
  by (simp add: complete_key_for_def Complete_def unfold_calls split: sum.split)

lemma within_insert: "within (insertTransferAndPostings req) 6"
proof -
  have "within (write_postings_and_event req t) 3" for t
    by (simp add: write_postings_and_event_def GetWebhookURLInTx_def InsertOutboxEventInTx_def unfold_calls
        split: sum.split)
  then have "within (write_postings_and_event req t) n" if "3 \<le> n" for t n using within_mono that by blast
  then show ?thesis
    by (simp add: insertTransferAndPostings_def unfold_calls split: sum.split)
qed

lemma within_debits:
  "within (debitConditionalUpdate i a) 2" "within (debitSelectForUpdate i a) 2"
  by (simp_all add: debitConditionalUpdate_def debitSelectForUpdate_def unfold_calls split: sum.split)

lemma within_execTx:
  assumes "\<And>i a. within (debit i a) 2"
  shows "within (execTxWithDebit req debit) 10"
proof -
  have "within (tryp (exec InTx s) (\<lambda>n. if n = 0 then fail_with ErrAccountNotFound
      else insertTransferAndPostings req)) 7" for s
    using within_insert [of req] by (simp add: unfold_calls split: sum.split)
  then have "within (tryp (debit (FromAccount req) (Amount req)) (\<lambda>_. tryp (exec InTx s) (\<lambda>n.
      if n = 0 then fail_with ErrAccountNotFound else insertTransferAndPostings req))) 9" for s
    by (intro within_tryp [OF assms, where m = 7]) simp_all
  then show ?thesis
    unfolding execTxWithDebit_def
    by (intro within_bindp [where n = 1 and m = 9]) (auto simp: unfold_calls split: sum.split)
qed

section \<open>Attempts and retries\<close>

lemma within_Execute: "within (Execute req) (maxDeadlockRetries * 18)"
proof -
  have commit: "within (CommitTx (\<lambda>c. case c of Some e \<Rightarrow> fail_with e | None \<Rightarrow> return x)) 1" for x :: 'b
    by (auto simp: numeral_eq_Suc split: option.split)
  have "within (executeOnce_body req) 16"
    unfolding executeOnce_body_def execTx_def
    by (rule within_tryp [OF within_claim_key, where m = 12])
      (auto intro!: within_tryp [OF within_execTx [OF within_debits(1)], where m = 2]
        within_tryp [OF within_complete_key, where m = 1] commit)
  then have "within (bindp (executeOnce_body req) (\<lambda>r. RollbackTx (Ret r))) 17"
    by (rule within_bindp [where m = 1]) auto
  then have once: "within (executeOnce req) 18"
    by (auto simp: executeOnce_def numeral_eq_Suc split: option.split)
  have "within (execute_loop n req) (n * 18)" for n
  proof (induction n)
    case (Suc n)
    then show ?case
      unfolding execute_loop.simps
      by (intro within_bindp [OF once, where m = "n * 18"]) (auto split: sum.split)
  qed simp
  then show ?thesis by (auto simp: Execute_def)
qed

lemma within_ForUpdate: "within (ExecuteWithForUpdate req) (maxRetries * 19)"
proof -
  have "within (forUpdate_loop n req) (n * 19)" for n
  proof (induction n)
    case (Suc n)
    let ?L = "forUpdate_loop n req"
    have retry: "within (RollbackTx (retry_or e ?L)) (n * 19 + 1)" for e
      using Suc by (simp add: retry_or_def)
    have commit: "within (CommitTx (\<lambda>c. case c of Some e \<Rightarrow> RollbackTx (retry_or e ?L) | None \<Rightarrow> return x)) (n * 19 + 2)" for x
      using retry by (auto split: option.split)
    have complete: "within (bindp (complete_key_for req t) (\<lambda>r. case r of
        Inl e \<Rightarrow> RollbackTx (fail_with e)
      | Inr _ \<Rightarrow> CommitTx (\<lambda>c. case c of Some e \<Rightarrow> RollbackTx (retry_or e ?L) | None \<Rightarrow> return x))) (n * 19 + 3)" for t x
      by (rule within_bindp [OF within_complete_key, where m = "n * 19 + 2"])
        (use commit in \<open>auto split: sum.split\<close>)
    have exec: "within (bindp (execTxWithDebit req debitSelectForUpdate) (\<lambda>r. case r of
        Inl e \<Rightarrow> RollbackTx (retry_or e ?L)
      | Inr t \<Rightarrow> bindp (complete_key_for req t) (\<lambda>r. case r of
          Inl e \<Rightarrow> RollbackTx (fail_with e)
        | Inr _ \<Rightarrow> CommitTx (\<lambda>c. case c of
            Some e \<Rightarrow> RollbackTx (retry_or e ?L) | None \<Rightarrow> return (t, None))))) (n * 19 + 13)"
      by (rule within_bindp [OF within_execTx [OF within_debits(2)], where m = "n * 19 + 3"])
        (use complete within_mono [OF retry] in \<open>auto split: sum.split\<close>)
    have lock: "within (bindp (exec InTx s) (\<lambda>r. case r of
        Inl e \<Rightarrow> RollbackTx (retry_or e ?L)
      | Inr _ \<Rightarrow> bindp (execTxWithDebit req debitSelectForUpdate) (\<lambda>r. case r of
          Inl e \<Rightarrow> RollbackTx (retry_or e ?L)
        | Inr t \<Rightarrow> bindp (complete_key_for req t) (\<lambda>r. case r of
            Inl e \<Rightarrow> RollbackTx (fail_with e)
          | Inr _ \<Rightarrow> CommitTx (\<lambda>c. case c of
              Some e \<Rightarrow> RollbackTx (retry_or e ?L) | None \<Rightarrow> return (t, None)))))) (n * 19 + 14)" for s
      by (rule within_bindp [OF within_one(1) [of _ _ 0], where m = "n * 19 + 13"])
        (use exec within_mono [OF retry] in \<open>auto split: sum.split\<close>)
    have done_once: "within (RollbackTx (return x)) (n * 19 + 14)"
      for x :: "transfer \<times> stored_response option" by (simp split: nat.split)
    have "within (forUpdate_loop (Suc n) req) (Suc (n * 19 + 18))"
      unfolding forUpdate_loop.simps
      by (simp, intro allI, simp split: option.split, intro allI impI,
          rule within_bindp [OF within_claim_key, where m = "n * 19 + 14"])
        (use lock done_once within_mono [OF retry] in \<open>auto split: sum.split prod.split\<close>)
    then show ?case by simp
  qed simp
  then show ?thesis by (simp add: ExecuteWithForUpdate_def)
qed

section \<open>Polls\<close>

lemma within_mark_loop: "within (mark_loop n i) (2 * n - 1)"
proof (induction n)
  case (Suc n)
  have "within (Sleep 1000000 (mark_loop n i)) (2 * n)" if "0 < n"
    using Suc that by (cases "2 * n") auto
  then show ?case by (auto simp: MarkDelivered_def tryp_def exec_def split: sum.split)
qed simp

lemma within_deliver: "within (deliver e) 7"
proof -
  have "within (mark_answer e a) 5" for a
    using within_mark_loop [of 3 "E_ID e"]
    by (auto simp: mark_answer_def markDeliveredWithRetry_def MarkFailed_def MarkDeadLetter_def unfold_calls
        split: sum.split)
  then show ?thesis
    by (simp add: deliver_def Let_def MarkDelivered_def MarkDeadLetter_def unfold_calls
        split: sum.split option.split)
qed

lemma within_deliver_all: "within (deliver_all es) (7 * length es)"
proof (induction es)
  case (Cons e es)
  then show ?case by (simp add: within_bindp [OF within_deliver])
qed simp

lemma batch_bound:
  assumes "distinct (map ob_id (outbox d))"
  shows "length (batch v d) \<le> nat batchSize"
proof -
  let ?ids = "claimable v (nat batchSize) (outbox d)"
  have "distinct (map ob_id (batch v d))" using assms by (simp add: batch_def distinct_map_filter)
  from distinct_card [OF this] have "length (batch v d) = card (set (map ob_id (batch v d)))" by simp
  also have "\<dots> \<le> card (set ?ids)" by (rule card_mono) (auto simp: batch_def)
  also have "\<dots> \<le> length ?ids" by (rule card_length)
  also have "\<dots> \<le> nat batchSize" by (simp add: claimable_def)
  finally show ?thesis .
qed

lemma poll_calls:
  assumes run: "run orc poll w = (r, w')" and pk: "pk_ok (tables w)"
  shows "calls w' \<le> calls w + (1 + 7 * nat batchSize)"
proof -
  define v where "v = pool_env orc (ClaimEvents batchSize staleInFlightThreshold) w"
  obtain c w1 where c: "run orc (ClaimPendingEvents batchSize) w = (c, w1)" by fastforce
  note claim = ClaimPendingEvents_effect [OF c v_def]
  have one: "calls w1 = Suc (calls w)" using claim by (simp add: pool_frame_def)
  show ?thesis
  proof (cases c)
    case (Inl e)
    with run c one show ?thesis by (simp add: poll_def run_bindp)
  next
    case (Inr es)
    have "distinct (map ob_id (outbox (tables w)))" using pk by (simp add: pk_ok_def)
    then have n: "length es \<le> nat batchSize"
      using claim Inr batch_bound [of "tables w" v] by (auto split: if_splits)
    obtain w2 where d: "run orc (deliver_all es) w1 = ((), w2)"
      by (cases "run orc (deliver_all es) w1") simp
    have "w' = w2" using run c Inr d by (simp add: poll_def run_bindp)
    with run_within [OF d within_deliver_all] one n show ?thesis by simp
  qed
qed

section \<open>Requests\<close>

lemma within_serve: "within (serve cfg W rq) 95"
proof (cases rq)
  case (Post_transfers key b)
  have "within (bindp (ExecuteWithForUpdate req) (\<lambda>r. Ret (respond W r))) 95"
    "within (bindp (Execute req) (\<lambda>r. Ret (respond W r))) 95" for req
    by (rule within_bindp [OF within_ForUpdate, where m = 0], simp_all add: maxRetries_def)
      (rule within_bindp [OF within_Execute, where m = 0], simp_all add: maxDeadlockRetries_def)
  then show ?thesis using Post_transfers by (auto simp: post_transfers_def split: sum.split)
next
  case (Post_accounts b)
  have "within (create_account n c u) 1" for n c u
    by (simp add: create_account_def CreateAccount_def unfold_calls)
  then have "within (create_account n c u) 95" for n c u by (rule within_mono) simp
  then show ?thesis
    using Post_accounts by (auto simp: post_accounts_def Let_def split: option.split)
qed (auto simp: get_health_def get_account_def get_history_def get_metrics_def GetAccount_def GetPostings_def
    GetOutboxMetrics_def unfold_calls split: option.split sum.split)

section \<open>Properties\<close>

text \<open>
  C20. Every request and every poll ends: whatever the replies, a request makes at most 95 calls
  (five attempts of at most nineteen calls each), and a poll at most 351 (the claim, and seven for
  each of at most fifty events).
\<close>

theorem calls_bounded:
  assumes "pk_ok (tables w)"
  shows "calls (snd (run orc (serve cfg W rq) w)) \<le> calls w + 95 \<and>
    calls (snd (run orc poll w)) \<le> calls w + 351"
proof -
  obtain resp w1 where 1: "run orc (serve cfg W rq) w = (resp, w1)" by fastforce
  obtain e w2 where 2: "run orc poll w = (e, w2)" by fastforce
  show ?thesis
    using run_within [OF 1 within_serve] poll_calls [OF 2 assms] 1 2 by (simp add: batchSize_def)
qed

text \<open>A database that answers every statement with a serialization failure is given up on.\<close>

definition always_conflict :: environ where
  "always_conflict = calm\<lparr>o_fault := (\<lambda>_. Some (PgFault ''40001''))\<rparr>"

theorem calls_bounded_witness:
  "calls (snd (run always_conflict (serve demo_config demo_web (Post_transfers ''k1'' demo_body)) sample_world)) \<le> 95"
proof -
  have "pk_ok (tables sample_world)"
    using sample_ledger_ok by (simp add: sample_world_def ledger_ok_def books_ok_def constraints_pk)
  from calls_bounded [OF this, of always_conflict demo_config demo_web "Post_transfers ''k1'' demo_body"]
  show ?thesis by (simp add: sample_world_def)
qed

end
