(* ===== verification/Deadlock.thy ===== *)
theory Deadlock
  imports Serial Bounds "HOL-Library.Product_Lexorder"
begin

text \<open>
  \<open>ExecuteWithForUpdate\<close> locks in one order: the key, the two accounts by id, then the rows it
  inserts. A session that waits therefore waits for a row beyond all those it holds, and sessions
  cannot wait in a circle. Since a program makes a bounded number of calls (theory Bounds), requests
  that overlap are all answered, in whatever order they proceed.
\<close>

section \<open>The order of the locks\<close>

fun rank :: "row_id \<Rightarrow> nat \<times> int" where
  "rank (KeyRow k) = (0, 0)"
| "rank (AccountRow i) = (1, i)"
| "rank (TransferRow t) = (2, 0)"
| "rank (TransferKey k) = (2, 0)"
| "rank (PostingRow i) = (3, 0)"
| "rank (EventRow u) = (4, 0)"

definition beyond :: "row_id set \<Rightarrow> row_id \<Rightarrow> bool" where
  "beyond H r \<longleftrightarrow> r \<in> H \<or> (\<forall>q \<in> H. rank q < rank r)"

definition pair_ids :: "int64 \<Rightarrow> int64 \<Rightarrow> int list" where
  "pair_ids lo hi = (if sint lo = sint hi then [sint lo] else [sint lo, sint hi])"

text \<open>The reply to the lock statement when both accounts exist.\<close>

definition pair_reply :: "stmt \<Rightarrow> sqlval list list \<Rightarrow> bool" where
  "pair_reply s rows \<longleftrightarrow> (case s of LockPair lo hi \<Rightarrow> rows = map (\<lambda>i. [VInt i]) (pair_ids lo hi) | _ \<Rightarrow> True)"

definition pair_in :: "int set \<Rightarrow> stmt \<Rightarrow> bool" where
  "pair_in A s \<longleftrightarrow>
     (case s of LockPair lo hi \<Rightarrow> sint lo \<in> A \<and> sint hi \<in> A \<and> sint lo \<le> sint hi | _ \<Rightarrow> True)"

text \<open>
  The program locks beyond what it holds; \<open>m\<close> is what it holds in a transaction in which statements
  can succeed, \<open>A\<close> the accounts that it may lock in pairs.
\<close>

primrec orderly ::
  "int set \<Rightarrow> (row_id set option \<Rightarrow> 'a \<Rightarrow> bool) \<Rightarrow> 'a prog \<Rightarrow> row_id set option \<Rightarrow> bool" where
  "orderly A Q (Ret a) m = Q m a"
| "orderly A Q (BeginTx k) m = ((\<forall>e. orderly A Q (k (Some e)) None) \<and> orderly A Q (k None) (Some {}))"
| "orderly A Q (CommitTx k) m = (\<forall>r. orderly A Q (k r) None)"
| "orderly A Q (RollbackTx p) m = orderly A Q p None"
| "orderly A Q (Exec c s k) m =
     ((\<forall>e. orderly A Q (k (Inl e)) None) \<and> pair_in A s \<and>
      (\<forall>H v n rows. m = Some H \<longrightarrow> pair_reply s rows \<longrightarrow>
         list_all (beyond H) (locks v s n rows) \<and>
         orderly A Q (k (Inr n)) (Some (H \<union> set (locks v s n rows)))))"
| "orderly A Q (Query c s k) m =
     ((\<forall>e. orderly A Q (k (Inl e)) None) \<and> pair_in A s \<and>
      (\<forall>H v n rows. m = Some H \<longrightarrow> pair_reply s rows \<longrightarrow>
         list_all (beyond H) (locks v s n rows) \<and>
         orderly A Q (k (Inr rows)) (Some (H \<union> set (locks v s n rows)))))"
| "orderly A Q (NewUUID k) m = (\<forall>u. orderly A Q (k u) m)"
| "orderly A Q (TimeNow k) m = (\<forall>t. orderly A Q (k t) m)"
| "orderly A Q (NewRequest u k) m = (\<forall>r. orderly A Q (k r) m)"
| "orderly A Q (DoRequest q k) m = (\<forall>r. orderly A Q (k r) m)"
| "orderly A Q (Sleep t p) m = orderly A Q p m"

lemma orderly_mono:
  "orderly A Q p m \<Longrightarrow> (\<And>m a. Q m a \<Longrightarrow> Q' m a) \<Longrightarrow> orderly A Q' p m"
  by (induction p arbitrary: m) auto

lemma orderly_bindp: "orderly A (\<lambda>m a. orderly A Q (f a) m) p m \<Longrightarrow> orderly A Q (bindp p f) m"
  by (induction p arbitrary: m) auto

lemma orderly_tryp:
  "orderly A (\<lambda>m r. case r of Inl e \<Rightarrow> Q m (Inl e) | Inr a \<Rightarrow> orderly A Q (f a) m) p m \<Longrightarrow>
     orderly A Q (tryp p f) m"
  unfolding tryp_def by (rule orderly_bindp, erule orderly_mono) (auto split: sum.splits)

section \<open>ExecuteWithForUpdate is orderly\<close>

lemmas order_prims = tryp_def exec_def query_def uuid_New_def time_Now_def beyond_def pair_reply_def pair_in_def

text \<open>Errors leave no trace: what follows an error locks nothing more.\<close>

definition lets_errors :: "(row_id set option \<Rightarrow> err + 'a \<Rightarrow> bool) \<Rightarrow> bool" where
  "lets_errors Q \<longleftrightarrow> (\<forall>m e. Q m (Inl e))"

lemma lets_errorsD [simp]: "lets_errors Q \<Longrightarrow> Q m (Inl e)"
  by (simp add: lets_errors_def)

lemma orderly_claim:
  assumes e: "lets_errors Q" and old: "\<And>m s. Q m (Inr (False, s))"
    and new: "Q (Some (key_rows req)) (Inr (True, None))"
  shows "orderly A Q (claim_key_for req) (Some {})"
  using e old new
  by (auto simp: claim_key_for_def ClaimInTx_def claim_existing_def key_rows_def order_prims
      split: sum.splits option.splits)

lemma orderly_complete:
  assumes e: "lets_errors Q" and ok: "\<And>H'. Q (Some H') (Inr ())" and H: "key_rows req \<subseteq> H"
  shows "orderly A Q (complete_key_for req t) (Some H)"
  using e ok H
  by (auto simp: complete_key_for_def Complete_def key_rows_def order_prims split: sum.splits)

text \<open>What is held when the rows are inserted.\<close>

definition transfer_rows :: "transfer_request \<Rightarrow> row_id set" where
  "transfer_rows req = key_rows req \<union> {AccountRow (sint (FromAccount req)), AccountRow (sint (ToAccount req))}"

lemma transfer_rows_rank: "q \<in> transfer_rows req \<Longrightarrow> fst (rank q) < 2"
  by (auto simp: transfer_rows_def key_rows_def split: if_splits)

lemma orderly_write:
  assumes e: "lets_errors Q" and ok: "\<And>H'. transfer_rows req \<subseteq> H' \<Longrightarrow> Q (Some H') (Inr t)"
    and H: "transfer_rows req \<subseteq> H" "\<And>q. q \<in> H \<Longrightarrow> fst (rank q) < 3"
  shows "orderly A Q (write_postings_and_event req t) (Some H)"
proof -
  have "rank q < (3, 0)" "rank q < (4, 0)" if "q \<in> H" for q
    using H(2) [OF that] by (auto simp: less_prod_def)
  then show ?thesis
    using e H(1)
    by (auto simp: write_postings_and_event_def GetWebhookURLInTx_def InsertOutboxEventInTx_def order_prims
        intro!: ok split: sum.splits)
qed

lemma orderly_insert:
  assumes e: "lets_errors Q" and ok: "\<And>H' t. transfer_rows req \<subseteq> H' \<Longrightarrow> Q (Some H') (Inr t)"
  shows "orderly A Q (insertTransferAndPostings req) (Some (transfer_rows req))"
proof -
  let ?H = "transfer_rows req"
  have w: "orderly A Q (write_postings_and_event req t) (Some (insert (TransferKey k) (insert (TransferRow u) ?H)))"
    "orderly A Q (write_postings_and_event req t) (Some (insert (TransferRow u) (insert (TransferKey k) ?H)))" for t k u
    by (rule orderly_write [OF e]; auto intro: ok dest: transfer_rows_rank)+
  have "rank q < (2, 0)" if "q \<in> ?H" for q
    using transfer_rows_rank [OF that] by (auto simp: less_prod_def)
  then show ?thesis
    using e w by (auto simp: insertTransferAndPostings_def order_prims split: sum.splits)
qed

lemma orderly_execTx:
  assumes e: "lets_errors Q" and ok: "\<And>H' t. transfer_rows req \<subseteq> H' \<Longrightarrow> Q (Some H') (Inr t)"
  shows "orderly A Q (execTxWithDebit req debitSelectForUpdate) (Some (transfer_rows req))"
proof -
  let ?H = "transfer_rows req"
  have in_H: "insert (AccountRow (sint (FromAccount req))) ?H = ?H" "insert (AccountRow (sint (ToAccount req))) ?H = ?H"
    by (auto simp: transfer_rows_def)
  have own: "AccountRow (sint (FromAccount req)) \<in> ?H" "AccountRow (sint (ToAccount req)) \<in> ?H"
    by (auto simp: transfer_rows_def)
  show ?thesis
    using e own orderly_insert [of Q req A, OF e ok]
    by (auto simp: execTxWithDebit_def debitSelectForUpdate_def order_prims in_H split: sum.splits)
qed

definition pair_accounts :: "transfer_request \<Rightarrow> int set" where
  "pair_accounts req = {sint (FromAccount req), sint (ToAccount req)}"

abbreviation "anything \<equiv> \<lambda>m a. True"

lemma orderly_forUpdate_loop: "orderly (pair_accounts req) anything (forUpdate_loop n req) None"
proof (induction n)
  case 0
  then show ?case by simp
next
  case (Suc n)
  let ?ord = "orderly (pair_accounts req) anything"
  let ?retry = "\<lambda>e. RollbackTx (retry_or e (forUpdate_loop n req))"
  let ?commit = "\<lambda>t. CommitTx (\<lambda>c. case c of Some e \<Rightarrow> ?retry e | None \<Rightarrow> return (t, None))"
  let ?complete = "\<lambda>t. bindp (complete_key_for req t) (\<lambda>r. case r of
      Inl e \<Rightarrow> RollbackTx (fail_with e) | Inr _ \<Rightarrow> ?commit t)"
  let ?body = "bindp (execTxWithDebit req debitSelectForUpdate) (\<lambda>r. case r of
      Inl e \<Rightarrow> ?retry e | Inr t \<Rightarrow> ?complete t)"
  let ?lock = "\<lambda>lo hi. bindp (exec InTx (LockPair lo hi)) (\<lambda>r. case r of Inl e \<Rightarrow> ?retry e | Inr _ \<Rightarrow> ?body)"
  have retry: "?ord (?retry e) m" for e m
    using Suc by (simp add: retry_or_def)
  have commit: "?ord (?commit t) m" for t m
    using Suc by (auto simp: retry_or_def split: option.splits)
  have complete: "?ord (?complete t) (Some H)" if "transfer_rows req \<subseteq> H" for t H
    by (rule orderly_bindp, rule orderly_complete)
      (use commit that in \<open>auto simp: lets_errors_def transfer_rows_def simp del: orderly.simps(3)\<close>)
  have body: "?ord ?body (Some (transfer_rows req))"
    by (rule orderly_bindp, rule orderly_execTx)
      (use retry complete in \<open>auto simp: lets_errors_def simp del: orderly.simps(4)\<close>)
  have rank: "rank q < (1, i)" if "q \<in> key_rows req" for q i
    using that by (auto simp: key_rows_def split: if_splits)
  have pair: "key_rows req \<union> set [AccountRow i. i \<leftarrow> pair_ids lo hi] = transfer_rows req"
    if "lock_order req = (lo, hi)" for lo hi
    using that by (auto simp: pair_ids_def lock_order_def transfer_rows_def split: if_splits)
  have rows: "[AccountRow i. [VInt i] \<leftarrow> map (\<lambda>i. [VInt i]) xs] = [AccountRow i. i \<leftarrow> xs]" for xs :: "int list"
    by (induction xs) auto
  have lock: "?ord (?lock lo hi) (Some (key_rows req))" if "lock_order req = (lo, hi)" for lo hi
    using body retry pair [OF that] that rank
    by (auto simp: exec_def pair_in_def pair_reply_def beyond_def list_all_iff pair_accounts_def lock_order_def
        rows UNION_singleton_eq_range split: if_splits simp del: orderly.simps(4))
  have replay: "?ord (RollbackTx (return (zero_transfer, s))) m" for s m by simp
  have "?ord (bindp (claim_key_for req) (\<lambda>r. case r of
      Inl e \<Rightarrow> ?retry e
    | Inr (won, stored) \<Rightarrow>
        if \<not> won then RollbackTx (return (zero_transfer, stored))
        else (case lock_order req of (lo, hi) \<Rightarrow> ?lock lo hi))) (Some {})"
    by (rule orderly_bindp, rule orderly_claim)
      (use retry replay lock in \<open>auto simp: lets_errors_def split: prod.splits simp del: orderly.simps(4-11)\<close>)
  then show ?case by (auto simp del: orderly.simps(3-11))
qed

section \<open>One session in line\<close>

text \<open>
  What it still does is orderly; \<open>m\<close> is what it holds, unless no statement of it can succeed. The rows
  it has locked one by one are the first of its pair.
\<close>

definition pair_rows :: "int64 \<Rightarrow> int64 \<Rightarrow> row_id list" where
  "pair_rows lo hi = [AccountRow i. i \<leftarrow> pair_ids lo hi]"

definition mid_pair :: "answer prog \<Rightarrow> row_id list \<Rightarrow> bool" where
  "mid_pair p part \<longleftrightarrow> (\<exists>lo hi k R. p = Exec InTx (LockPair lo hi) k \<and> pair_rows lo hi = part @ R)"

definition dead_tx :: "session \<Rightarrow> bool" where
  "dead_tx s \<longleftrightarrow> (\<forall>t. txn (s_world s) = Some t \<longrightarrow> aborted t)"

definition in_line :: "session \<Rightarrow> bool" where
  "in_line s \<longleftrightarrow>
     (\<exists>m. orderly (pair_accounts (s_req s)) anything (s_prog s) m \<and>
        (case m of None \<Rightarrow> dead_tx s | Some H \<Rightarrow> H = held (s_log s))) \<and>
     (s_part s \<noteq> [] \<longrightarrow> mid_pair (s_prog s) (s_part s)) \<and>
     list_all (\<lambda>(v, st, n, rows). tx_stmt st) (s_log s)"

definition pair_exists :: "db \<Rightarrow> session \<Rightarrow> bool" where
  "pair_exists d s \<longleftrightarrow> (\<forall>i \<in> pair_accounts (s_req s). has_account i d)"

lemma pair_rows_sorted: "sint lo \<le> sint hi \<Longrightarrow> sorted_wrt (\<lambda>q r. rank q < rank r) (pair_rows lo hi)"
  by (simp add: pair_rows_def pair_ids_def)

lemma lock_pair_reply:
  assumes u: "exec_stmt v (LockPair lo hi) d = Inr (n, rows, d')" and pk: "pk_ok d"
    and lo: "has_account (sint lo) d" and hi: "has_account (sint hi) d" and le: "sint lo \<le> sint hi"
  shows "rows = map (\<lambda>i. [VInt i]) (pair_ids lo hi)"
proof -
  let ?as = "filter (\<lambda>a. acc_id a = sint lo \<or> acc_id a = sint hi) (accounts d)"
  have "distinct (map acc_id ?as)" using pk by (simp add: pk_ok_def distinct_map_filter)
  then have "distinct (map acc_id (sort_key acc_id ?as))" by (simp add: distinct_map)
  moreover have "set (map acc_id (sort_key acc_id ?as)) = set (pair_ids lo hi)"
    using lo hi by (auto simp: has_account_def pair_ids_def)
  ultimately have "map acc_id (sort_key acc_id ?as) = pair_ids lo hi"
    using le by (intro sorted_distinct_set_unique) (auto simp: pair_ids_def)
  moreover have "rows = map (\<lambda>i. [VInt i]) (map acc_id (sort_key acc_id ?as))"
    using u by (auto simp: sql_lock_pair_def Let_def)
  ultimately show ?thesis by simp
qed

lemma stmt_pair_reply:
  assumes "exec_stmt v s d = Inr (n, rows, d')" and "pk_ok d" and "pair_in A s" and "\<forall>i \<in> A. has_account i d"
  shows "pair_reply s rows"
  using assms lock_pair_reply by (cases s) (auto simp: pair_reply_def pair_in_def)

lemma pair_locks: "pair_reply (LockPair lo hi) rows \<Longrightarrow> locks v (LockPair lo hi) n rows = pair_rows lo hi"
  by (auto simp: pair_reply_def pair_rows_def pair_ids_def)

text \<open>The overlay has the accounts of the tables.\<close>

lemma overlay_keeps:
  "pk_ok d \<Longrightarrow> list_all (\<lambda>(v, st, n, rows). tx_stmt st) L \<Longrightarrow> has_account i d \<Longrightarrow>
     pk_ok (overlay L d) \<and> has_account i (overlay L d)"
proof (induction L arbitrary: d)
  case Nil
  then show ?case by simp
next
  case (Cons e L)
  obtain v s n rows where e: "e = (v, s, n, rows)" by (cases e)
  have "pk_ok (redo e d) \<and> has_account i (redo e d)"
  proof (cases "exec_stmt v s d")
    case (Inr q)
    obtain n' rows' d' where q: "q = (n', rows', d')" by (cases q)
    have "pk_ok d' \<and> apart {} d d'"
      using stmt_frame [OF Inr [unfolded q] Cons.prems(1), of "{}"] Cons.prems(2) e by simp
    with apart_found Cons.prems Inr q e show ?thesis by (auto simp: redo_def)
  qed (use Cons.prems e in \<open>simp add: redo_def\<close>)
  with Cons show ?case by simp
qed

text \<open>The entry that a session is about to make.\<close>

definition stmt_next :: "answer prog \<Rightarrow> stmt \<Rightarrow> bool" where
  "stmt_next p st \<longleftrightarrow> (\<exists>k. p = Exec InTx st k) \<or> (\<exists>k. p = Query InTx st k)"

lemma stmt_entry:
  assumes ok: "session_ok orc d s" and led: "ledger_ok seed d" and line: "in_line s" and ex: "pair_exists d s"
    and p: "stmt_next (s_prog s) st" and c: "call_tx orc st (refresh d s) = (Inr (n, rows), w')"
  shows "orderly (pair_accounts (s_req s)) anything (s_prog s) (Some (held (s_log s))) \<and> pair_reply st rows"
proof -
  obtain t where t: "txn (s_world s) = Some t" "\<not> aborted t"
    using c by (auto simp: call_tx_def split: option.splits sum.splits prod.splits if_splits)
  obtain m where m: "session_mode orc d s m" using ok by (auto simp: session_ok_def)
  have "in_tx m" using m t by (auto simp: session_mode_def)
  from tx_call [OF m this led c] obtain v' d1
    where u: "exec_stmt v' st (overlay (s_log s) d) = Inr (n, rows, d1)" by auto
  have line': "orderly (pair_accounts (s_req s)) anything (s_prog s) (Some (held (s_log s)))"
    using line t by (auto simp: in_line_def dead_tx_def split: option.splits)
  have pk: "pk_ok d" using ledger_rows_ok [OF led] by auto
  have log: "list_all (\<lambda>(v, st, n, rows). tx_stmt st) (s_log s)" using line by (simp add: in_line_def)
  have has: "pk_ok (overlay (s_log s) d) \<and> has_account i (overlay (s_log s) d)"
    if "i \<in> pair_accounts (s_req s)" for i
    by (rule overlay_keeps [OF pk log]) (use ex that in \<open>simp add: pair_exists_def\<close>)
  then have "pk_ok (overlay (s_log s) d)" by (auto simp: pair_accounts_def)
  moreover have "pair_in (pair_accounts (s_req s)) st" using line' p by (auto simp: stmt_next_def)
  ultimately have "pair_reply st rows" using stmt_pair_reply [OF u] has by blast
  with line' show ?thesis by blast
qed

lemma next_entry_stmt:
  assumes "next_entry orc (s_prog s) (refresh d s) = Some (v, st, n, rows)"
  shows "stmt_next (s_prog s) st \<and> (\<exists>w'. call_tx orc st (refresh d s) = (Inr (n, rows), w'))"
  using assms by (auto simp: next_entry_def tx_entry_def stmt_next_def
      split: prog.splits conn.splits option.splits sum.splits prod.splits)

text \<open>A session waits for rows beyond those it holds.\<close>

lemma next_beyond:
  assumes ok: "session_ok orc d s" and led: "ledger_ok seed d" and line: "in_line s" and ex: "pair_exists d s"
    and r: "r \<in> set (next_locks orc d s)" "r \<notin> holds s" and q: "q \<in> holds s"
  shows "rank q < rank r"
proof -
  obtain v st n rows where en: "next_entry orc (s_prog s) (refresh d s) = Some (v, st, n, rows)"
    and r': "r \<in> set (locks v st n rows)"
    using r(1) by (cases "next_entry orc (s_prog s) (refresh d s)") (auto simp: next_locks_def entry_locks_def)
  obtain w' where p: "stmt_next (s_prog s) st" and c: "call_tx orc st (refresh d s) = (Inr (n, rows), w')"
    using next_entry_stmt [OF en] by blast
  note e = stmt_entry [OF ok led line ex p c]
  then have b: "list_all (beyond (held (s_log s))) (locks v st n rows)" "pair_in (pair_accounts (s_req s)) st"
    using p by (auto simp: stmt_next_def)
  show ?thesis
  proof (cases "q \<in> held (s_log s)")
    case True
    with b(1) r' r(2) show ?thesis by (auto simp: list_all_iff beyond_def holds_def)
  next
    case False
    with q have q': "q \<in> set (s_part s)" by (simp add: holds_def)
    then have "mid_pair (s_prog s) (s_part s)" using line by (auto simp: in_line_def)
    with p obtain lo hi R where st: "st = LockPair lo hi" and R: "pair_rows lo hi = s_part s @ R"
      by (auto simp: mid_pair_def stmt_next_def)
    have "locks v st n rows = s_part s @ R" using pair_locks [of lo hi rows v n] e st R by metis
    then have "r \<in> set R" using r' r(2) by (auto simp: holds_def)
    with pair_rows_sorted [of lo hi] b(2) q' st R show ?thesis
      by (auto simp: pair_in_def sorted_wrt_append)
  qed
qed

section \<open>Staying in line\<close>

lemma stmt_in_line:
  assumes ok: "session_ok orc d s" and led: "ledger_ok seed d" and line: "in_line s" and ex: "pair_exists d s"
    and adv: "advance orc d s = (s', d')" and p: "stmt_next (s_prog s) st"
    and f: "\<And>r w'. call_tx orc st (refresh d s) = (r, w') \<Longrightarrow>
      pstep orc (s_prog s) (refresh d s) = (case r of Inl e \<Rightarrow> h e | Inr q \<Rightarrow> f q, w')"
    and h: "\<And>m e. orderly A anything (s_prog s) m \<Longrightarrow> orderly A anything (h e) None"
    and g: "\<And>H v n rows. orderly A anything (s_prog s) (Some H) \<Longrightarrow> pair_reply st rows \<Longrightarrow>
      orderly A anything (f (n, rows)) (Some (H \<union> set (locks v st n rows)))"
    and A: "A = pair_accounts (s_req s)" and st: "tx_stmt st"
  shows "in_line s'"
proof -
  obtain r w' where c: "call_tx orc st (refresh d s) = (r, w')" by fastforce
  obtain m where m: "session_mode orc d s m" and "safe (posts_alone (s_req s)) reports (s_prog s) m"
    using ok by (auto simp: session_ok_def)
  then have "in_tx m" using p by (auto simp: stmt_next_def)
  note call = tx_call [OF m this led c]
  then obtain u where u: "txn w' = Some u" by auto
  have en: "next_entry orc (s_prog s) (refresh d s) = tx_entry orc st (refresh d s)"
    using p by (auto simp: stmt_next_def next_entry_def)
  have log: "list_all (\<lambda>(v, st, n, rows). tx_stmt st) (s_log s)" using line by (simp add: in_line_def)
  show ?thesis
  proof (cases r)
    case (Inl e)
    with adv f [OF c] u call en have "s' = s\<lparr>s_prog := h e, s_world := w', s_log := s_log s, s_part := []\<rparr>"
      by (auto simp: advance_def next_log_def)
    moreover have "aborted u" using Inl call u by auto
    moreover have "orderly A anything (h e) None" using line h A by (auto simp: in_line_def)
    ultimately show ?thesis
      using u log A by (auto simp: in_line_def dead_tx_def intro!: exI [of _ None])
  next
    case (Inr q)
    obtain n rows where q: "q = (n, rows)" by (cases q)
    with Inr call en obtain v where "next_entry orc (s_prog s) (refresh d s) = Some (v, st, n, rows)" by auto
    with adv f [OF c] u Inr q
    have s': "s' = s\<lparr>s_prog := f (n, rows), s_world := w', s_log := s_log s @ [(v, st, n, rows)], s_part := []\<rparr>"
      by (auto simp: advance_def next_log_def)
    have "orderly A anything (f (n, rows)) (Some (held (s_log s) \<union> set (locks v st n rows)))"
      using g stmt_entry [OF ok led line ex p c [unfolded Inr q]] A by blast
    then show ?thesis
      using log A st by (auto simp: in_line_def s' entry_locks_def
          intro!: exI [of _ "Some (held (s_log s) \<union> set (locks v st n rows))"])
  qed
qed

lemma in_line_dead:
  "orderly (pair_accounts (s_req s)) anything (s_prog s) None \<Longrightarrow> txn (s_world s) = None \<Longrightarrow> s_part s = [] \<Longrightarrow>
     s_log s = [] \<Longrightarrow> in_line s"
  by (auto simp: in_line_def dead_tx_def intro!: exI [of _ None])

lemma advance_in_line:
  assumes ok: "session_ok orc d s" and led: "ledger_ok seed d" and line: "in_line s" and ex: "pair_exists d s"
    and adv: "advance orc d s = (s', d')" and run: "\<not> finished s"
  shows "in_line s'"
proof -
  obtain m where m: "session_mode orc d s m" and safe: "safe (posts_alone (s_req s)) reports (s_prog s) m"
    using ok by (auto simp: session_ok_def)
  obtain h where ord: "orderly (pair_accounts (s_req s)) anything (s_prog s) h"
    "case h of None \<Rightarrow> dead_tx s | Some H \<Rightarrow> H = held (s_log s)" and log: "list_all (\<lambda>(v, st, n, rows). tx_stmt st) (s_log s)"
    using line by (auto simp: in_line_def)
  show ?thesis
  proof (cases "s_prog s")
    case (Ret a)
    with run show ?thesis by (simp add: finished_def)
  next
    case (BeginTx k)
    then have tx: "txn (s_world s) = None" "s_log s = []"
      using m safe by (auto simp: session_mode_def split: option.splits)
    show ?thesis
    proof (cases "o_fault orc (calls (s_world s))")
      case (Some e)
      with adv BeginTx tx ord(1) show ?thesis
        by (auto simp: advance_def begin_tx_def next_log_def intro!: in_line_dead)
    next
      case None
      with adv BeginTx tx have "s_log s' = []" "s_part s' = []" "s_req s' = s_req s" "s_prog s' = k None"
        by (auto simp: advance_def begin_tx_def next_log_def next_entry_def)
      with ord(1) BeginTx show ?thesis
        by (auto simp: in_line_def intro!: exI [of _ "Some {}"])
    qed
  next
    case (CommitTx k)
    with adv ord(1) show ?thesis
      by (auto simp: advance_def commit_tx_def next_log_def intro!: in_line_dead split: option.splits if_splits)
  next
    case (RollbackTx p)
    with adv ord(1) show ?thesis
      by (auto simp: advance_def rollback_tx_def next_log_def intro!: in_line_dead)
  next
    case (Exec c st k)
    with safe have c: "c = InTx" "tx_stmt st" by auto
    show ?thesis
    proof (rule stmt_in_line [OF ok led line ex adv, where h = "\<lambda>e. k (Inl e)" and f = "\<lambda>q. k (Inr (fst q))" and st = st])
      show "pstep orc (s_prog s) (refresh d s) = (case r of Inl e \<Rightarrow> k (Inl e) | Inr q \<Rightarrow> k (Inr (fst q)), w')"
        if "call_tx orc st (refresh d s) = (r, w')" for r w'
        using that Exec c by (cases r) (simp_all add: call_def)
    qed (use Exec c in \<open>auto simp: stmt_next_def\<close>)
  next
    case (Query c st k)
    with safe have c: "c = InTx" "tx_stmt st" by auto
    show ?thesis
    proof (rule stmt_in_line [OF ok led line ex adv, where h = "\<lambda>e. k (Inl e)" and f = "\<lambda>q. k (Inr (snd q))" and st = st])
      show "pstep orc (s_prog s) (refresh d s) = (case r of Inl e \<Rightarrow> k (Inl e) | Inr q \<Rightarrow> k (Inr (snd q)), w')"
        if "call_tx orc st (refresh d s) = (r, w')" for r w'
        using that Query c by (cases r) (simp_all add: call_def)
    qed (use Query c in \<open>auto simp: stmt_next_def\<close>)
  next
    case (NewUUID k)
    then obtain t where "txn (s_world s) = Some t" using m safe by (auto simp: session_mode_def split: option.splits)
    with adv NewUUID ord log show ?thesis
      by (auto simp: advance_def next_log_def next_entry_def in_line_def dead_tx_def intro!: exI [of _ h] split: option.splits)
  next
    case (TimeNow k)
    then obtain t where "txn (s_world s) = Some t" using m safe by (auto simp: session_mode_def split: option.splits)
    with adv TimeNow ord log show ?thesis
      by (auto simp: advance_def next_log_def next_entry_def in_line_def dead_tx_def intro!: exI [of _ h] split: option.splits)
  qed (use safe in simp_all)
qed

section \<open>All sessions\<close>

text \<open>Requests to \<open>ExecuteWithForUpdate\<close>, between accounts that exist.\<close>

definition for_update_requests :: admission where
  "for_update_requests st req d \<longleftrightarrow>
     st = SelectForUpdate \<and> has_account (sint (FromAccount req)) d \<and> has_account (sint (ToAccount req)) d"

definition queued :: "session list \<Rightarrow> db \<Rightarrow> bool" where
  "queued ss d \<longleftrightarrow> (\<forall>s \<in> set ss. in_line s \<and> pair_exists d s \<and> within (s_prog s) 95)"

lemma queuedD: "queued ss d \<Longrightarrow> i < length ss \<Longrightarrow>
    in_line (ss ! i) \<and> pair_exists d (ss ! i) \<and> within (s_prog (ss ! i)) 95"
  by (simp add: queued_def)

lemma queued_update:
  assumes "queued ss d" and "\<And>i. has_account i d \<Longrightarrow> has_account i d'"
    and "in_line s" and "pair_exists d' s" and "within (s_prog s) 95"
  shows "queued (ss[i := s]) d'"
  using assms set_update_subset_insert [of ss i s] unfolding queued_def pair_exists_def by blast

lemma pstep_within:
  "pstep orc p w = (p', w') \<Longrightarrow> within p (Suc n) \<Longrightarrow> \<forall>a. p \<noteq> Ret a \<Longrightarrow> within p' n"
  by (cases p) (auto split: prod.splits)

lemma advance_within:
  assumes "advance orc d s = (s', d')" and "within (s_prog s) n" and "\<not> finished s"
  shows "0 < n \<and> within (s_prog s') (n - 1)"
proof (cases n)
  case 0
  with assms show ?thesis by (cases "s_prog s") (simp_all add: finished_def)
next
  case (Suc m)
  obtain p w' where p: "pstep orc (s_prog s) (refresh d s) = (p, w')" by fastforce
  have "\<forall>a. s_prog s \<noteq> Ret a" using assms(3) by (auto simp: finished_def)
  from pstep_within [OF p _ this] assms(1,2) p Suc show ?thesis by (auto simp: advance_def)
qed

lemma good_call_apart: "good_call orc R d s s' d' \<Longrightarrow> apart {} d d' \<and> s_req s' = s_req s"
  by (auto simp: good_call_def quiet_call_def posting_call_def)

lemma proceeds_queued:
  assumes st: "proceeds E (ss, d) (ss', d')" and q: "queued ss d" and ok: "sessions_ok E ss d" and led: "ledger_ok seed d"
  shows "queued ss' d'"
  using st
proof cases
  case (1 i s')
  note adv = 1(5) and i = 1(2) and run = 1(3)
  have s: "session_ok (E i) d (ss ! i)" using ok i by (simp add: sessions_ok_def)
  note q' = queuedD [OF q i]
  note good = good_call_apart [OF session_call [OF s led adv]]
  have has: "has_account j d \<Longrightarrow> has_account j d'" for j using apart_found good by blast
  show ?thesis
    unfolding 1(1)
  proof (rule queued_update [OF q has])
    show "in_line s'" using advance_in_line [OF s led _ _ adv run] q' by blast
    show "pair_exists d' s'" using q' good has by (simp add: pair_exists_def)
    show "within (s_prog s') 95"
      using advance_within [OF adv _ run, of 95] q' within_mono [of "s_prog s'" "95 - 1" 95] by simp
  qed
qed

lemma new_queued:
  assumes "for_update_requests st req d"
  shows "in_line (new_session st req c) \<and> pair_exists d (new_session st req c) \<and>
    within (s_prog (new_session st req c)) 95"
proof -
  have p: "execute_by st req = forUpdate_loop maxRetries req"
    using assms by (simp add: for_update_requests_def ExecuteWithForUpdate_def)
  then have "in_line (new_session st req c)"
    by (intro in_line_dead) (simp_all add: new_session_def orderly_forUpdate_loop del: forUpdate_loop.simps)
  moreover have "within (execute_by st req) 95"
    using within_ForUpdate [of req] p by (simp add: ExecuteWithForUpdate_def maxRetries_def del: forUpdate_loop.simps)
  ultimately show ?thesis
    using assms by (simp add: new_session_def pair_exists_def pair_accounts_def for_update_requests_def)
qed

lemma in_line_part:
  assumes "in_line s" and "mid_pair (s_prog s) R"
  shows "in_line (s\<lparr>s_part := R\<rparr>)"
proof -
  obtain m where m: "orderly (pair_accounts (s_req s)) anything (s_prog s) m"
    "case m of None \<Rightarrow> dead_tx s | Some H \<Rightarrow> H = held (s_log s)"
    using assms(1) by (auto simp: in_line_def)
  then have "case m of None \<Rightarrow> dead_tx (s\<lparr>s_part := R\<rparr>) | Some H \<Rightarrow> H = held (s_log (s\<lparr>s_part := R\<rparr>))"
    by (cases m) (simp_all add: dead_tx_def)
  with m(1) assms show ?thesis unfolding in_line_def by auto
qed

lemma cstep_queued:
  assumes st: "cstep E lim for_update_requests (ss, d) (ss', d')" and q: "queued ss d"
    and ok: "sessions_ok E ss d" and led: "ledger_ok seed d"
  shows "queued ss' d'"
  using st
proof cases
  case (arrives st req c)
  with q new_queued show ?thesis by (auto simp: queued_def)
next
  case calls
  then show ?thesis by (rule proceeds_queued [OF _ q ok led])
next
  case (locks_row i r R)
  let ?s = "(ss ! i)\<lparr>s_part := s_part (ss ! i) @ [r]\<rparr>"
  note q' = queuedD [OF q locks_row(3)]
  have s: "session_ok (E i) d (ss ! i)" using ok locks_row by (simp add: sessions_ok_def)
  obtain v st n rows where en: "next_entry (E i) (s_prog (ss ! i)) (refresh d (ss ! i)) = Some (v, st, n, rows)"
    and l: "locks v st n rows = s_part (ss ! i) @ r # R"
    using locks_row(5) by (cases "next_entry (E i) (s_prog (ss ! i)) (refresh d (ss ! i))")
      (auto simp: next_locks_def entry_locks_def)
  obtain w' where p: "stmt_next (s_prog (ss ! i)) st" and c: "call_tx (E i) st (refresh d (ss ! i)) = (Inr (n, rows), w')"
    using next_entry_stmt [OF en] by blast
  obtain lo hi k where st: "st = LockPair lo hi" "s_prog (ss ! i) = Exec InTx (LockPair lo hi) k"
    using p locks_row(4) by (auto simp: stmt_next_def locks_in_order_def lock_only_def)
  have "pair_rows lo hi = s_part (ss ! i) @ r # R"
    using stmt_entry [OF s led _ _ p c] q' l pair_locks [of lo hi rows v n] st by simp
  then have "mid_pair (s_prog (ss ! i)) (s_part (ss ! i) @ [r])" using st by (auto simp: mid_pair_def)
  then have "in_line ?s" using q' by (intro in_line_part) simp_all
  then show ?thesis
    unfolding locks_row(1,2) using q' by (intro queued_update [OF q]) (auto simp: pair_exists_def)
next
  case (dies i e)
  have "in_line (abandon e (ss ! i))" by (rule in_line_dead) (simp_all add: abandon_def)
  with queuedD [OF q dies(3)] show ?thesis
    unfolding dies(1,2) by (intro queued_update [OF q]) (auto simp: abandon_def pair_exists_def)
next
  case (pooled s v n rows)
  have "pk_ok d" using ledger_rows_ok [OF led] by auto
  with stmt_frame [OF pooled(4) _ _, of "{}"] pooled have "apart {} d d'" by simp
  with q apart_found pooled(1) show ?thesis unfolding queued_def pair_exists_def by blast
qed

lemma csteps_queued:
  assumes st: "(cstep E lim for_update_requests)\<^sup>*\<^sup>* ([], d0) (ss, d)" and led: "ledger_ok seed d0"
    and seed: "\<forall>i \<ge> lim. seed i = 0"
  shows "queued ss d"
  using st
proof (induction "(ss, d)" arbitrary: ss d rule: rtranclp_induct)
  case base
  then show ?case by (simp add: queued_def)
next
  case (step y)
  obtain ss1 d1 where y: "y = (ss1, d1)" by (cases y)
  from csteps_keep [OF step.hyps(1) [unfolded y] led seed]
  have "sessions_ok E ss1 d1" "ledger_ok seed d1" by auto
  with cstep_queued [OF step.hyps(2) [unfolded y] step.hyps(3) [OF y]] show ?case by blast
qed

section \<open>No circle of waiting sessions\<close>

lemma finished_holds:
  assumes "session_ok orc d s" and "in_line s" and "finished s"
  shows "holds s = {}"
proof -
  obtain a where p: "s_prog s = Ret a" using assms(3) by (auto simp: finished_def split: prog.splits)
  then have "s_part s = []" using assms(2) by (auto simp: in_line_def mid_pair_def)
  moreover have "s_log s = []"
    using assms(1) p by (auto simp: session_ok_def session_mode_def reports_def in_tx_def split: option.splits)
  ultimately show ?thesis by (simp add: holds_def)
qed

lemma someone_calls:
  assumes q: "queued ss d" and ok: "sessions_ok E ss d" and led: "ledger_ok seed d" and run: "i < length ss" "\<not> finished (ss ! i)"
  shows "\<exists>j < length ss. \<not> finished (ss ! j) \<and> may_call (E j) d ss j"
proof (rule ccontr)
  assume no: "\<not> ?thesis"
  let ?next = "\<lambda>i. next_locks (E i) d (ss ! i)"
  define W where "W = {r. \<exists>i < length ss. r \<in> set (?next i) \<and> (\<exists>j < length ss. j \<noteq> i \<and> r \<in> holds (ss ! j))}"
  have wants: "\<exists>r \<in> set (?next i). \<exists>j < length ss. j \<noteq> i \<and> r \<in> holds (ss ! j)"
    if "i < length ss" "\<not> finished (ss ! i)" for i
    using no that unfolding may_call_def unlocked_def by blast
  have fin: "finite W" unfolding W_def by (rule finite_subset [of _ "\<Union>i < length ss. set (?next i)"]) auto
  have "W \<noteq> {}" using wants [OF run] run(1) unfolding W_def by blast
  then have "Max (rank ` W) \<in> rank ` W" using fin by (intro Max_in) simp_all
  then obtain r where r: "r \<in> W" and max: "rank r = Max (rank ` W)" by auto
  have top: "rank q \<le> rank r" if "q \<in> W" for q
    unfolding max using fin that by (intro Max_ge) simp_all
  from r obtain j where j: "j < length ss" "r \<in> holds (ss ! j)" unfolding W_def by blast
  have s: "session_ok (E j) d (ss ! j)" using ok j by (simp add: sessions_ok_def)
  note q' = queuedD [OF q j(1)]
  have "\<not> finished (ss ! j)" using finished_holds [OF s] q' j(2) by blast
  from wants [OF j(1) this] obtain r' k where r': "r' \<in> set (?next j)" and k: "k < length ss" "k \<noteq> j" "r' \<in> holds (ss ! k)"
    by blast
  have "r' \<notin> holds (ss ! j)" using ok k j apart_locksD [of ss k j] by (auto simp: sessions_ok_def)
  from next_beyond [OF s led _ _ r' this j(2)] q' have "rank r < rank r'" by blast
  moreover have "r' \<in> W" using r' k j(1) unfolding W_def by blast
  ultimately show False using top [of r'] by simp
qed

text \<open>Every call brings the requests nearer to their end.\<close>

lemma proceeds_bound:
  assumes "(proceeds E ^^ n) x y" and "length ns = length (fst x)"
    and "\<forall>i < length (fst x). within (s_prog (fst x ! i)) (ns ! i)"
  shows "n \<le> sum_list ns"
  using assms
proof (induction n arbitrary: x ns)
  case 0
  then show ?case by simp
next
  case (Suc n)
  from Suc.prems(1) obtain z where z: "proceeds E x z" and n: "(proceeds E ^^ n) z y"
    by (metis relpowp_Suc_D2)
  from z obtain ss d i s' d' where x: "x = (ss, d)" "z = (ss[i := s'], d')" "i < length ss" "\<not> finished (ss ! i)"
    and adv: "advance (E i) d (ss ! i) = (s', d')"
    by cases auto
  have w: "\<forall>j < length ss. within (s_prog (ss ! j)) (ns ! j)" and l: "length ns = length ss" using Suc.prems(2,3) x by auto
  have i: "0 < ns ! i \<and> within (s_prog s') (ns ! i - 1)"
    by (rule advance_within [OF adv _ x(4)]) (use w x(3) in blast)
  let ?ns = "ns[i := ns ! i - 1]"
  have "n \<le> sum_list ?ns"
    by (rule Suc.IH [OF n]) (use x l w i in \<open>auto simp: nth_list_update\<close>)
  moreover have "sum_list ns = Suc (sum_list ?ns)"
    using i x(3) l elem_le_sum_list [of i ns] by (simp add: sum_list_update)
  ultimately show ?case by simp
qed

end
