(* ===== verification/Alone.thy ===== *)
theory Alone
  imports Deadlock
begin

text \<open>
  A session that nobody disturbs does what the sequential semantics says: its calls, taken one by one
  on the committed tables with the log as overlay, lead to the result and the tables of \<open>run\<close>.
\<close>

definition log_stmts :: "session \<Rightarrow> bool" where
  "log_stmts s \<longleftrightarrow> list_all (\<lambda>(v, st, n, rows). tx_stmt st) (s_log s)"

lemma overlay_append: "overlay (L @ L') d = overlay L' (overlay L d)"
  by (induction L arbitrary: d) simp_all

lemma overlay_pk:
  "pk_ok d \<Longrightarrow> list_all (\<lambda>(v, st, n, rows). tx_stmt st) L \<Longrightarrow> pk_ok (overlay L d)"
proof (induction L arbitrary: d)
  case (Cons e L)
  obtain v s n rows where e: "e = (v, s, n, rows)" by (cases e)
  have "pk_ok (redo e d)"
  proof (cases "exec_stmt v s d")
    case (Inr q)
    obtain n' rows' d' where q: "q = (n', rows', d')" by (cases q)
    from stmt_frame [OF Inr [unfolded q] Cons.prems(1), of "{}"] Cons.prems Inr q e show ?thesis by (simp add: redo_def)
  qed (use Cons.prems e in \<open>simp add: redo_def\<close>)
  with Cons show ?case by simp
qed simp

text \<open>After a statement the overlay of the log is the view of the transaction.\<close>

lemma stmt_refresh:
  assumes c: "call_tx orc st (refresh d s) = (r, w')" and pk: "pk_ok d" and log: "log_stmts s" and st: "tx_stmt st"
    and L: "L = s_log s @ (case tx_entry orc st (refresh d s) of None \<Rightarrow> [] | Some e \<Rightarrow> [e])"
  shows "tables w' = d \<and> map_option (\<lambda>t. t\<lparr>view := overlay L d\<rparr>) (txn w') = txn w' \<and>
    list_all (\<lambda>(v, st, n, rows). tx_stmt st) L"
proof (cases r)
  case (Inl e)
  then have "tx_entry orc st (refresh d s) = None" using c by (simp add: tx_entry_def split: option.splits)
  then have "L = s_log s" using L by simp
  with c Inl log show ?thesis
    by (auto simp: call_tx_def log_stmts_def split: option.splits if_splits sum.splits prod.splits)
next
  case (Inr q)
  obtain n rows where q: "q = (n, rows)" by (cases q)
  with c Inr obtain t d1 where t: "txn (s_world s) = Some t"
    and u: "exec_stmt (stmt_env orc (tx_now t) st (refresh d s)) st (overlay (s_log s) d) = Inr (n, rows, d1)"
    and w': "tables w' = d" "txn w' = Some (t\<lparr>view := d1\<rparr>)"
    by (auto simp: call_tx_def split: if_splits option.splits sum.splits prod.splits)
  have pk': "pk_ok (overlay (s_log s) d)" using overlay_pk [OF pk] log by (simp add: log_stmts_def)
  have "tx_entry orc st (refresh d s) = Some (stmt_env orc (tx_now t) st (refresh d s), st, n, rows)"
    using c Inr q t by (simp add: tx_entry_def)
  then have "L = s_log s @ [(stmt_env orc (tx_now t) st (refresh d s), st, n, rows)]" using L by simp
  with entry_frame [OF u _ pk' st, of n rows "{}"] log st w' show ?thesis
    by (simp add: overlay_append same_reply_def log_stmts_def)
qed

lemma refresh_log:
  "s_world s' = w' \<Longrightarrow> s_log s' = L \<Longrightarrow> tables w' = d \<Longrightarrow>
     map_option (\<lambda>t. t\<lparr>view := overlay L d\<rparr>) (txn w') = txn w' \<Longrightarrow> refresh d s' = w'"
  by (simp add: refresh_def)

lemma advance_refresh:
  assumes ok: "session_ok orc d s" and pk: "pk_ok d" and log: "log_stmts s" and run: "\<not> finished s"
    and adv: "advance orc d s = (s', d')"
  shows "pstep orc (s_prog s) (refresh d s) = (s_prog s', refresh d' s') \<and> log_stmts s'"
proof -
  obtain w' where p: "pstep orc (s_prog s) (refresh d s) = (s_prog s', w')" and d': "d' = tables w'"
    and s': "s_world s' = w'" "s_log s' = next_log orc s (refresh d s) w'"
    using adv by (auto simp: advance_def split: prod.splits)
  obtain m where m: "session_mode orc d s m" and safe: "safe (posts_alone (s_req s)) reports (s_prog s) m"
    using ok by (auto simp: session_ok_def)
  note logs = log [unfolded log_stmts_def]
  have "map_option (\<lambda>t. t\<lparr>view := overlay (s_log s') d'\<rparr>) (txn w') = txn w' \<and>
      list_all (\<lambda>(v, st, n, rows). tx_stmt st) (s_log s')"
  proof (cases "s_prog s")
    case (Ret a)
    with run show ?thesis by (simp add: finished_def)
  next
    case (BeginTx k)
    then have "txn (s_world s) = None" "s_log s = []"
      using m safe by (auto simp: session_mode_def split: option.splits)
    moreover have "w' = snd (begin_tx orc (refresh d s))" using p BeginTx by (auto split: prod.splits)
    ultimately show ?thesis
      using d' s' BeginTx by (cases "o_fault orc (calls (s_world s))")
        (simp_all add: begin_tx_def next_log_def next_entry_def)
  next
    case (CommitTx k)
    with p have "txn w' = None" by (auto simp: commit_tx_def split: option.splits if_splits)
    with s' show ?thesis by (simp add: next_log_def)
  next
    case (RollbackTx q)
    with p have "txn w' = None" by (auto simp: rollback_tx_def)
    with s' show ?thesis by (simp add: next_log_def)
  next
    case (Exec c st k)
    with safe have c: "c = InTx" "tx_stmt st" by auto
    obtain r where r: "call_tx orc st (refresh d s) = (r, w')"
      using p Exec c by (auto simp: call_def split: prod.splits)
    show ?thesis
      using stmt_refresh [OF r pk log c(2) refl] s' d' Exec c
      by (cases "txn w'") (simp_all add: next_log_def next_entry_def)
  next
    case (Query c st k)
    with safe have c: "c = InTx" "tx_stmt st" by auto
    obtain r where r: "call_tx orc st (refresh d s) = (r, w')"
      using p Query c by (auto simp: call_def split: prod.splits)
    show ?thesis
      using stmt_refresh [OF r pk log c(2) refl] s' d' Query c
      by (cases "txn w'") (simp_all add: next_log_def next_entry_def)
  next
    case (NewUUID k)
    with p have "w' = tick (refresh d s)" by simp
    with s' d' logs NewUUID show ?thesis
      by (cases "txn (s_world s)") (simp_all add: next_log_def next_entry_def)
  next
    case (TimeNow k)
    with p have "w' = tick (refresh d s)" by simp
    with s' d' logs TimeNow show ?thesis
      by (cases "txn (s_world s)") (simp_all add: next_log_def next_entry_def)
  qed (use safe in simp_all)
  with p s' d' show ?thesis using refresh_log [OF s'(1) refl d' [symmetric]] by (simp add: log_stmts_def)
qed

lemma alone_proceeds:
  assumes "within (s_prog (ss ! i)) n" and "i < length ss" and "sessions_ok E ss d" and "ledger_ok seed d"
    and "history_ok ss d0 d h" and "\<And>j. j < length ss \<Longrightarrow> j \<noteq> i \<Longrightarrow> holds (ss ! j) = {}"
    and "log_stmts (ss ! i)" and "run (E i) (s_prog (ss ! i)) (refresh d (ss ! i)) = (a, w')"
  shows "\<exists>s'. (proceeds E)\<^sup>*\<^sup>* (ss, d) (ss[i := s'], tables w') \<and> s_prog s' = Ret a \<and> s_req s' = s_req (ss ! i)"
  using assms
proof (induction n arbitrary: ss d h)
  case 0
  then obtain b where "s_prog (ss ! i) = Ret b" by (cases "s_prog (ss ! i)") simp_all
  with 0 show ?case by (intro exI [of _ "ss ! i"]) auto
next
  case (Suc n)
  show ?case
  proof (cases "finished (ss ! i)")
    case True
    then obtain b where "s_prog (ss ! i) = Ret b" by (auto simp: finished_def split: prog.splits)
    with Suc.prems show ?thesis by (intro exI [of _ "ss ! i"]) auto
  next
    case False
    obtain s1 d1 where adv: "advance (E i) d (ss ! i) = (s1, d1)" by fastforce
    have ok: "session_ok (E i) d (ss ! i)" using Suc.prems(2,3) by (simp add: sessions_ok_def)
    have pk: "pk_ok d" using ledger_rows_ok [OF Suc.prems(4)] by auto
    note r = advance_refresh [OF ok pk Suc.prems(7) False adv]
    have req: "s_req s1 = s_req (ss ! i)" using adv by (auto simp: advance_def split: prod.splits)
    have "may_call (E i) d ss i" using Suc.prems(6) by (simp add: may_call_def unlocked_def)
    from proceeds.intros [of i ss E, OF Suc.prems(2) False this adv]
    have step: "proceeds E (ss, d) (ss[i := s1], d1)" .
    from proceeds_kept [OF step Suc.prems(3-5)] obtain h1
      where k: "sessions_ok E (ss[i := s1]) d1" "ledger_ok seed d1" "history_ok (ss[i := s1]) d0 d1 h1"
      by (auto simp: step_kept_def)
    let ?ss = "ss[i := s1]"
    have "\<exists>s'. (proceeds E)\<^sup>*\<^sup>* (?ss, d1) (?ss[i := s'], tables w') \<and> s_prog s' = Ret a \<and> s_req s' = s_req (?ss ! i)"
    proof (rule Suc.IH)
      show "within (s_prog (?ss ! i)) n" using advance_within [OF adv Suc.prems(1) False] Suc.prems(2) by simp
      show "run (E i) (s_prog (?ss ! i)) (refresh d1 (?ss ! i)) = (a, w')"
        using Suc.prems(2,8) r run_pstep [of "E i" "s_prog (ss ! i)" "refresh d (ss ! i)"] by simp
    qed (use k Suc.prems r in auto)
    with step req Suc.prems(2) show ?thesis by (auto intro: converse_rtranclp_into_rtranclp)
  qed
qed

end
