(* ===== verification/Overlap.thy ===== *)
theory Overlap
  imports Alone
begin

text \<open>
  What holds when requests overlap (theories Locks to Deadlock): they are serializable, keep the
  ledger, report a key once, and with locks taken in order never block each other for good, while
  the conditional update can. Schedules of steps, played by \<open>acts\<close>, give the concrete runs.
\<close>

section \<open>Schedules\<close>

datatype action =
    Arrive strategy transfer_request world
  | Move nat
  | Lock_row nat
  | Die nat err
  | Statement stmt env

definition advance_one :: "(nat \<Rightarrow> environ) \<Rightarrow> nat \<Rightarrow> session list \<times> db \<Rightarrow> (session list \<times> db) option" where
  "advance_one E i x =
     (case x of (ss, d) \<Rightarrow>
        if i < length ss \<and> \<not> finished (ss ! i) \<and> may_call (E i) d ss i then
          (case advance (E i) d (ss ! i) of (s', d') \<Rightarrow> Some (ss[i := s'], d'))
        else None)"

definition lock_one :: "(nat \<Rightarrow> environ) \<Rightarrow> nat \<Rightarrow> session list \<times> db \<Rightarrow> (session list \<times> db) option" where
  "lock_one E i x =
     (case x of (ss, d) \<Rightarrow>
        let s = ss ! i; R = next_locks (E i) d s; n = length (s_part s)
        in if i < length ss \<and> locks_in_order (s_prog s) \<and> n < length R \<and> take n R = s_part s \<and>
              unlocked ss i [R ! n]
           then Some (ss[i := s\<lparr>s_part := s_part s @ [R ! n]\<rparr>], d) else None)"

definition act ::
  "(nat \<Rightarrow> environ) \<Rightarrow> int \<Rightarrow> admission \<Rightarrow> action \<Rightarrow> session list \<times> db \<Rightarrow> (session list \<times> db) option" where
  "act E lim adm a x =
     (case x of (ss, d) \<Rightarrow>
        (case a of
           Arrive st req c \<Rightarrow> if adm st req d then Some (ss @ [new_session st req c], d) else None
         | Move i \<Rightarrow> advance_one E i x
         | Lock_row i \<Rightarrow> lock_one E i x
         | Die i e \<Rightarrow> if i < length ss then Some (ss[i := abandon e (ss ! i)], d) else None
         | Statement s v \<Rightarrow>
             if pool_stmt s \<and> new_id lim s v then
               (case exec_stmt v s d of
                  Inl e \<Rightarrow> None
                | Inr (n, rows, d') \<Rightarrow> if unlocked ss (length ss) (locks v s n rows) then Some (ss, d') else None)
             else None))"

primrec acts ::
  "(nat \<Rightarrow> environ) \<Rightarrow> int \<Rightarrow> admission \<Rightarrow> action list \<Rightarrow> session list \<times> db \<Rightarrow> (session list \<times> db) option" where
  "acts E lim adm [] x = Some x"
| "acts E lim adm (a # as) x = (case act E lim adm a x of None \<Rightarrow> None | Some y \<Rightarrow> acts E lim adm as y)"

lemma advance_one_proceeds: "advance_one E i x = Some y \<Longrightarrow> proceeds E x y"
  by (auto simp: advance_one_def intro: proceeds.intros split: prod.splits if_splits)

lemma lock_one_cstep: "lock_one E i x = Some y \<Longrightarrow> cstep E lim adm x y"
proof -
  assume y: "lock_one E i x = Some y"
  obtain ss d where x: "x = (ss, d)" by (cases x)
  let ?R = "next_locks (E i) d (ss ! i)" and ?n = "length (s_part (ss ! i))"
  from y x have c: "i < length ss" "locks_in_order (s_prog (ss ! i))" "?n < length ?R"
    "take ?n ?R = s_part (ss ! i)" "unlocked ss i [?R ! ?n]"
    and y': "y = (ss[i := (ss ! i)\<lparr>s_part := s_part (ss ! i) @ [?R ! ?n]\<rparr>], d)"
    by (auto simp: lock_one_def Let_def split: if_splits)
  have "?R = s_part (ss ! i) @ ?R ! ?n # drop (Suc ?n) ?R"
    using id_take_nth_drop [OF c(3)] c(4) by simp
  with c show ?thesis unfolding x y' by (intro cstep.locks_row)
qed

lemma act_cstep: "act E lim adm a x = Some y \<Longrightarrow> cstep E lim adm x y"
  by (auto simp: act_def split: prod.splits action.splits if_splits sum.splits
      intro: cstep.intros advance_one_proceeds lock_one_cstep)

lemma acts_csteps: "acts E lim adm as x = Some y \<Longrightarrow> (cstep E lim adm)\<^sup>*\<^sup>* x y"
proof (induction as arbitrary: x)
  case (Cons a as)
  then obtain z where "act E lim adm a x = Some z" "acts E lim adm as z = Some y"
    by (auto split: option.splits)
  with Cons.IH act_cstep show ?case by (meson converse_rtranclp_into_rtranclp)
qed simp

lemma moves_proceeds: "acts E lim adm (map Move is) x = Some y \<Longrightarrow> (proceeds E ^^ length is) x y"
proof (induction "is" arbitrary: x)
  case (Cons i js)
  then obtain z where "advance_one E i x = Some z" "acts E lim adm (map Move js) z = Some y"
    by (auto simp: act_def split: option.splits prod.splits)
  from relpowp_Suc_I2 [OF advance_one_proceeds [OF this(1)] Cons.IH [OF this(2)]] show ?case by simp
qed simp

section \<open>The same request twice\<close>

text \<open>The environment of session \<open>i\<close>: its own UUIDs and posting ids.\<close>

definition own_ids :: "nat \<Rightarrow> environ" where
  "own_ids i = calm\<lparr>o_uuid := (\<lambda>n. CHR ''s'' # replicate i (CHR ''i'') @ replicate n (CHR ''u'')), o_skip := (\<lambda>_. 10 * i)\<rparr>"

definition any_request :: admission where
  "any_request st req d \<longleftrightarrow> True"

lemma own_ids_source: "no_faults (own_ids i)" "fresh_sources (sources_of (own_ids i) sample_world) sample_db"
  by (simp add: own_ids_def no_faults_def calm_def)
    (auto simp: fresh_sources_def sources_of_def sample_db_def own_ids_def calm_def rfc3339_ok_def)

text \<open>
  One request arrives twice; while the second session is in its transaction already, before its
  claim, the first one posts the transfer.
\<close>

lemma posts_beside:
  "\<exists>s0 s1 d t. (cstep own_ids 3 any_request)\<^sup>*\<^sup>* ([], sample_db) ([s0, s1], d) \<and> reported s0 = Some t \<and>
     s_req s0 = pay \<and> s_req s1 = pay"
proof -
  let ?step = "cstep own_ids 3 any_request"
  let ?a = "new_session ConditionalUpdate pay sample_world" and ?b = "new_session SelectForUpdate pay sample_world"
  obtain b d where adv: "advance (own_ids 1) sample_db ?b = (b, d)" by fastforce
  have b: "s_log b = []" "s_part b = []" "s_req b = pay" "d = sample_db"
    using adv by (auto simp: advance_def next_log_def next_entry_def new_session_def ExecuteWithForUpdate_def
        maxRetries_def numeral_eq_Suc begin_tx_def split: option.splits)
  have a: "s_req ?a = pay" "s_log ?a = []" "s_prog ?a = execute_by ConditionalUpdate pay"
    "refresh sample_db ?a = sample_world"
    by (simp_all add: new_session_def refresh_def sample_world_def)
  have "next_entry (own_ids 1) (s_prog ?b) w = None" for w
    by (simp add: new_session_def ExecuteWithForUpdate_def maxRetries_def numeral_eq_Suc next_entry_def)
  then have "may_call (own_ids 1) sample_db [?a, ?b] 1" by (simp add: may_call_def next_locks_def unlocked_def)
  moreover have "\<not> finished ([?a, ?b] ! 1)"
    by (simp add: finished_def new_session_def ExecuteWithForUpdate_def maxRetries_def numeral_eq_Suc)
  ultimately have "proceeds own_ids ([?a, ?b], sample_db) ([?a, ?b][1 := b], sample_db)"
    using adv b(4) by (intro proceeds.intros) simp_all
  then have s3: "?step ([?a, ?b], sample_db) ([?a, b], sample_db)" using cstep.calls by simp
  have s1: "?step ([], sample_db) ([?a], sample_db)" and s2: "?step ([?a], sample_db) ([?a, ?b], sample_db)"
    using cstep.arrives [of any_request _ _ _ own_ids 3 "[]"] cstep.arrives [of any_request _ _ _ own_ids 3 "[?a]"]
    by (simp_all add: any_request_def)
  have start: "?step\<^sup>*\<^sup>* ([], sample_db) ([?a, b], sample_db)"
    by (rule converse_rtranclp_into_rtranclp, rule s1, rule converse_rtranclp_into_rtranclp, rule s2,
        rule r_into_rtranclp, rule s3)
  obtain r w' where r: "run (own_ids 0) (execute_by ConditionalUpdate pay) sample_world = (r, w')" by fastforce
  obtain t where t: "r = Inr (t, None)"
    using by_strategy.exec_posts [OF _ _ own_ids_source(1) _ _ r, of sample_seed] own_ids_source(2) [of 0]
      sample_ledger_ok pay_admissible by auto
  have seed: "\<forall>i \<ge> 3. sample_seed i = 0" by (simp add: sample_seed_def)
  obtain h where k: "sessions_ok own_ids [?a, b] sample_db" "ledger_ok sample_seed sample_db"
    "history_ok [?a, b] sample_db sample_db h"
    using csteps_keep [OF start sample_ledger_ok seed] by blast
  have "within (s_prog ([?a, b] ! 0)) 95"
    using within_Execute [of pay] a(3) by (simp add: maxDeadlockRetries_def within_mono [of _ 90])
  from alone_proceeds [OF this _ k, of r w'] r a b obtain s0 where
    "(proceeds own_ids)\<^sup>*\<^sup>* ([?a, b], sample_db) ([?a, b][0 := s0], tables w')" and s0: "s_prog s0 = Ret r" "s_req s0 = pay"
    by (auto simp: holds_def log_stmts_def less_Suc_eq)
  then have "(proceeds own_ids)\<^sup>*\<^sup>* ([?a, b], sample_db) ([s0, b], tables w')" by simp
  then have "?step\<^sup>*\<^sup>* ([?a, b], sample_db) ([s0, b], tables w')"
    by (rule rtranclp_mono [THEN predicate2D, rotated]) (auto intro: cstep.calls)
  with start have "?step\<^sup>*\<^sup>* ([], sample_db) ([s0, b], tables w')" by (rule rtranclp_trans)
  moreover have "reported s0 = Some t" using s0 t by (simp add: reported_def)
  ultimately show ?thesis using s0 b by blast
qed

section \<open>Two requests in opposite directions\<close>

definition refund :: transfer_request where
  "refund = pay\<lparr>FromAccount := 2, ToAccount := 1, IdempotencyKey := ''k2''\<rparr>"

text \<open>Two conditional updates, each with its first account debited.\<close>

definition crossing :: "action list" where
  "crossing = [Arrive ConditionalUpdate pay sample_world, Arrive ConditionalUpdate refund sample_world] @
     replicate 4 (Move 0) @ replicate 4 (Move 1)"

lemma crossing_runs: "case acts own_ids 3 any_request crossing ([], sample_db) of
    None \<Rightarrow> False
  | Some (ss, d) \<Rightarrow> length ss = 2 \<and> \<not> finished (ss ! 0) \<and> \<not> finished (ss ! 1) \<and>
      \<not> may_call (own_ids 0) d ss 0 \<and> \<not> may_call (own_ids 1) d ss 1"
  by code_simp

text \<open>The same two with the locks taken in order: the second one waits at its lock statement.\<close>

definition both_ways :: "action list" where
  "both_ways = [Arrive SelectForUpdate pay sample_world, Arrive SelectForUpdate refund sample_world]"

definition turns :: "nat list" where
  "turns = [0, 1, 0, 1, 0]"

lemma both_ways_run: "case acts own_ids 3 for_update_requests both_ways ([], sample_db) of
    None \<Rightarrow> False
  | Some (ss, d) \<Rightarrow> length ss = 2 \<and> acts own_ids 3 for_update_requests (map Move turns) (ss, d) \<noteq> None"
  by code_simp

section \<open>Properties\<close>

text \<open>
  C3. Requests that overlap are serializable. Whatever sessions run \<open>Execute\<close> or \<open>ExecuteWithForUpdate\<close>,
  call by call in any order, with failures, deaths and statements of other handlers and pollers in
  between: the committed tables are those of a history that posts whole transfers one after another,
  each on the tables the ones before have left, no key twice; every transfer that a session reports
  is in it.
\<close>

theorem overlapping_serializable:
  assumes "(cstep E lim adm)\<^sup>*\<^sup>* ([], d0) (ss, d)" and "ledger_ok seed d0" and "\<forall>i \<ge> lim. seed i = 0"
  shows "\<exists>h. serially d0 h d \<and> distinct (map (T_IdempotencyKey \<circ> snd) h) \<and> fst ` set h \<subseteq> s_req ` set ss \<and>
    (\<forall>s \<in> set ss. \<forall>t. reported s = Some t \<longrightarrow> (s_req s, t) \<in> set h)"
  using csteps_keep [OF assms] unfolding history_ok_def by blast

theorem overlapping_serializable_witness:
  "\<exists>d h t. serially sample_db h d \<and> (pay, t) \<in> set h"
proof -
  have "\<forall>i \<ge> 3. sample_seed i = 0" by (simp add: sample_seed_def)
  with posts_beside overlapping_serializable [OF _ sample_ledger_ok] show ?thesis
    by (metis list.set_intros(1))
qed

text \<open>
  C14. Requests that overlap keep the ledger in order at every moment: constraints, balances equal to
  the journal, double entry, one event per transfer, settled keys; and the sum of all balances.
\<close>

theorem overlapping_keeps_ledger:
  assumes "(cstep E lim adm)\<^sup>*\<^sup>* ([], d0) (ss, d)" and "ledger_ok seed d0" and "\<forall>i \<ge> lim. seed i = 0"
  shows "ledger_ok seed d \<and> total_balance d = total_balance d0"
  using csteps_keep [OF assms] by blast

theorem overlapping_keeps_ledger_witness:
  "\<exists>s0 s1 d. (cstep own_ids 3 any_request)\<^sup>*\<^sup>* ([], sample_db) ([s0, s1], d) \<and> reported s0 \<noteq> None \<and>
     total_balance d = 1500"
proof -
  have "\<forall>i \<ge> 3. sample_seed i = 0" "total_balance sample_db = 1500" by (simp add: sample_seed_def) code_simp
  with posts_beside overlapping_keeps_ledger [OF _ sample_ledger_ok] show ?thesis
    by (metis option.distinct(1))
qed

text \<open>
  C6. A key is posted once although requests overlap: of two sessions with the same key at most one
  reports a transfer of its own, and that transfer is on the books, under this key.
\<close>

theorem overlapping_key_once:
  assumes "(cstep E lim adm)\<^sup>*\<^sup>* ([], d0) (ss, d)" and "ledger_ok seed d0" and "\<forall>i \<ge> lim. seed i = 0"
    and "i < length ss" and "j < length ss" and "i \<noteq> j" and "reported (ss ! i) = Some t"
    and "IdempotencyKey (s_req (ss ! i)) = IdempotencyKey (s_req (ss ! j))" and "IdempotencyKey (s_req (ss ! i)) \<noteq> []"
  shows "reported (ss ! j) = None \<and> transfer_row_of t \<in> set (transfers d) \<and>
    T_IdempotencyKey t = IdempotencyKey (s_req (ss ! i))"
proof -
  have ok: "session_ok (E k) d (ss ! k)" if "k < length ss" for k
    using csteps_keep [OF assms(1-3)] that by (simp add: sessions_ok_def)
  have once: "reported_once ss" using csteps_keep [OF assms(1-3)] by (simp add: sessions_ok_def)
  have key: "on_books (s_req (ss ! k)) u d" if "k < length ss" "reported (ss ! k) = Some u" for k u
    using ok [OF that(1)] that(2) by (simp add: session_ok_def)
  have "reported (ss ! j) \<noteq> Some u" for u
    using reported_onceD [OF once assms(4-7), of u] key [OF assms(4,7)] key [OF assms(5), of u] assms(8,9)
    by (auto simp: on_books_def)
  with key [OF assms(4,7)] assms(9) show ?thesis by (auto simp: on_books_def)
qed

theorem overlapping_key_once_witness:
  "\<exists>s0 s1 d t. (cstep own_ids 3 any_request)\<^sup>*\<^sup>* ([], sample_db) ([s0, s1], d) \<and> reported s0 = Some t \<and>
     reported s1 = None \<and> transfer_row_of t \<in> set (transfers d)"
proof -
  obtain s0 s1 d t where x: "(cstep own_ids 3 any_request)\<^sup>*\<^sup>* ([], sample_db) ([s0, s1], d)" "reported s0 = Some t"
    "s_req s0 = pay" "s_req s1 = pay"
    using posts_beside by blast
  have "\<forall>i \<ge> 3. sample_seed i = 0" "IdempotencyKey pay \<noteq> []" by (simp_all add: sample_seed_def pay_def)
  with overlapping_key_once [OF x(1) sample_ledger_ok, of 0 1 t] x show ?thesis by auto
qed

text \<open>
  C7. \<open>ExecuteWithForUpdate\<close> never deadlocks, and every request is answered: when requests between
  accounts that exist overlap, in every reachable state in which some are not finished one of them
  can make its next call (no circle of sessions that wait for locks), and from any state on at most
  95 calls per request are left, in whatever order they are made.
\<close>

theorem for_update_never_deadlocks:
  assumes "(cstep E lim for_update_requests)\<^sup>*\<^sup>* ([], d0) (ss, d)" and "ledger_ok seed d0" and "\<forall>i \<ge> lim. seed i = 0"
    and "(proceeds E ^^ n) (ss, d) (ss', d')"
  shows "n \<le> 95 * length ss \<and> ((\<forall>s \<in> set ss'. finished s) \<or> (\<exists>y. proceeds E (ss', d') y))"
proof
  have "n \<le> sum_list (replicate (length ss) (95::nat))"
    using queuedD [OF csteps_queued [OF assms(1-3)]] by (intro proceeds_bound [OF assms(4)]) simp_all
  then show "n \<le> 95 * length ss" by (simp add: sum_list_replicate mult.commute)
  have "(proceeds E)\<^sup>*\<^sup>* (ss, d) (ss', d')" using assms(4) by (rule relpowp_imp_rtranclp)
  then have "(cstep E lim for_update_requests)\<^sup>*\<^sup>* (ss, d) (ss', d')"
    by (rule rtranclp_mono [THEN predicate2D, rotated]) (auto intro: cstep.calls)
  with assms(1) have all: "(cstep E lim for_update_requests)\<^sup>*\<^sup>* ([], d0) (ss', d')" by (rule rtranclp_trans)
  have "\<exists>y. proceeds E (ss', d') y" if "s \<in> set ss'" "\<not> finished s" for s
  proof -
    from that obtain i where "i < length ss'" "\<not> finished (ss' ! i)" by (metis in_set_conv_nth)
    with someone_calls [OF csteps_queued [OF all assms(2,3)], of E seed i] csteps_keep [OF all assms(2,3)]
    obtain j where "j < length ss'" "\<not> finished (ss' ! j)" "may_call (E j) d' ss' j" by blast
    then show ?thesis using proceeds.intros [of j ss' E d'] by (metis surj_pair)
  qed
  then show "(\<forall>s \<in> set ss'. finished s) \<or> (\<exists>y. proceeds E (ss', d') y)" by blast
qed

theorem for_update_never_deadlocks_witness:
  "\<exists>ss d ss' d'. (cstep own_ids 3 for_update_requests)\<^sup>*\<^sup>* ([], sample_db) (ss, d) \<and> length ss = 2 \<and>
     (proceeds own_ids ^^ 5) (ss, d) (ss', d') \<and>
     ((\<forall>s \<in> set ss'. finished s) \<or> (\<exists>y. proceeds own_ids (ss', d') y))"
proof -
  obtain ss d x where start: "acts own_ids 3 for_update_requests both_ways ([], sample_db) = Some (ss, d)" "length ss = 2"
    and x: "acts own_ids 3 for_update_requests (map Move turns) (ss, d) = Some x"
    using both_ways_run by (auto split: option.splits)
  obtain ss' d' where x': "x = (ss', d')" by (cases x)
  have p: "(proceeds own_ids ^^ 5) (ss, d) (ss', d')" using moves_proceeds [OF x] x' by (simp add: turns_def numeral_eq_Suc del: relpowp.simps)
  have "\<forall>i \<ge> 3. sample_seed i = 0" by (simp add: sample_seed_def)
  from for_update_never_deadlocks [OF acts_csteps [OF start(1)] sample_ledger_ok this p] acts_csteps [OF start(1)] start(2) p
  show ?thesis by blast
qed




end
