(* ===== verification/Typed.thy ===== *)
theory Typed
  imports Interleave
begin

text \<open>
  The tables are always well typed: whatever program runs, with whatever failures, every row has the
  types and satisfies the constraints that the migrations declare. Statements that the database does
  not check (marks, keys) keep them too.
\<close>

section \<open>Statements\<close>

text \<open>An update that keeps the ids and the row constraints.\<close>

definition keeps_rows :: "('r \<Rightarrow> bool) \<Rightarrow> ('r \<Rightarrow> 'k) \<Rightarrow> ('r \<Rightarrow> err + 'r) \<Rightarrow> bool" where
  "keeps_rows ok key f \<longleftrightarrow> (\<forall>r r'. f r = Inr r' \<longrightarrow> key r' = key r \<and> (ok r \<longrightarrow> ok r'))"

lemma update_rows_keeps:
  assumes u: "update_rows P f xs = Inr (n, ys)" and k: "keeps_rows ok key f"
  shows "map key ys = map key xs \<and> ((\<forall>x \<in> set xs. ok x) \<longrightarrow> (\<forall>y \<in> set ys. ok y))"
proof -
  let ?g = "\<lambda>x. if P x then projr (f x) else x"
  have g: "key (?g x) = key x \<and> (ok x \<longrightarrow> ok (?g x))" if "x \<in> set xs" for x
    using update_rows_Inr [OF u] k that by (auto simp: keeps_rows_def)
  have ys: "ys = map ?g xs" using update_rows_Inr [OF u] by blast
  have "ok y" if all: "\<forall>x \<in> set xs. ok x" and y: "y \<in> set ys" for y
  proof -
    obtain x where "x \<in> set xs" "y = ?g x" using y unfolding ys set_map by blast
    then show ?thesis using g all by blast
  qed
  moreover have "map key ys = map key xs" using g by (simp add: ys)
  ultimately show ?thesis by blast
qed

lemma has_account_map: "map acc_id (accounts d') = map acc_id (accounts d) \<Longrightarrow> has_account i d' = has_account i d"
  unfolding has_account_def by (metis list.set_map)

lemma update_accounts_typed:
  assumes u: "update_accounts P f d = Inr (n, rows, d')" and ok: "constraints_ok d"
    and f: "keeps_rows account_row_ok acc_id f"
  shows "constraints_ok d'"
proof -
  obtain as where r: "update_rows P f (accounts d) = Inr (n, as)" and d': "d' = d\<lparr>accounts := as\<rparr>"
    using u by (auto simp: update_accounts_def split: sum.splits)
  note k = update_rows_keeps [OF r f]
  then have "has_account i d' = has_account i d" for i by (intro has_account_map) (simp add: d')
  with k ok show ?thesis by (simp add: constraints_ok_def d')
qed

lemma update_keys_typed:
  assumes u: "update_keys P f d = Inr (n, rows, d')" and ok: "constraints_ok d"
    and f: "keeps_rows key_row_ok ik_key f"
  shows "constraints_ok d'"
proof -
  obtain ks where r: "update_rows P f (idem_keys d) = Inr (n, ks)" and d': "d' = d\<lparr>idem_keys := ks\<rparr>"
    using u by (auto simp: update_keys_def split: sum.splits)
  with update_rows_keeps [OF r f] ok show ?thesis by (simp add: constraints_ok_def has_account_def)
qed

lemma update_outbox_typed:
  assumes u: "update_outbox P f d = Inr (n, rows, d')" and ok: "constraints_ok d"
    and f: "keeps_rows (\<lambda>_. True) ob_id f"
  shows "constraints_ok d'"
proof -
  obtain os where r: "update_rows P f (outbox d) = Inr (n, os)" and d': "d' = d\<lparr>outbox := os\<rparr>"
    using u by (auto simp: update_outbox_def split: sum.splits)
  with update_rows_keeps [OF r f] ok show ?thesis by (simp add: constraints_ok_def has_account_def)
qed

lemma set_balance_keeps: "keeps_rows account_row_ok acc_id (\<lambda>a. set_balance (b a) a)"
  by (auto simp: keeps_rows_def set_balance_def account_row_ok_def split: if_splits)

lemmas account_updates = sql_debit_if_funds_def sql_debit_by_id_def sql_credit_by_id_def sql_set_balance_def
  sql_debit_if_version_def sql_update_webhook_def

lemmas reads = sql_account_exists_def sql_select_balance_for_update_def sql_lock_pair_def
  sql_select_balance_version_def sql_select_currencies_def sql_select_account_def sql_select_webhook_def
  sql_select_postings_def sql_select_key_def sql_count_by_status_def sql_sum_postings_def sql_select_drift_def
  sql_count_negative_def sql_ping_def sql_select_seed_drift_def sql_count_negative_of_def sql_count_unsettled_def

lemma stmt_typed:
  assumes u: "exec_stmt v s d = Inr (n, rows, d')" and ok: "constraints_ok d"
  shows "constraints_ok d'"
proof (cases s)
  case (DebitIfFunds amt i)
  with u show ?thesis by (auto simp: account_updates intro!: update_accounts_typed [OF _ ok set_balance_keeps])
next
  case (DebitById amt i)
  with u show ?thesis by (auto simp: account_updates intro!: update_accounts_typed [OF _ ok set_balance_keeps])
next
  case (CreditById amt i)
  with u show ?thesis by (auto simp: account_updates intro!: update_accounts_typed [OF _ ok set_balance_keeps])
next
  case (SetBalance b i)
  with u show ?thesis by (auto simp: account_updates intro!: update_accounts_typed [OF _ ok set_balance_keeps])
next
  case (DebitIfVersion amt i ver)
  have "keeps_rows account_row_ok acc_id (\<lambda>a. if \<not> bigint (acc_version a + 1) then Inl numeric_out_of_range
      else set_balance (acc_balance a - sint amt) (a\<lparr>acc_version := acc_version a + 1\<rparr>))"
    by (auto simp: keeps_rows_def set_balance_def account_row_ok_def split: if_splits)
  with u DebitIfVersion show ?thesis by (auto simp: account_updates intro: update_accounts_typed [OF _ ok])
next
  case (UpdateWebhook url i)
  have "keeps_rows account_row_ok acc_id (\<lambda>a. Inr (a\<lparr>acc_webhook := Some url\<rparr>))"
    by (auto simp: keeps_rows_def account_row_ok_def)
  with u UpdateWebhook show ?thesis by (auto simp: account_updates intro: update_accounts_typed [OF _ ok])
next
  case (InsertAccount name cur url)
  with u obtain c where c: "char3 cur = Some c" by (auto simp: sql_insert_account_def split: option.splits)
  let ?a = "\<lparr>acc_id = e_id v, acc_name = name, acc_currency = c, acc_balance = 0, acc_version = 0,
    acc_created = e_now v, acc_webhook = url\<rparr>"
  from u InsertAccount c have d': "d' = d\<lparr>accounts := accounts d @ [?a]\<rparr>" and new: "\<not> has_account (e_id v) d"
    by (auto simp: sql_insert_account_def Let_def split: if_splits)
  have row: "account_row_ok ?a" using char3_idem [OF c] by (simp add: account_row_ok_def bigint_def)
  have has: "has_account j d' = (j = e_id v \<or> has_account j d)" for j by (auto simp: has_account_def d')
  have "e_id v \<notin> acc_id ` set (accounts d)" using new by (simp add: has_account_def)
  with ok row show ?thesis unfolding constraints_ok_def has by (simp add: d')
next
  case (InsertTransfer tid key amt cur f t)
  with u obtain r where d': "d' = d\<lparr>transfers := transfers d @ [r]\<rparr>" and r: "transfer_row_ok r"
    "tr_id r \<notin> tr_id ` set (transfers d)" "tr_key r \<notin> tr_key ` set (transfers d)"
    "has_account (tr_from r) d" "has_account (tr_to r) d"
    by (fastforce simp: sql_insert_transfer_def Let_def split: option.splits if_splits)
  have "has_account i d' = has_account i d" for i by (simp add: has_account_def d')
  with ok r show ?thesis unfolding constraints_ok_def by (simp add: d')
next
  case (InsertPostings tid i1 a1 i2 a2)
  with u obtain p q where d': "d' = d\<lparr>postings := postings d @ [p, q]\<rparr>" and pq: "po_id p \<notin> po_id ` set (postings d)"
    "po_id q \<notin> po_id ` set (postings d)" "po_id q = po_id p + 1" "po_transfer p \<in> tr_id ` set (transfers d)"
    "po_transfer q \<in> tr_id ` set (transfers d)" "has_account (po_account p) d" "has_account (po_account q) d"
    by (fastforce simp: sql_insert_postings_def Let_def split: if_splits)
  have "has_account i d' = has_account i d" for i by (simp add: has_account_def d')
  with ok pq show ?thesis unfolding constraints_ok_def by (simp add: d')
next
  case (InsertKey key h)
  with u ok show ?thesis
    by (auto simp: sql_insert_key_def constraints_ok_def has_account_def key_row_ok_def split: if_splits)
next
  case (StealKey h key threshold)
  have "keeps_rows key_row_ok ik_key (\<lambda>r. Inr (r\<lparr>ik_status := InProgress, ik_hash := h, ik_claimed := e_now v\<rparr>))"
    by (auto simp: keeps_rows_def key_row_ok_def)
  with u StealKey show ?thesis by (auto simp: sql_steal_key_def intro: update_keys_typed [OF _ ok])
next
  case (CompleteKey code body key)
  have "keeps_rows key_row_ok ik_key (\<lambda>r. Inr (r\<lparr>ik_status := Done, ik_code := Some code, ik_body := Some body\<rparr>))"
    by (auto simp: keeps_rows_def key_row_ok_def)
  with u CompleteKey show ?thesis
    by (auto simp: sql_complete_key_def split: if_splits intro: update_keys_typed [OF _ ok])
next
  case (InsertOutbox ty payload url)
  with u ok show ?thesis
    by (auto simp: sql_insert_outbox_def constraints_ok_def has_account_def split: if_splits)
next
  case (ClaimEvents lim threshold)
  then obtain ids where d': "d' = d\<lparr>outbox := map (\<lambda>r. if ob_id r \<in> set ids then claim_row v threshold r else r) (outbox d)\<rparr>"
    using u by (auto simp: sql_claim_events_def Let_def split: if_splits)
  have "map ob_id (outbox d') = map ob_id (outbox d)" by (simp add: d' claim_row_def)
  with ok d' show ?thesis by (simp add: constraints_ok_def has_account_def del: map_map)
next
  case (DeliverEvent i)
  with u show ?thesis
    by (auto simp: sql_deliver_event_def keeps_rows_def intro!: update_outbox_typed [OF _ ok])
next
  case (KillEvent i reason)
  with u show ?thesis
    by (auto simp: sql_kill_event_def keeps_rows_def intro!: update_outbox_typed [OF _ ok] split: if_splits)
next
  case (FailEvent i reason m)
  with u show ?thesis
    by (auto simp: sql_fail_event_def keeps_rows_def Let_def intro!: update_outbox_typed [OF _ ok] split: if_splits)
next
  case DeleteOutbox
  with u ok show ?thesis by (auto simp: sql_delete_outbox_def constraints_ok_def has_account_def)
qed (use u ok in \<open>auto simp: reads Let_def split: if_splits\<close>)

section \<open>Programs\<close>

text \<open>The committed tables and the view of an open transaction.\<close>

definition typed :: "world \<Rightarrow> bool" where
  "typed w \<longleftrightarrow> constraints_ok (tables w) \<and> (\<forall>t. txn w = Some t \<longrightarrow> constraints_ok (view t))"

lemma typed_simps [simp]:
  "typed (tick w) = typed w" "typed (draw_ids orc s w) = typed w"
  by (simp_all add: typed_def tick_def draw_ids_def split: stmt.splits)

lemma typed_put [simp]:
  "typed (w\<lparr>txn := Some t\<rparr>) = (constraints_ok (tables w) \<and> constraints_ok (view t))"
  "typed (w\<lparr>txn := None\<rparr>) = constraints_ok (tables w)"
  by (simp_all add: typed_def)

lemma typedD: "typed w \<Longrightarrow> constraints_ok (tables w)" "typed w \<Longrightarrow> txn w = Some t \<Longrightarrow> constraints_ok (view t)"
  by (simp_all add: typed_def)

lemma call_tx_typed: "call_tx orc s w = (r, w') \<Longrightarrow> typed w \<Longrightarrow> typed w'"
  by (auto simp: call_tx_def typedD stmt_typed [OF _ typedD(2)]
      split: option.splits if_splits sum.splits prod.splits)

lemma call_pool_typed: "call_pool orc s w = (r, w') \<Longrightarrow> typed w \<Longrightarrow> typed w'"
  using stmt_typed [OF _ typedD(1)]
  by (auto simp: call_pool_def typed_def split: option.splits if_splits sum.splits prod.splits)

lemma call_typed: "call orc c s w = (r, w') \<Longrightarrow> typed w \<Longrightarrow> typed w'"
  by (cases c) (simp_all add: call_def call_tx_typed call_pool_typed)

lemma typed_simps2 [simp]: "typed (w\<lparr>requests := R\<rparr>) = typed w"
  by (simp add: typed_def)

lemma begin_typed: "begin_tx orc w = (r, w') \<Longrightarrow> typed w \<Longrightarrow> typed w'"
  by (auto simp: begin_tx_def typed_def tick_def split: option.splits)

lemma commit_typed: "commit_tx orc w = (r, w') \<Longrightarrow> typed w \<Longrightarrow> typed w'"
  by (auto simp: commit_tx_def typed_def tick_def split: option.splits if_splits)

lemma rollback_typed: "typed w \<Longrightarrow> typed (rollback_tx w)"
  by (simp add: rollback_tx_def typed_def tick_def)

lemma run_typed: "run orc p w = (a, w') \<Longrightarrow> typed w \<Longrightarrow> typed w'"
proof (induction p arbitrary: w)
  case (BeginTx k)
  obtain r w1 where r: "begin_tx orc w = (r, w1)" by fastforce
  with BeginTx begin_typed [OF r] show ?case by auto
next
  case (CommitTx k)
  obtain r w1 where r: "commit_tx orc w = (r, w1)" by fastforce
  with CommitTx commit_typed [OF r] show ?case by auto
next
  case (Exec c s k)
  obtain r w1 where r: "call orc c s w = (r, w1)" by fastforce
  with Exec call_typed [OF r] show ?case by auto
next
  case (Query c s k)
  obtain r w1 where r: "call orc c s w = (r, w1)" by fastforce
  with Query call_typed [OF r] show ?case by auto
qed (fastforce simp: rollback_typed)+

lemma pstep_typed: "pstep orc p w = (p', w') \<Longrightarrow> typed w \<Longrightarrow> typed w'"
  by (cases p) (auto simp: rollback_typed split: prod.splits dest: begin_typed commit_typed call_typed)

section \<open>Properties\<close>



end
