(* ===== verification/Shutdown.thy ===== *)
theory Shutdown
  imports Prelude
begin

text \<open>
  The life of the server process (\<open>main\<close> of \<open>cmd/api\<close>): start, signal, shutdown. Three activities
  share it: \<open>main\<close>, the goroutine that waits for a signal, and the handlers and the poller, which
  hold connections of the pool while they use them. The steps follow the documented behaviour of
  \<open>net/http\<close> (\<open>ListenAndServe\<close> returns at once when \<open>Shutdown\<close> is called, \<open>Shutdown\<close> waits for the
  requests in progress or the deadline) and of \<open>pgxpool\<close> (\<open>Close\<close> refuses new connections and waits
  for the ones in use); the end of \<open>main\<close> ends every goroutine.
\<close>

section \<open>States and steps\<close>

datatype main_state = Listening | Closing | Exited nat

datatype signal_state = Awaiting | Draining | Finished

record server =
  main_at :: main_state
  signal_at :: signal_state
  inflight :: nat         \<comment> \<open>requests being handled\<close>
  held :: nat             \<comment> \<open>connections in use by them\<close>
  poller_busy :: bool     \<comment> \<open>the poller uses a connection\<close>
  poller_on :: bool       \<comment> \<open>its context is not cancelled\<close>

definition startup :: "bool \<Rightarrow> server" where
  "startup connected =
     \<lparr>main_at = (if connected then Listening else Exited 1), signal_at = Awaiting, inflight = 0,
      held = 0, poller_busy = False, poller_on = connected\<rparr>"

definition running :: "server \<Rightarrow> bool" where
  "running s \<longleftrightarrow> (case main_at s of Exited _ \<Rightarrow> False | _ \<Rightarrow> True)"

inductive server_step :: "server \<Rightarrow> server \<Rightarrow> bool" where
  accept: "main_at s = Listening \<Longrightarrow> signal_at s = Awaiting \<Longrightarrow>
    server_step s (s\<lparr>inflight := inflight s + 1\<rparr>)"
| acquire: "main_at s = Listening \<Longrightarrow> held s < inflight s \<Longrightarrow> server_step s (s\<lparr>held := held s + 1\<rparr>)"
| release: "running s \<Longrightarrow> 0 < held s \<Longrightarrow> server_step s (s\<lparr>held := held s - 1\<rparr>)"
| respond: "running s \<Longrightarrow> held s < inflight s \<Longrightarrow> server_step s (s\<lparr>inflight := inflight s - 1\<rparr>)"
| poller_acquire: "main_at s = Listening \<Longrightarrow> \<not> poller_busy s \<Longrightarrow> server_step s (s\<lparr>poller_busy := True\<rparr>)"
| poller_release: "running s \<Longrightarrow> poller_busy s \<Longrightarrow> server_step s (s\<lparr>poller_busy := False\<rparr>)"
| signalled: "running s \<Longrightarrow> signal_at s = Awaiting \<Longrightarrow> server_step s (s\<lparr>signal_at := Draining\<rparr>)"
| drained: "running s \<Longrightarrow> signal_at s = Draining \<Longrightarrow> inflight s = 0 \<Longrightarrow>
    server_step s (s\<lparr>signal_at := Finished, poller_on := False\<rparr>)"
| timed_out: "running s \<Longrightarrow> signal_at s = Draining \<Longrightarrow>
    server_step s (s\<lparr>signal_at := Finished, poller_on := False\<rparr>)"
| listen_failed: "main_at s = Listening \<Longrightarrow> signal_at s = Awaiting \<Longrightarrow>
    server_step s (s\<lparr>main_at := Exited 1\<rparr>)"
| listen_closed: "main_at s = Listening \<Longrightarrow> signal_at s \<noteq> Awaiting \<Longrightarrow>
    server_step s (s\<lparr>main_at := Closing\<rparr>)"
| closed: "main_at s = Closing \<Longrightarrow> held s = 0 \<Longrightarrow> \<not> poller_busy s \<Longrightarrow>
    server_step s (s\<lparr>main_at := Exited 0\<rparr>)"

inductive_cases exited_step: "server_step s s'"

section \<open>The invariant\<close>

definition orderly :: "server \<Rightarrow> bool" where
  "orderly s \<longleftrightarrow>
     held s \<le> inflight s \<and>
     (main_at s = Closing \<longrightarrow> signal_at s \<noteq> Awaiting) \<and>
     (main_at s = Exited 0 \<longrightarrow> signal_at s \<noteq> Awaiting \<and> held s = 0 \<and> \<not> poller_busy s) \<and>
     (signal_at s \<noteq> Finished \<and> running s \<longrightarrow> poller_on s)"

lemma orderly_startup: "orderly (startup connected)"
  by (simp add: orderly_def startup_def running_def)

lemma orderly_step: "server_step s s' \<Longrightarrow> orderly s \<Longrightarrow> orderly s'"
  by (induction rule: server_step.induct) (auto simp: orderly_def running_def split: main_state.splits)

lemma orderly_steps: "server_step\<^sup>*\<^sup>* s s' \<Longrightarrow> orderly s \<Longrightarrow> orderly s'"
  by (induction rule: rtranclp_induct) (auto intro: orderly_step)

section \<open>Properties\<close>

text \<open>A request comes in, the signal arrives, the listener returns, and the process is gone.\<close>

definition cut_off :: server where
  "cut_off = \<lparr>main_at = Exited 0, signal_at = Draining, inflight = 1, held = 0, poller_busy = False,
     poller_on = True\<rparr>"

lemma cut_off_reached: "server_step\<^sup>*\<^sup>* (startup True) cut_off"
proof -
  let ?s1 = "(startup True)\<lparr>inflight := inflight (startup True) + 1\<rparr>"
  let ?s2 = "?s1\<lparr>signal_at := Draining\<rparr>"
  let ?s3 = "?s2\<lparr>main_at := Closing\<rparr>"
  have "server_step (startup True) ?s1" by (rule accept) (simp_all add: startup_def)
  moreover have "server_step ?s1 ?s2" by (rule signalled) (simp_all add: startup_def running_def)
  moreover have "server_step ?s2 ?s3" by (rule listen_closed) (simp_all add: startup_def)
  moreover have "server_step ?s3 (?s3\<lparr>main_at := Exited 0\<rparr>)"
    by (rule closed) (simp_all add: startup_def)
  moreover have "?s3\<lparr>main_at := Exited 0\<rparr> = cut_off" by (simp add: startup_def cut_off_def)
  ultimately show ?thesis by (metis rtranclp.simps)
qed



end
