(* ===== verification/Spec2Isabelle.thy ===== *)
theory Spec2Isabelle
  imports Guarantees Loadtest Chaostest Overlap Typed Shutdown
begin

text \<open>
  A verification development for idem-ledger, a double-entry ledger with an HTTP API, idempotency
  keys, a transactional outbox and webhooks, written in Go on top of PostgreSQL.

  \<^bold>\<open>The program.\<close> The API (\<open>cmd/api\<close>) creates accounts and posts transfers. A transfer is one
  database transaction of one of the executors in \<open>internal/ledger\<close>: it claims the idempotency key of
  the request (\<open>internal/idempotency\<close>), debits one account, credits the other, writes the transfer,
  its two postings and an outbox event (\<open>internal/store\<close>), and completes the key with the response,
  which later requests with the key get as a replay. The poller (\<open>internal/outbox\<close>) claims due events
  in batches, posts them to the webhook of the account and marks the outcome; it reschedules with
  backoff and gives up after eight attempts. A reconciliation job (\<open>internal/recon\<close>, \<open>cmd/recon\<close>)
  checks the books. \<open>cmd/loadtest\<close> and \<open>cmd/chaostest\<close> drive executors and poller and check the
  result.

  \<^bold>\<open>How code is modelled.\<close> A Go function that talks to anything outside is a tree of calls, a value of
  type \<open>'a prog\<close> (theory \<open>Driver\<close>): statements on the transaction or the pool, \<open>BEGIN\<close>, \<open>COMMIT\<close>,
  \<open>ROLLBACK\<close>, clock, UUIDs, HTTP requests, pauses. Errors are values of \<open>err\<close>, a Go pair of value and
  error is \<open>err + 'a\<close>. \<open>int64\<close> is a 64-bit word, a column is an \<open>int\<close> with its range checked by the
  statement. Every SQL text of the source is one constructor of \<open>stmt\<close> with its effect on the tables
  in \<open>Sql\<close>, constraints and SQLSTATE codes included. \<open>Session\<close> runs a tree on a \<open>world\<close> (tables, open
  transaction, sequences, log of HTTP requests). What neither code nor tables decide is an
  \<open>environ\<close>: which call fails and how, whether a call whose reply was lost took effect, clock, UUIDs,
  gaps in the sequence of posting ids, the answers of the merchants. Theorems quantify over it, so they hold for every pattern of
  failures unless they assume \<open>no_faults\<close>.

  \<^bold>\<open>Theories.\<close>
  \<^item> \<open>Prelude\<close>: machine integers, sums, updates of row lists, the collections of facts.
  \<^item> \<open>Schema\<close> (\<open>migrations/\<close>), \<open>Driver\<close>, \<open>Sql\<close>, \<open>Session\<close>, \<open>TxLogic\<close>: tables, calls, statements, sessions,
    and a weakest-precondition logic for code inside a transaction.
  \<^item> \<open>Store\<close> (\<open>internal/store\<close>), \<open>Idempotency\<close>, \<open>Debit\<close> (the debit functions and their contract, the
    locale \<open>debit_strategy\<close>), \<open>Ledger\<close> (\<open>transfer.go\<close>), \<open>LedgerSpec\<close> (the transaction body refines
    \<open>exec_spec\<close>), \<open>Books\<close> (the invariant of the books), \<open>Attempt\<close>, \<open>Strategies\<close> (\<open>strategies.go\<close>, the
    retry loops), \<open>ExactlyOnce\<close> (the locale \<open>executor\<close> and its guarantees), \<open>Sample\<close> (concrete inputs),
    \<open>Guarantees\<close> (the properties of the executors), \<open>Bank\<close> (the abstract bank they refine), \<open>Optimistic\<close>
    (\<open>ExecuteOptimistic\<close>).
  \<^item> \<open>Poller\<close>, \<open>Delivery\<close>, \<open>Drain\<close> (\<open>internal/outbox\<close>): the code and what becomes of an event; safety of
    marks; progress. \<open>Interleave\<close>: pollers that overlap, call by call.
  \<^item> \<open>GoText\<close>, \<open>Address\<close>, \<open>Sha256\<close>, \<open>Webhook\<close>, \<open>Config\<close>, \<open>Api\<close>, \<open>Http\<close>, \<open>Shutdown\<close> (\<open>cmd/api\<close>,
    \<open>internal/config\<close>, \<open>HashRequest\<close>): the standard library as far as it is used, the check of webhook
    URLs, handlers and their guarantees, start and end of the process. \<open>Frames\<close>: what any program
    leaves alone.
  \<^item> \<open>Recon\<close>, \<open>Queries\<close>: reconciliation, pages and metrics. \<open>System\<close>: requests, polls and
    reconciliations in any order, as a step relation with invariants. \<open>Bounds\<close>: how many calls a
    request or a poll makes. \<open>Typed\<close>: the types and constraints of the tables. \<open>Loadtest\<close>,
    \<open>Chaostest\<close>: the two test drivers.
  \<^item> \<open>Locks\<close>, \<open>Concurrent\<close>, \<open>Repeat\<close>, \<open>Serial\<close>, \<open>Deadlock\<close>, \<open>Alone\<close>, \<open>Overlap\<close>: requests to the executors
    that overlap, call by call, at the isolation level \<open>READ COMMITTED\<close> with row locks. A session is its
    program, its counters and the log of its statements; it sees the committed tables with its log
    repeated on them (\<open>overlay\<close>), and waits for rows that others have locked. The invariant: what a
    session that may still commit has done can be repeated on the tables as they are now (\<open>Repeat\<close>),
    so that its commit is the request run alone at that moment (\<open>Serial\<close>); the order of the locks
    (\<open>Deadlock\<close>); a session without others (\<open>Alone\<close>); the properties and their examples (\<open>Overlap\<close>).

  \<^bold>\<open>What is shown.\<close> A transfer is posted as a whole or not at all, at most once per key however often
  and through whatever failures it is sent, and every answer \<open>201\<close> to a key is the same
  (\<open>Guarantees\<close>, \<open>Http\<close>, \<open>System\<close>); the books stay in order in every reachable state (constraints,
  balances equal to the journal, double entry, one event per transfer), also while requests overlap,
  which are serializable in the order of their commits; \<open>ExecuteWithForUpdate\<close> never deadlocks, the
  conditional update can (\<open>Overlap\<close>); executors and API refine the abstract bank (\<open>Bank\<close>, \<open>Http\<close>);
  events are never lost, their marks are justified by the answers, and due events get delivered
  (\<open>Delivery\<close>, \<open>Drain\<close>, \<open>Interleave\<close>); webhook URLs are accepted exactly outside the reserved ranges (\<open>Webhook\<close>); reconciliation and test drivers report what the tables
  say. Some theorems state limits of the code: the optimistic executor ignores currencies, a mark of
  a poller whose lease has ended undoes a delivery, addresses such as \<open>0.0.0.0\<close> pass the check, a
  shutdown does not wait for requests, the load test does not end with one account.

  \<^bold>\<open>Bounds and fuel.\<close> Retry loops recurse on the attempts left (the constants of the code); the loop
  of the poller on the signals it selects; the wait of the chaos test on the rounds, of which 301
  are enough when the clock gains a tenth of a second in three calls. The choice of an account in
  the load test is a partial function, and \<open>transfer_chosen_iff\<close> says when it ends. A request makes at
  most 95 calls, a poll at most 351.

  \<^bold>\<open>Not modelled.\<close> Overlapping requests are those of \<open>Execute\<close> and \<open>ExecuteWithForUpdate\<close>;
  \<open>ExecuteOptimistic\<close>, which only the load test calls, runs without others. Handlers and pollers take
  part as single statements on the pool. A session that waits does not time out, and the deadlock
  detector is not modelled: that it aborts a session shows as a failing call with its SQLSTATE. The
  \<open>KEY SHARE\<close> locks of foreign keys are left out (a session takes them only on rows that it has locked
  or inserted itself). In the other theories a request takes effect as a whole. Contexts and
  deadlines appear as failing calls. The JSON decoders, \<open>url.Parse\<close>, the resolver, the Unicode case tables and the normal form of
  a JSON body (with its \<open>float64\<close> numbers) are parameters. Left out: log lines, routing by
  \<open>http.ServeMux\<close>, connection strings and the inside of the pool, flags, throughput and quantiles of
  the load test.
\<close>

end
